(* ===== verification/Prelude.thy ===== *)
theory Prelude
  imports
    Main
    "HOL-Library.AList"
    "HOL-Library.Multiset"
    "HOL-Library.List_Lexorder"
    "HOL-Library.Char_ord"
begin

text \<open>
  Shared material: the containers of the C++ standard library as the components use them
  (\<^verbatim>\<open>unordered_map\<close>, \<^verbatim>\<open>map\<close>), the dictionary interface both satisfy, reachability of step
  relations with the invariant rule, and generic lemmas on lists and association lists.
\<close>

named_theorems cxx_map \<open>rewriting lookups after container operations\<close>
named_theorems cxx_inv \<open>container operations keep the container invariants\<close>

section \<open>Association lists\<close>

lemma map_of_eq_None_keys: "map_of m k = None \<longleftrightarrow> k \<notin> set (map fst m)"
  by (auto simp: map_of_eq_None_iff)

lemma map_of_SomeD_key: "map_of m k = Some v \<Longrightarrow> k \<in> set (map fst m)"
  by (metis map_of_eq_None_keys option.distinct(1))

lemma length_alist_delete:
  assumes "distinct (map fst m)" "map_of m k = Some v"
  shows "Suc (length (AList.delete k m)) = length m"
  using assms
proof (induction m)
  case Nil
  then show ?case by simp
next
  case (Cons p m)
  obtain a b where p: "p = (a, b)" by (cases p)
  show ?case
  proof (cases "a = k")
    case True
    with Cons.prems p have "k \<notin> fst ` set m" by auto
    then show ?thesis using True p by simp
  next
    case False
    then show ?thesis using Cons p by simp
  qed
qed

lemma length_alist_update:
  "length (AList.update k v m) = (if map_of m k = None then Suc (length m) else length m)"
  by (induction m) auto

lemma alist_update_new: "map_of m k = None \<Longrightarrow> AList.update k v m = m @ [(k, v)]"
  by (induction m) (auto split: if_splits)

lemma set_alist_delete: "set (AList.delete k m) = {p \<in> set m. fst p \<noteq> k}"
  by (auto simp: AList.delete_eq)

lemma map_of_lastI:
  assumes "distinct (map fst m)" "m \<noteq> []"
  shows "map_of m (fst (last m)) = Some (snd (last m))"
  using assms by (metis last_in_set map_of_eq_Some_iff prod.collapse)

lemma alist_delete_last:
  assumes "distinct (map fst m)" "m \<noteq> []"
  shows "AList.delete (fst (last m)) m = butlast m"
proof -
  have m: "m = butlast m @ [last m]" using assms(2) by simp
  then have "fst (last m) \<notin> fst ` set (butlast m)"
    using assms(1) by (metis (no_types) distinct.simps(2) distinct_append disjoint_insert(1)
        list.set_map list.simps(15) list.simps(8,9) map_append)
  then have "[p\<leftarrow>butlast m. fst (last m) \<noteq> fst p] = butlast m"
    by (subst filter_id_conv) (metis imageI)
  moreover have "[p\<leftarrow>m. fst (last m) \<noteq> fst p] = [p\<leftarrow>butlast m @ [last m]. fst (last m) \<noteq> fst p]"
    using m by metis
  ultimately show ?thesis by (simp add: AList.delete_eq case_prod_unfold)
qed

lemma distinct_map_fst_sub: "distinct (map fst m) \<Longrightarrow> distinct (map fst (AList.delete k m))"
  by (rule distinct_delete)

section \<open>The unordered map\<close>

text \<open>
  A \<^verbatim>\<open>std::unordered_map\<close> is an association list with distinct keys. Iterating over the C++
  map visits the entries in some order, the order of the list here. \<^verbatim>\<open>find\<close> is \<^const>\<open>map_of\<close>,
  \<^verbatim>\<open>m[k] = v\<close> is \<^const>\<open>AList.update\<close>, \<^verbatim>\<open>erase\<close> is \<^const>\<open>AList.delete\<close> and \<^verbatim>\<open>size\<close> the length.
\<close>

type_synonym ('k, 'v) umap = "('k \<times> 'v) list"

abbreviation um_find :: "('k, 'v) umap \<Rightarrow> 'k \<Rightarrow> 'v option" where
  "um_find \<equiv> map_of"

abbreviation um_put :: "'k \<Rightarrow> 'v \<Rightarrow> ('k, 'v) umap \<Rightarrow> ('k, 'v) umap" where
  "um_put \<equiv> AList.update"

abbreviation um_erase :: "'k \<Rightarrow> ('k, 'v) umap \<Rightarrow> ('k, 'v) umap" where
  "um_erase \<equiv> AList.delete"

abbreviation um_size :: "('k, 'v) umap \<Rightarrow> nat" where
  "um_size \<equiv> length"

definition um_ok :: "('k, 'v) umap \<Rightarrow> bool" where
  "um_ok m \<longleftrightarrow> distinct (map fst m)"

text \<open>\<^verbatim>\<open>m[k]\<close> as an rvalue or a reference inserts a value-initialised entry when \<open>k\<close> is absent.\<close>

definition um_touch :: "'v \<Rightarrow> 'k \<Rightarrow> ('k, 'v) umap \<Rightarrow> ('k, 'v) umap" where
  "um_touch d k m = (case um_find m k of None \<Rightarrow> um_put k d m | Some _ \<Rightarrow> m)"

definition um_at :: "'v \<Rightarrow> ('k, 'v) umap \<Rightarrow> 'k \<Rightarrow> 'v" where
  "um_at d m k = (case um_find m k of None \<Rightarrow> d | Some v \<Rightarrow> v)"

lemma um_find_put [cxx_map]: "um_find (um_put k v m) = (um_find m)(k \<mapsto> v)"
  by (rule update_conv')

lemma um_find_erase [cxx_map]: "um_find (um_erase k m) = (um_find m)(k := None)"
  by (rule delete_conv')

lemma um_find_touch [cxx_map]:
  "um_find (um_touch d k m) = (um_find m)(k \<mapsto> um_at d m k)"
  by (auto simp: um_touch_def um_at_def cxx_map fun_eq_iff split: option.splits)

lemma um_at_upd:
  "um_at d (um_put k v m) = (um_at d m)(k := v)" "um_at d (um_erase k m) = (um_at d m)(k := d)"
  "um_at d (um_touch d k m) = um_at d m"
  by (auto simp: um_at_def cxx_map fun_eq_iff)

lemma um_ok_empty [cxx_inv]: "um_ok []"
  by (simp add: um_ok_def)

lemma um_ok_put [cxx_inv]: "um_ok m \<Longrightarrow> um_ok (um_put k v m)"
  unfolding um_ok_def by (rule distinct_update)

lemma um_ok_erase [cxx_inv]: "um_ok m \<Longrightarrow> um_ok (um_erase k m)"
  unfolding um_ok_def by (rule distinct_delete)

lemma um_ok_touch [cxx_inv]: "um_ok m \<Longrightarrow> um_ok (um_touch d k m)"
  by (auto simp: um_touch_def cxx_inv split: option.splits)

lemma um_size_eq_card: "um_ok m \<Longrightarrow> um_size m = card (dom (um_find m))"
  unfolding um_ok_def by (metis dom_map_of_conv_image_fst distinct_card length_map list.set_map)

lemma um_ok_filter [cxx_inv]: "um_ok m \<Longrightarrow> um_ok (filter P m)"
  by (auto simp: um_ok_def distinct_map_filter)

lemma um_find_filter:
  assumes "um_ok m"
  shows "um_find (filter (\<lambda>(k, v). P k v) m) k =
    (case um_find m k of None \<Rightarrow> None | Some v \<Rightarrow> if P k v then Some v else None)"
  using assms
proof (induction m)
  case (Cons p m)
  obtain j w where p: "p = (j, w)" by (cases p)
  have ok: "um_ok m" and new: "um_find m j = None"
    using Cons.prems p by (auto simp: um_ok_def map_of_eq_None_iff)
  show ?case using Cons.IH [OF ok] new p by (cases "k = j") simp_all
qed simp

text \<open>Summing a measure of the values, as reference counts do.\<close>

definition um_sum :: "('v \<Rightarrow> nat) \<Rightarrow> ('k, 'v) umap \<Rightarrow> nat" where
  "um_sum f m = (\<Sum>(k, v) \<leftarrow> m. f v)"

lemma um_sum_Nil [simp]: "um_sum f [] = 0"
  by (simp add: um_sum_def)

lemma um_sum_put_new: "um_find m k = None \<Longrightarrow> um_sum f (um_put k v m) = um_sum f m + f v"
  by (simp add: um_sum_def alist_update_new)

lemma um_sum_erase:
  assumes "um_ok m" "um_find m k = Some v"
  shows "um_sum f m = f v + um_sum f (um_erase k m)"
  using assms
proof (induction m)
  case (Cons p m)
  obtain j w where p: "p = (j, w)" by (cases p)
  show ?case
  proof (cases "j = k")
    case True
    with Cons.prems p have "k \<notin> fst ` set m" by (auto simp: um_ok_def)
    then show ?thesis using True p Cons.prems by (simp add: um_sum_def)
  next
    case False
    then show ?thesis using Cons p by (simp add: um_sum_def um_ok_def)
  qed
qed simp

lemma um_sum_le: "um_ok m \<Longrightarrow> um_find m k = Some v \<Longrightarrow> f v \<le> um_sum f m"
  by (simp add: um_sum_erase)

lemma um_erase_put: "um_erase k (um_put k v m) = um_erase k m"
  by (induction m) auto

lemma um_sum_put: "um_ok m \<Longrightarrow> um_sum f (um_put k v m) = f v + um_sum f (um_erase k m)"
  by (simp add: um_sum_erase [of _ k v] cxx_inv cxx_map um_erase_put)

lemma um_erase_absent: "um_find m k = None \<Longrightarrow> um_erase k m = m"
  by (simp add: delete_id map_of_eq_None_iff)

section \<open>The ordered map\<close>

text \<open>
  A \<^verbatim>\<open>std::map\<close> is an association list with strictly increasing keys; iteration is in list
  order. \<^verbatim>\<open>find\<close> is \<^const>\<open>map_of\<close> again.
\<close>

type_synonym ('k, 'v) smap = "('k \<times> 'v) list"

fun sm_put :: "'k::linorder \<Rightarrow> 'v \<Rightarrow> ('k, 'v) smap \<Rightarrow> ('k, 'v) smap" where
  "sm_put k v [] = [(k, v)]"
| "sm_put k v (p # m) =
     (if k = fst p then (k, v) # m else if k < fst p then (k, v) # p # m else p # sm_put k v m)"

definition sm_ok :: "('k::linorder, 'v) smap \<Rightarrow> bool" where
  "sm_ok m \<longleftrightarrow> sorted_wrt (<) (map fst m)"

lemma sm_find_put [cxx_map]: "map_of (sm_put k v m) = (map_of m)(k \<mapsto> v)"
  by (induction m) auto

lemma sm_put_keys: "set (map fst (sm_put k v m)) = insert k (set (map fst m))"
  by (induction m) auto

lemma sm_ok_put [cxx_inv]: "sm_ok m \<Longrightarrow> sm_ok (sm_put k v m)"
  unfolding sm_ok_def
proof (induction m)
  case (Cons p m)
  have keys: "fst ` set (sm_put k v m) = insert k (fst ` set m)"
    using sm_put_keys [of k v m] by simp
  show ?case
    using Cons by (auto simp: keys ball_Un dest: less_trans)
qed simp

lemma sm_ok_empty [cxx_inv]: "sm_ok []"
  by (simp add: sm_ok_def)

lemma sm_ok_erase [cxx_inv]: "sm_ok m \<Longrightarrow> sm_ok (AList.delete k m)"
  unfolding sm_ok_def AList.delete_eq by (induction m) auto

lemma sm_ok_distinct: "sm_ok m \<Longrightarrow> distinct (map fst m)"
  unfolding sm_ok_def by (simp add: strict_sorted_iff)

section \<open>Comparing a size with an int\<close>

text \<open>In \<^verbatim>\<open>m.size() == n\<close> the \<^verbatim>\<open>int\<close> operand is converted to the unsigned 64-bit \<^verbatim>\<open>size_t\<close>.\<close>

definition size_t :: "int \<Rightarrow> int" where
  "size_t n = n mod 2 ^ 64"

lemma size_t_pos: "0 \<le> n \<Longrightarrow> n < 2 ^ 31 \<Longrightarrow> size_t n = n"
  by (simp add: size_t_def)

text \<open>The remainder \<^verbatim>\<open>%\<close> of C++ takes the sign of the dividend.\<close>

definition cxx_rem :: "int \<Rightarrow> int \<Rightarrow> int" where
  "cxx_rem a b = (if 0 \<le> a then a mod \<bar>b\<bar> else - ((- a) mod \<bar>b\<bar>))"

section \<open>The dictionary interface\<close>

text \<open>
  What a client of either map relies on. A client logs and replays operations; the state it
  reaches depends on the operations only through the partial function they denote.
\<close>

datatype ('k, 'v) dict_op = Put 'k 'v | Del 'k

fun dict_apply :: "('k, 'v) dict_op \<Rightarrow> ('k \<rightharpoonup> 'v) \<Rightarrow> ('k \<rightharpoonup> 'v)" where
  "dict_apply (Put k v) f = f(k \<mapsto> v)"
| "dict_apply (Del k) f = f(k := None)"

locale writer =
  fixes put :: "'k \<Rightarrow> 'v \<Rightarrow> 'm \<Rightarrow> 'm"
    and find :: "'m \<Rightarrow> 'k \<Rightarrow> 'v option"
    and ok :: "'m \<Rightarrow> bool"
  assumes ok_put: "ok m \<Longrightarrow> ok (put k v m)"
    and find_put: "ok m \<Longrightarrow> find (put k v m) j = (if j = k then Some v else find m j)"
begin

lemma find_put_upd: "ok m \<Longrightarrow> find (put k v m) = (find m)(k \<mapsto> v)"
  by (auto simp: find_put fun_eq_iff)

lemma put_all:
  "ok m \<Longrightarrow> ok (fold (\<lambda>(k, v). put k v) kvs m) \<and>
     find (fold (\<lambda>(k, v). put k v) kvs m) = find m ++ map_of (rev kvs)"
proof (induction kvs arbitrary: m)
  case Nil
  then show ?case by simp
next
  case (Cons p kvs)
  obtain k v where p: "p = (k, v)" by (cases p)
  show ?case
    using Cons p by (auto simp: ok_put find_put_upd map_add_def fun_eq_iff split: option.splits)
qed

end

locale dictionary = writer put find ok
  for put :: "'k \<Rightarrow> 'v \<Rightarrow> 'm \<Rightarrow> 'm" and find :: "'m \<Rightarrow> 'k \<Rightarrow> 'v option" and ok :: "'m \<Rightarrow> bool" +
  fixes new :: "'m" and del :: "'k \<Rightarrow> 'm \<Rightarrow> 'm"
  assumes ok_new: "ok new" and find_new: "find new k = None"
    and ok_del: "ok m \<Longrightarrow> ok (del k m)"
    and find_del: "ok m \<Longrightarrow> find (del k m) j = (if j = k then None else find m j)"
begin

primrec run_op :: "('k, 'v) dict_op \<Rightarrow> 'm \<Rightarrow> 'm" where
  "run_op (Put k v) m = put k v m"
| "run_op (Del k) m = del k m"

lemma ok_run_op: "ok m \<Longrightarrow> ok (run_op p m)"
  by (cases p) (auto intro: ok_put ok_del)

lemma find_run_op: "ok m \<Longrightarrow> find (run_op p m) = dict_apply p (find m)"
  by (cases p) (auto simp: find_put find_del fun_eq_iff)

lemma replay: "ok m \<Longrightarrow> ok (fold run_op ops m) \<and> find (fold run_op ops m) = fold dict_apply ops (find m)"
  by (induction ops arbitrary: m) (auto simp: ok_run_op find_run_op)

end

interpretation um: dictionary um_put um_find um_ok "[]" um_erase
  by unfold_locales (auto simp: cxx_inv cxx_map)

interpretation sm: dictionary sm_put map_of sm_ok "[]" AList.delete
  by unfold_locales (auto simp: cxx_inv cxx_map delete_conv')

section \<open>Reachability and invariants\<close>

inductive reach :: "('s \<Rightarrow> bool) \<Rightarrow> ('s \<Rightarrow> 's \<Rightarrow> bool) \<Rightarrow> 's \<Rightarrow> bool" for init step where
  reach_init: "init s \<Longrightarrow> reach init step s"
| reach_step: "reach init step s \<Longrightarrow> step s t \<Longrightarrow> reach init step t"

locale inductive_invariant =
  fixes init :: "'s \<Rightarrow> bool" and step :: "'s \<Rightarrow> 's \<Rightarrow> bool" and holds :: "'s \<Rightarrow> bool"
  assumes holds_init: "init s \<Longrightarrow> holds s"
    and holds_step: "holds s \<Longrightarrow> step s t \<Longrightarrow> holds t"
begin

lemma always: "reach init step s \<Longrightarrow> holds s"
  by (induction rule: reach.induct) (auto intro: holds_init holds_step)

lemma always_from: "step\<^sup>*\<^sup>* s t \<Longrightarrow> holds s \<Longrightarrow> holds t"
  by (induction rule: rtranclp_induct) (auto intro: holds_step)

end

text \<open>Runs of a deterministic component: an operation list folded over the state.\<close>

lemma fold_invariant_state:
  assumes "P s" "\<And>x s. P s \<Longrightarrow> P (f x s)"
  shows "P (fold f xs s)"
  using assms by (induction xs arbitrary: s) auto

end
