(* ===== verification/Cxx_Streams.thy ===== *)
theory Cxx_Streams
  imports Prelude
begin

text \<open>
  Formatted stream input and output of the C++ standard library, as the write-ahead logs use it:
  \<^verbatim>\<open>operator<<\<close> of an \<^verbatim>\<open>int\<close>, and \<^verbatim>\<open>operator>>\<close> into an \<^verbatim>\<open>int\<close> and into a \<^verbatim>\<open>string\<close>. The lemmas are the
  round trips of printing and extracting.
\<close>

section \<open>Characters\<close>

definition is_ws :: "char \<Rightarrow> bool" where
  "is_ws c \<longleftrightarrow> c \<in> {CHR '' '', CHR 0x09, CHR 0x0A, CHR 0x0B, CHR 0x0C, CHR 0x0D}"

definition is_digit :: "char \<Rightarrow> bool" where
  "is_digit c \<longleftrightarrow> (of_char c :: nat) \<in> {48..57}"

text \<open>A word is what \<^verbatim>\<open>operator>>\<close> extracts in one piece: not empty and free of white space.\<close>

definition is_word :: "string \<Rightarrow> bool" where
  "is_word s \<longleftrightarrow> s \<noteq> [] \<and> (\<forall>c \<in> set s. \<not> is_ws c)"

lemma is_ws_space [simp]: "is_ws CHR '' ''"
  by (simp add: is_ws_def)

lemma is_ws_newline [simp]: "is_ws (CHR 0x0A)"
  by (simp add: is_ws_def)

lemma digit_not_ws: "is_digit c \<Longrightarrow> \<not> is_ws c"
  by (auto simp: is_digit_def is_ws_def)

section \<open>Decimal output\<close>

definition digit :: "nat \<Rightarrow> char" where
  "digit d = char_of (48 + d)"

fun digits :: "nat \<Rightarrow> string" where
  "digits n = (if n < 10 then [digit n] else digits (n div 10) @ [digit (n mod 10)])"

declare digits.simps [simp del]

definition show_int :: "int \<Rightarrow> string" where
  "show_int i = (if i < 0 then CHR ''-'' # digits (nat (- i)) else digits (nat i))"

definition digits_val :: "string \<Rightarrow> nat" where
  "digits_val s = foldl (\<lambda>a c. 10 * a + (of_char c - 48)) 0 s"

lemma of_char_digit: "d < 10 \<Longrightarrow> (of_char (digit d) :: nat) = 48 + d"
  by (simp add: digit_def)

lemma is_digit_digit: "d < 10 \<Longrightarrow> is_digit (digit d)"
  by (simp add: is_digit_def of_char_digit)

lemma digits_nonempty: "digits n \<noteq> []"
  by (subst digits.simps) simp

lemma digits_are_digits: "\<forall>c \<in> set (digits n). is_digit c"
proof (induction n rule: digits.induct)
  case (1 n)
  show ?case
    using 1 by (subst digits.simps) (auto simp: is_digit_digit)
qed

lemma digits_val_digits: "digits_val (digits n) = n"
proof (induction n rule: digits.induct)
  case (1 n)
  show ?case
  proof (cases "n < 10")
    case True
    then show ?thesis by (subst digits.simps) (simp add: digits_val_def of_char_digit)
  next
    case False
    then have "digits n = digits (n div 10) @ [digit (n mod 10)]"
      by (subst digits.simps) simp
    with False 1 show ?thesis by (simp add: digits_val_def of_char_digit)
  qed
qed

lemma is_word_digits: "is_word (digits n)"
  using digits_nonempty digits_are_digits digit_not_ws by (auto simp: is_word_def)

section \<open>Formatted input\<close>

text \<open>
  An input stream is the text still to be read, or \<^const>\<open>None\<close> once \<^verbatim>\<open>failbit\<close> is set: every later
  extraction fails too and leaves its target alone. A target is passed as its old value and
  returned as its new one. An extraction that finds only white space up to the end of the file
  fails before its target is touched.
\<close>

type_synonym istream = "string option"

definition read_word :: "istream \<Rightarrow> string \<Rightarrow> string \<times> istream" where
  "read_word is old =
     (case is of
        None \<Rightarrow> (old, None)
      | Some r \<Rightarrow>
          let r' = dropWhile is_ws r
          in if r' = [] then (old, None)
             else (takeWhile (\<lambda>c. \<not> is_ws c) r', Some (dropWhile (\<lambda>c. \<not> is_ws c) r')))"

definition INT_MAX :: int where
  "INT_MAX = 2147483647"

definition INT_MIN :: int where
  "INT_MIN = - 2147483648"

definition int_range :: "int \<Rightarrow> bool" where
  "int_range i \<longleftrightarrow> INT_MIN \<le> i \<and> i \<le> INT_MAX"

definition read_int :: "istream \<Rightarrow> int \<Rightarrow> int \<times> istream" where
  "read_int is old =
     (case is of
        None \<Rightarrow> (old, None)
      | Some r \<Rightarrow>
          let r' = dropWhile is_ws r
          in if r' = [] then (old, None)
             else let neg = (hd r' = CHR ''-'');
                      r'' = (if hd r' \<in> {CHR ''-'', CHR ''+''} then tl r' else r');
                      ds = takeWhile is_digit r'';
                      v = (if neg then - int (digits_val ds) else int (digits_val ds))
                  in if ds = [] then (0, None)
                     else if v < INT_MIN then (INT_MIN, None)
                     else if v > INT_MAX then (INT_MAX, None)
                     else (v, Some (dropWhile is_digit r'')))"

subsection \<open>Round trips\<close>

lemma takeWhile_all_append:
  "\<forall>c \<in> set w. P c \<Longrightarrow> r = [] \<or> \<not> P (hd r) \<Longrightarrow> takeWhile P (w @ r) = w \<and> dropWhile P (w @ r) = r"
  by (cases r) (auto simp: takeWhile_append dropWhile_append)

lemma dropWhile_ws_word:
  "\<forall>c \<in> set ws. is_ws c \<Longrightarrow> w \<noteq> [] \<Longrightarrow> \<not> is_ws (hd w) \<Longrightarrow> dropWhile is_ws (ws @ w @ r) = w @ r"
  by (cases w) (auto simp: dropWhile_append)

lemma read_word_word:
  assumes "\<forall>c \<in> set ws. is_ws c" "is_word w" "r = [] \<or> is_ws (hd r)"
  shows "read_word (Some (ws @ w @ r)) old = (w, Some r)"
proof -
  have "dropWhile is_ws (ws @ w @ r) = w @ r"
    using assms by (intro dropWhile_ws_word) (auto simp: is_word_def)
  moreover have "takeWhile (\<lambda>c. \<not> is_ws c) (w @ r) = w \<and> dropWhile (\<lambda>c. \<not> is_ws c) (w @ r) = r"
    using assms by (intro takeWhile_all_append) (auto simp: is_word_def)
  ultimately show ?thesis
    using assms by (auto simp: read_word_def Let_def is_word_def)
qed

lemma read_word_blank: "\<forall>c \<in> set ws. is_ws c \<Longrightarrow> read_word (Some ws) old = (old, None)"
  by (simp add: read_word_def Let_def)

lemma read_int_blank: "\<forall>c \<in> set ws. is_ws c \<Longrightarrow> read_int (Some ws) old = (old, None)"
  by (simp add: read_int_def Let_def)

lemma read_None [simp]: "read_word None old = (old, None)" "read_int None i = (i, None)"
  by (simp_all add: read_word_def read_int_def)

lemma read_int_digits:
  assumes "\<forall>c \<in> set ws. is_ws c" "int n \<le> INT_MAX" "r = [] \<or> \<not> is_digit (hd r)"
  shows "read_int (Some (ws @ digits n @ r)) old = (int n, Some r)"
proof -
  have hd: "is_digit (hd (digits n))" "digits n \<noteq> []"
    using digits_are_digits digits_nonempty hd_in_set by metis+
  have "dropWhile is_ws (ws @ digits n @ r) = digits n @ r"
    using assms(1) hd by (intro dropWhile_ws_word) (auto simp: digit_not_ws)
  moreover have "takeWhile is_digit (digits n @ r) = digits n \<and> dropWhile is_digit (digits n @ r) = r"
    using assms(3) digits_are_digits by (intro takeWhile_all_append) auto
  moreover have "hd (digits n @ r) \<notin> {CHR ''-'', CHR ''+''}"
    using hd by (auto simp: is_digit_def)
  ultimately show ?thesis
    using assms(2) hd by (auto simp: read_int_def Let_def digits_val_digits INT_MIN_def)
qed

lemma read_word_shrinks:
  assumes "read_word (Some r) old = (w, Some r')"
  shows "length r' < length r"
proof -
  have "dropWhile is_ws r \<noteq> []" and r': "r' = dropWhile (\<lambda>c. \<not> is_ws c) (dropWhile is_ws r)"
    using assms by (auto simp: read_word_def Let_def split: if_splits)
  then obtain c cs where c: "dropWhile is_ws r = c # cs" "\<not> is_ws c"
    by (metis hd_Cons_tl hd_dropWhile)
  then have "length r' \<le> length cs"
    using r' by (simp add: length_dropWhile_le)
  also have "length cs < length r"
    using c(1) length_dropWhile_le [of is_ws r] by simp
  finally show ?thesis .
qed

text \<open>A size for streams: every successful extraction makes it smaller.\<close>

fun istream_size :: "istream \<Rightarrow> nat" where
  "istream_size None = 0"
| "istream_size (Some r) = Suc (length r)"

lemma read_word_size_Some:
  assumes "read_word ifs old = (w, ifs')" "ifs' \<noteq> None"
  shows "istream_size ifs' < istream_size ifs"
proof -
  obtain r r' where "ifs = Some r" "ifs' = Some r'"
    using assms by (cases ifs; cases ifs') simp_all
  then show ?thesis using assms(1) read_word_shrinks [of r old w r'] by simp
qed

lemma read_word_size: "read_word ifs old = (w, ifs') \<Longrightarrow> istream_size ifs' \<le> istream_size ifs"
  using read_word_size_Some [of ifs old w ifs'] by (cases "ifs' = None") simp_all

lemma read_int_size: "read_int ifs old = (i, ifs') \<Longrightarrow> istream_size ifs' \<le> istream_size ifs"
proof (cases ifs)
  case (Some r)
  assume eq: "read_int ifs old = (i, ifs')"
  have "length (dropWhile is_digit (tl (dropWhile is_ws r))) \<le> length r"
    "length (dropWhile is_digit (dropWhile is_ws r)) \<le> length r"
    using length_dropWhile_le [of is_digit "tl (dropWhile is_ws r)"]
      length_dropWhile_le [of is_digit "dropWhile is_ws r"] length_dropWhile_le [of is_ws r]
    by simp_all
  with eq Some show ?thesis
    by (auto simp: read_int_def Let_def split: if_splits)
qed simp

end
