(* ===== verification/WAL_Recovery.thy ===== *)
theory WAL_Recovery
  imports Cxx_Streams
begin

text \<open>
  The write-ahead-logged key-value store of \<^verbatim>\<open>storage/WALrecovery.cpp\<close>: the text log (\<^verbatim>\<open>class WAL\<close>), its
  parser, and the store that appends to the log before it changes the memtable and replays the log
  on start-up (\<^verbatim>\<open>class KVstore\<close>). The state of the log file is its text, which survives a crash; the
  memtable does not.
\<close>

section \<open>The log\<close>

datatype RecordType = PUT | DELETE_OP

record LogRecord =
  lsn :: int
  record_type :: RecordType
  key :: string
  val :: string

record WAL =
  log_file :: string
  next_lsn :: int

definition wal_new :: "string \<Rightarrow> WAL" where
  "wal_new file = \<lparr>log_file = file, next_lsn = 1\<rparr>"

definition wal_append :: "RecordType \<Rightarrow> string \<Rightarrow> string \<Rightarrow> WAL \<Rightarrow> WAL" where
  "wal_append type k v w =
     w\<lparr>log_file := log_file w @ show_int (next_lsn w) @ '' '' @
          (if type = PUT then ''PUT'' else ''DELETE'') @ '' '' @ k @ '' '' @ v @ [CHR 0x0A],
       next_lsn := next_lsn w + 1\<rparr>"

text \<open>
  The loop of \<^verbatim>\<open>WAL::recover\<close>. \<open>value\<close> is the local variable declared before the loop: it keeps its
  old content over a \<^verbatim>\<open>DELETE\<close> record and when reading it fails.
\<close>

function wal_recover_loop :: "istream \<Rightarrow> string \<Rightarrow> int \<Rightarrow> LogRecord list \<times> int" where
  "wal_recover_loop ifs value nl =
     (let (l, ifs1) = read_int ifs 0;
          (op_type, ifs2) = read_word ifs1 [];
          (k, ifs3) = read_word ifs2 []
      in if ifs3 = None then ([], nl)
         else let (v, ifs4) = (if op_type = ''PUT'' then read_word ifs3 value else (value, ifs3));
                  rec = \<lparr>lsn = l, record_type = (if op_type = ''PUT'' then PUT else DELETE_OP),
                         key = k, val = v\<rparr>;
                  (logs, nl') = wal_recover_loop ifs4 v (max nl (l + 1))
              in (rec # logs, nl'))"
  by pat_completeness auto

termination wal_recover_loop
proof (relation "measure (\<lambda>(ifs, value, nl). istream_size ifs)", goal_cases)
  case (2 ifs v0 nl x l ifs1 y op_type ifs2 z k ifs3 u v ifs4 rec)
  have "istream_size ifs4 \<le> istream_size ifs3"
    using 2 read_word_size [of ifs3 v0 v ifs4] by (auto split: if_splits)
  also have "istream_size ifs3 < istream_size ifs2"
    using 2 read_word_size_Some [of ifs2 "[]" k ifs3] by auto
  also have "istream_size ifs2 \<le> istream_size ifs"
    using 2 read_word_size [of ifs1 "[]" op_type ifs2] read_int_size [of ifs 0 l ifs1] by auto
  finally show ?case by simp
qed simp

declare wal_recover_loop.simps [simp del]

definition wal_recover :: "WAL \<Rightarrow> LogRecord list \<times> WAL" where
  "wal_recover w =
     (let (logs, nl) = wal_recover_loop (Some (log_file w)) [] (next_lsn w)
      in (logs, w\<lparr>next_lsn := nl\<rparr>))"

section \<open>The store\<close>

record KVstore =
  memtable :: "(string, string) umap"
  wal :: WAL

definition kv_replay_rec :: "LogRecord \<Rightarrow> (string, string) umap \<Rightarrow> (string, string) umap" where
  "kv_replay_rec r m =
     (if record_type r = PUT then um_put (key r) (val r) m else um_erase (key r) m)"

definition kv_replay :: "KVstore \<Rightarrow> KVstore" where
  "kv_replay s =
     (let (logs, w) = wal_recover (wal s)
      in s\<lparr>memtable := fold kv_replay_rec logs (memtable s), wal := w\<rparr>)"

definition kv_open :: "string \<Rightarrow> KVstore" where
  "kv_open file = kv_replay \<lparr>memtable = [], wal = wal_new file\<rparr>"

definition kv_get :: "string \<Rightarrow> KVstore \<Rightarrow> string" where
  "kv_get k s = (case um_find (memtable s) k of None \<Rightarrow> ''NOT_FOUND!'' | Some v \<Rightarrow> v)"

definition kv_put :: "string \<Rightarrow> string \<Rightarrow> KVstore \<Rightarrow> KVstore" where
  "kv_put k v s =
     (let s1 = s\<lparr>wal := wal_append PUT k v (wal s)\<rparr>
      in s1\<lparr>memtable := um_put k v (memtable s1)\<rparr>)"

definition kv_remove :: "string \<Rightarrow> KVstore \<Rightarrow> KVstore" where
  "kv_remove k s =
     (let s1 = s\<lparr>wal := wal_append DELETE_OP k [] (wal s)\<rparr>
      in s1\<lparr>memtable := um_erase k (memtable s1)\<rparr>)"

text \<open>\<^verbatim>\<open>checkPoint\<close> is a stub: it prints and changes nothing.\<close>

definition kv_checkPoint :: "KVstore \<Rightarrow> KVstore" where
  "kv_checkPoint s = s"

text \<open>
  The histories of a store: complete operations, and crashes followed by a restart on the log file
  left behind. \<open>Crash_in\<close> is a crash inside an operation, after its append reached the file and before
  the memtable changed.
\<close>

datatype kv_event = Do "(string, string) dict_op" | Check | Crash | Crash_in "(string, string) dict_op"

fun kv_log_op :: "(string, string) dict_op \<Rightarrow> WAL \<Rightarrow> WAL" where
  "kv_log_op (Put k v) w = wal_append PUT k v w"
| "kv_log_op (Del k) w = wal_append DELETE_OP k [] w"

fun kv_run :: "kv_event \<Rightarrow> KVstore \<Rightarrow> KVstore" where
  "kv_run (Do (Put k v)) s = kv_put k v s"
| "kv_run (Do (Del k)) s = kv_remove k s"
| "kv_run Check s = kv_checkPoint s"
| "kv_run Crash s = kv_open (log_file (wal s))"
| "kv_run (Crash_in p) s = kv_open (log_file (kv_log_op p (wal s)))"

text \<open>What the client is promised: every operation that reached the log, and nothing else.\<close>

fun kv_spec :: "kv_event \<Rightarrow> (string \<rightharpoonup> string) \<Rightarrow> (string \<rightharpoonup> string)" where
  "kv_spec (Do p) f = dict_apply p f"
| "kv_spec (Crash_in p) f = dict_apply p f"
| "kv_spec Check f = f"
| "kv_spec Crash f = f"

text \<open>The text format can carry keys and values that are single words.\<close>

fun loggable :: "(string, string) dict_op \<Rightarrow> bool" where
  "loggable (Put k v) \<longleftrightarrow> is_word k \<and> is_word v"
| "loggable (Del k) \<longleftrightarrow> is_word k"

fun event_loggable :: "kv_event \<Rightarrow> bool" where
  "event_loggable (Do p) = loggable p"
| "event_loggable (Crash_in p) = loggable p"
| "event_loggable e = True"

section \<open>Recovering what was logged\<close>

fun op_text :: "int \<Rightarrow> (string, string) dict_op \<Rightarrow> string" where
  "op_text n (Put k v) = show_int n @ '' '' @ ''PUT'' @ '' '' @ k @ '' '' @ v @ [CHR 0x0A]"
| "op_text n (Del k) = show_int n @ '' '' @ ''DELETE'' @ '' '' @ k @ '' '' @ [CHR 0x0A]"

fun log_text :: "int \<Rightarrow> (string, string) dict_op list \<Rightarrow> string" where
  "log_text n [] = []"
| "log_text n (p # ps) = op_text n p @ log_text (n + 1) ps"

fun op_rec :: "int \<Rightarrow> string \<Rightarrow> (string, string) dict_op \<Rightarrow> LogRecord" where
  "op_rec n old (Put k v) = \<lparr>lsn = n, record_type = PUT, key = k, val = v\<rparr>"
| "op_rec n old (Del k) = \<lparr>lsn = n, record_type = DELETE_OP, key = k, val = old\<rparr>"

lemma log_text_snoc: "log_text n (ps @ [p]) = log_text n ps @ op_text (n + int (length ps)) p"
  by (induction ps arbitrary: n) (auto simp: algebra_simps)

lemma wal_append_text:
  "kv_log_op p w = w\<lparr>log_file := log_file w @ op_text (next_lsn w) p, next_lsn := next_lsn w + 1\<rparr>"
  by (cases p) (simp_all add: wal_append_def)

lemma replay_op_rec: "kv_replay_rec (op_rec n old p) m = um.run_op p m"
  by (cases p) (simp_all add: kv_replay_rec_def)

lemma read_int_show:
  assumes "0 \<le> n" "n \<le> INT_MAX" "\<forall>c \<in> set ws. is_ws c"
  shows "read_int (Some (ws @ show_int n @ '' '' @ r)) old = (n, Some ('' '' @ r))"
  using read_int_digits [of ws "nat n" "'' '' @ r" old] assms
  by (simp add: show_int_def is_digit_def)

lemma read_word_space:
  assumes "is_word w" "is_ws c"
  shows "read_word (Some ('' '' @ w @ c # r)) old = (w, Some (c # r))"
  using read_word_word [of "'' ''" w "c # r" old] assms by simp

lemma is_word_op_names: "is_word ''PUT''" "is_word ''DELETE''"
  by (simp_all add: is_word_def is_ws_def)

lemma recover_loop_op:
  assumes "loggable p" "0 \<le> n" "n \<le> INT_MAX" "\<forall>c \<in> set ws. is_ws c"
  shows "\<exists>ws' v'. (\<forall>c \<in> set ws'. is_ws c) \<and>
    wal_recover_loop (Some (ws @ op_text n p @ rest)) v nl =
      (let (logs, nl') = wal_recover_loop (Some (ws' @ rest)) v' (max nl (n + 1))
       in (op_rec n v p # logs, nl'))"
proof (cases p)
  case (Put k v')
  then have w: "is_word k" "is_word v'" using assms(1) by auto
  have "wal_recover_loop (Some (ws @ op_text n p @ rest)) v nl =
      (let (logs, nl') = wal_recover_loop (Some ([CHR 0x0A] @ rest)) v' (max nl (n + 1))
       in (op_rec n v p # logs, nl'))"
    using read_int_show [OF assms(2-4), of "''PUT'' @ '' '' @ k @ '' '' @ v' @ CHR 0x0A # rest"]
      read_word_space [OF is_word_op_names(1), of "CHR '' ''" "k @ '' '' @ v' @ CHR 0x0A # rest"]
      read_word_space [OF w(1), of "CHR '' ''" "v' @ CHR 0x0A # rest"]
      read_word_space [OF w(2), of "CHR 0x0A" rest]
    by (subst wal_recover_loop.simps) (simp add: Put)
  then show ?thesis by (intro exI [of _ "[CHR 0x0A]"] exI [of _ v']) simp
next
  case (Del k)
  then have w: "is_word k" using assms(1) by auto
  have "wal_recover_loop (Some (ws @ op_text n p @ rest)) v nl =
      (let (logs, nl') = wal_recover_loop (Some ('' '' @ [CHR 0x0A] @ rest)) v (max nl (n + 1))
       in (op_rec n v p # logs, nl'))"
    using read_int_show [OF assms(2-4), of "''DELETE'' @ '' '' @ k @ '' '' @ CHR 0x0A # rest"]
      read_word_space [OF is_word_op_names(2), of "CHR '' ''" "k @ '' '' @ CHR 0x0A # rest"]
      read_word_space [OF w, of "CHR '' ''" "CHR 0x0A # rest"]
    by (subst wal_recover_loop.simps) (simp add: Del)
  then show ?thesis by (intro exI [of _ "'' '' @ [CHR 0x0A]"] exI [of _ v]) simp
qed

lemma recover_loop_blank:
  "\<forall>c \<in> set ws. is_ws c \<Longrightarrow> wal_recover_loop (Some ws) v nl = ([], nl)"
  by (subst wal_recover_loop.simps) (simp add: read_int_blank)

lemma recover_log_prefix:
  assumes "\<forall>p \<in> set ops. loggable p" "0 \<le> n" "n + int (length ops) \<le> INT_MAX" "\<forall>c \<in> set ws. is_ws c"
  shows "\<exists>recs ws' v'. (\<forall>c \<in> set ws'. is_ws c) \<and>
    wal_recover_loop (Some (ws @ log_text n ops @ rest)) v nl =
      (let (logs, nl') = wal_recover_loop (Some (ws' @ rest)) v' (if ops = [] then nl else max nl (n + int (length ops)))
       in (recs @ logs, nl')) \<and>
    (\<forall>m. fold kv_replay_rec recs m = fold um.run_op ops m)"
  using assms
proof (induction ops arbitrary: n ws v nl)
  case Nil
  then show ?case by (intro exI [of _ "[]"] exI [of _ ws] exI [of _ v]) simp
next
  case (Cons p ops)
  obtain ws1 v1 where ws1: "\<forall>c \<in> set ws1. is_ws c"
    and eq: "wal_recover_loop (Some (ws @ op_text n p @ log_text (n + 1) ops @ rest)) v nl =
      (let (logs, nl') = wal_recover_loop (Some (ws1 @ log_text (n + 1) ops @ rest)) v1 (max nl (n + 1))
       in (op_rec n v p # logs, nl'))"
    using recover_loop_op [of p n ws "log_text (n + 1) ops @ rest" v nl] Cons.prems by auto
  have nl: "(if ops = [] then max nl (n + 1) else max (max nl (n + 1)) (n + 1 + int (length ops))) = max nl (n + int (length (p # ops)))"
    by auto
  obtain recs ws' v' where r: "\<forall>c \<in> set ws'. is_ws c"
    "wal_recover_loop (Some (ws1 @ log_text (n + 1) ops @ rest)) v1 (max nl (n + 1)) =
      (let (logs, nl') = wal_recover_loop (Some (ws' @ rest)) v' (max nl (n + int (length (p # ops)))) in (recs @ logs, nl'))"
    "\<forall>m. fold kv_replay_rec recs m = fold um.run_op ops m"
    using Cons.IH [of "n + 1" ws1 v1 "max nl (n + 1)"] Cons.prems ws1 unfolding nl by auto
  show ?case
    by (intro exI [of _ "op_rec n v p # recs"] exI [of _ ws'] exI [of _ v'])
      (use r eq in \<open>auto simp: replay_op_rec split: prod.splits\<close>)
qed

lemma recover_log_text:
  assumes "\<forall>p \<in> set ops. loggable p" "0 \<le> n" "n + int (length ops) \<le> INT_MAX"
  shows "\<exists>recs. wal_recover_loop (Some (log_text n ops)) v nl =
      (recs, if ops = [] then nl else max nl (n + int (length ops))) \<and>
    (\<forall>m. fold kv_replay_rec recs m = fold um.run_op ops m)"
proof -
  obtain recs ws' v' where "\<forall>c \<in> set ws'. is_ws c" "wal_recover_loop (Some (log_text n ops)) v nl =
      (let (logs, nl') = wal_recover_loop (Some ws') v' (if ops = [] then nl else max nl (n + int (length ops)))
       in (recs @ logs, nl'))"
    "\<forall>m. fold kv_replay_rec recs m = fold um.run_op ops m"
    using recover_log_prefix [OF assms, of "[]" "[]" v nl] by auto
  then show ?thesis by (intro exI [of _ recs]) (simp add: recover_loop_blank)
qed

text \<open>
  An empty value leaves two separators and a newline behind the key. The extraction of the value
  skips them and takes the LSN of the next record; the next LSN is then looked for at the operation's
  name, which is no number, so the loop ends.
\<close>

lemma recover_empty_value:
  assumes "is_word a" "0 \<le> n" "n \<le> INT_MAX" "\<forall>c \<in> set ws. is_ws c"
  shows "wal_recover_loop (Some (ws @ op_text n (Put a []) @ op_text (n + 1) p @ rest)) v nl =
    ([op_rec n v (Put a (show_int (n + 1)))], max nl (n + 1))"
proof -
  obtain c r where p: "op_text (n + 1) p = show_int (n + 1) @ '' '' @ c # r" "c \<in> {CHR ''P'', CHR ''D''}"
    by (cases p) auto
  let ?rest = "c # r @ rest"
  have "is_word (show_int (n + 1))" using assms(2) by (simp add: show_int_def is_word_digits)
  then have 1: "read_word (Some ('' '' @ CHR 0x0A # show_int (n + 1) @ '' '' @ ?rest)) v = (show_int (n + 1), Some ('' '' @ ?rest))"
    using read_word_word [of "'' '' @ [CHR 0x0A]" "show_int (n + 1)" "'' '' @ ?rest" v] by simp
  have "\<not> is_ws c" "\<not> is_digit c" "c \<noteq> CHR ''-''" "c \<noteq> CHR ''+''"
    using p(2) by (auto simp: is_ws_def is_digit_def)
  then have "read_int (Some ('' '' @ ?rest)) 0 = (0, None)" by (simp add: read_int_def)
  then have 2: "wal_recover_loop (Some ('' '' @ ?rest)) w m = ([], m)" for w m
    by (subst wal_recover_loop.simps) (simp only: Let_def prod.case read_None if_True simp_thms)
  show ?thesis
    using read_int_show [OF assms(2-4), of "''PUT'' @ '' '' @ a @ '' '' @ CHR 0x0A # show_int (n + 1) @ '' '' @ ?rest"]
      read_word_space [OF is_word_op_names(1), of "CHR '' ''" "a @ '' '' @ CHR 0x0A # show_int (n + 1) @ '' '' @ ?rest"]
      read_word_space [OF assms(1), of "CHR '' ''" "CHR 0x0A # show_int (n + 1) @ '' '' @ ?rest"] 1 2
    by (subst wal_recover_loop.simps) (simp add: p(1))
qed

text \<open>The state between operations: the log holds the history, the memtable is its replay.\<close>

definition kv_inv :: "(string, string) dict_op list \<Rightarrow> KVstore \<Rightarrow> bool" where
  "kv_inv hist s \<longleftrightarrow> (\<forall>p \<in> set hist. loggable p) \<and> log_file (wal s) = log_text 1 hist \<and>
     next_lsn (wal s) = 1 + int (length hist) \<and> um_ok (memtable s) \<and>
     um_find (memtable s) = fold dict_apply hist Map.empty"

lemma kv_open_log:
  assumes "\<forall>p \<in> set hist. loggable p" "int (length hist) < INT_MAX"
  shows "kv_inv hist (kv_open (log_text 1 hist))"
proof -
  obtain recs where recs: "wal_recover_loop (Some (log_text 1 hist)) [] 1 =
      (recs, if hist = [] then 1 else max 1 (1 + int (length hist)))"
    "\<forall>m. fold kv_replay_rec recs m = fold um.run_op hist m"
    using recover_log_text [of hist 1 "[]" 1] assms by auto
  have "um_ok (fold um.run_op hist []) \<and> um_find (fold um.run_op hist []) = fold dict_apply hist Map.empty"
    using um.replay [of "[]" hist] by (simp add: um_ok_empty)
  then show ?thesis
    using recs assms(1)
    by (auto simp: kv_inv_def kv_open_def kv_replay_def wal_recover_def wal_new_def)
qed

lemma kv_log_op_text:
  "kv_inv hist s \<Longrightarrow> log_file (kv_log_op p (wal s)) = log_text 1 (hist @ [p])"
  by (simp add: kv_inv_def wal_append_text log_text_snoc)

lemma kv_run_Do: "kv_run (Do p) s = s\<lparr>wal := kv_log_op p (wal s), memtable := um.run_op p (memtable s)\<rparr>"
  by (cases p) (simp_all add: kv_put_def kv_remove_def)

fun event_hist :: "kv_event \<Rightarrow> (string, string) dict_op list" where
  "event_hist (Do p) = [p]"
| "event_hist (Crash_in p) = [p]"
| "event_hist e = []"

lemma kv_run_inv:
  assumes "kv_inv hist s" "event_loggable e" "int (length hist) + 1 < INT_MAX"
  shows "kv_inv (hist @ event_hist e) (kv_run e s)"
proof (cases e)
  case (Do p)
  have "um_ok (um.run_op p (memtable s))"
    "um_find (um.run_op p (memtable s)) = dict_apply p (um_find (memtable s))"
    using assms(1) by (auto simp: kv_inv_def um.ok_run_op um.find_run_op)
  then show ?thesis
    using assms Do by (auto simp: kv_run_Do kv_inv_def wal_append_text log_text_snoc simp del: kv_run.simps)
next
  case Check
  then show ?thesis using assms by (simp add: kv_checkPoint_def)
next
  case Crash
  then show ?thesis using assms kv_open_log [of hist] by (auto simp: kv_inv_def)
next
  case (Crash_in p)
  then show ?thesis
    using assms kv_open_log [of "hist @ [p]"] kv_log_op_text [OF assms(1)] by (auto simp: kv_inv_def)
qed

lemma kv_inv_new: "kv_inv [] (kv_open [])"
  using kv_open_log [of "[]"] by (simp add: INT_MAX_def)

lemma event_hist_length: "length (concat (map event_hist evs)) \<le> length evs"
proof (induction evs)
  case (Cons e evs)
  then show ?case by (cases e) auto
qed simp

lemma kv_history:
  assumes "\<forall>e \<in> set evs. event_loggable e" "int (length evs) < INT_MAX"
  shows "kv_inv (concat (map event_hist evs)) (fold kv_run evs (kv_open []))"
  using assms
proof (induction evs rule: rev_induct)
  case Nil
  then show ?case by (simp add: kv_inv_new)
next
  case (snoc e evs)
  show ?case
    using snoc event_hist_length [of evs] kv_run_inv [of "concat (map event_hist evs)" "fold kv_run evs (kv_open [])" e] by auto
qed

lemma kv_spec_hist: "fold kv_spec evs f = fold dict_apply (concat (map event_hist evs)) f"
proof (induction evs arbitrary: f)
  case (Cons e evs)
  then show ?case by (cases e) auto
qed simp

section \<open>Properties\<close>

text \<open>
  C3. Durability. Take any history of puts, removes, checkpoints, crashes between operations and
  crashes inside an operation after its log append, each crash followed by a restart from the log
  file, with single-word keys and values and fewer than \<^const>\<open>INT_MAX\<close> events. Afterwards the memtable holds exactly the operations that
  reached the log, in order, and the next LSN is one more than their number, so no LSN is reused.
\<close>

theorem kv_durable:
  assumes "\<forall>e \<in> set evs. event_loggable e" and "int (length evs) < INT_MAX"
  shows "um_find (memtable (fold kv_run evs (kv_open []))) = fold kv_spec evs Map.empty \<and>
    next_lsn (wal (fold kv_run evs (kv_open []))) = 1 + int (length (concat (map event_hist evs)))"
  using kv_history [OF assms] by (simp add: kv_inv_def kv_spec_hist)

theorem kv_durable_witness:
  "um_find (memtable (fold kv_run [Do (Put ''apple'' ''red''), Crash_in (Put ''cat'' ''animal''),
       Do (Del ''apple''), Crash] (kv_open []))) ''cat'' = Some ''animal''"
proof -
  let ?evs = "[Do (Put ''apple'' ''red''), Crash_in (Put ''cat'' ''animal''), Do (Del ''apple''), Crash]"
  have "\<forall>e \<in> set ?evs. event_loggable e" by (simp add: is_word_def is_ws_def)
  moreover have "int (length ?evs) < INT_MAX" by (simp add: INT_MAX_def)
  ultimately have "um_find (memtable (fold kv_run ?evs (kv_open []))) = fold kv_spec ?evs Map.empty"
    by (blast dest: kv_durable)
  then show ?thesis by simp
qed

lemma kv_run_ops:
  "wal (fold kv_run (map Do ops) s) = (wal s)\<lparr>log_file := log_file (wal s) @ log_text (next_lsn (wal s)) ops,
     next_lsn := next_lsn (wal s) + int (length ops)\<rparr>"
  "memtable (fold kv_run (map Do ops) s) = fold um.run_op ops (memtable s)"
  by (induction ops arbitrary: s) (simp_all add: kv_run_Do wal_append_text del: kv_run.simps)

lemma kv_open_empty_value:
  assumes "\<forall>p \<in> set hist. loggable p" "int (length hist) + 1 < INT_MAX" "is_word a" "n = 1 + int (length hist)"
  shows "um_find (memtable (kv_open (log_text 1 hist @ op_text n (Put a []) @ op_text (n + 1) p @ rest))) =
      (fold dict_apply hist Map.empty)(a \<mapsto> show_int (n + 1)) \<and>
    next_lsn (wal (kv_open (log_text 1 hist @ op_text n (Put a []) @ op_text (n + 1) p @ rest))) = n + 1"
proof -
  let ?rest = "op_text n (Put a []) @ op_text (n + 1) p @ rest"
  obtain recs ws' v' where r: "\<forall>c \<in> set ws'. is_ws c"
    "wal_recover_loop (Some (log_text 1 hist @ ?rest)) [] 1 =
      (let (logs, nl') = wal_recover_loop (Some (ws' @ ?rest)) v' (if hist = [] then 1 else max 1 (1 + int (length hist)))
       in (recs @ logs, nl'))"
    "\<forall>m. fold kv_replay_rec recs m = fold um.run_op hist m"
    using recover_log_prefix [of hist 1 "[]" ?rest "[]" 1] assms by auto
  have "wal_recover_loop (Some (ws' @ ?rest)) v' m = ([op_rec n v' (Put a (show_int (n + 1)))], max m (n + 1))" for m
    using assms r(1) by (intro recover_empty_value) auto
  then have "wal_recover_loop (Some (log_text 1 hist @ ?rest)) [] 1 =
      (recs @ [op_rec n v' (Put a (show_int (n + 1)))], n + 1)"
    using r(2) assms(4) by auto
  then show ?thesis
    using r(3) um.replay [of "[]" hist]
    by (simp add: kv_open_def kv_replay_def wal_recover_def wal_new_def kv_replay_rec_def um_ok_empty um_find_put fun_eq_iff)
qed

text \<open>
  C40. The text format cannot carry an empty value. After any history with single-word keys and values,
  of fewer than \<^const>\<open>INT_MAX\<close> - 1 events, let the client put the empty value under a single-word key \<open>a\<close> and then run any operations, at least one.
  The running store does all of it. But the store restarted from the log holds the next record's LSN,
  in digits, as the value of \<open>a\<close>, has lost every operation after that put, and gives the LSN of a lost
  record out again.
\<close>

theorem kv_empty_value_corrupts:
  assumes "\<forall>e \<in> set evs. event_loggable e" "int (length evs) + 1 < INT_MAX" "is_word a" "ops \<noteq> []"
  shows "let before = fold kv_run evs (kv_open []); running = fold kv_run (map Do ops) (kv_put a [] before);
      restarted = kv_open (log_file (wal running)); n = next_lsn (wal before)
    in um_find (memtable running) = fold dict_apply ops ((um_find (memtable before))(a \<mapsto> [])) \<and>
      next_lsn (wal running) = n + 1 + int (length ops) \<and>
      um_find (memtable restarted) = (um_find (memtable before))(a \<mapsto> show_int (n + 1)) \<and>
      next_lsn (wal restarted) = n + 1"
proof -
  let ?hist = "concat (map event_hist evs)" and ?before = "fold kv_run evs (kv_open [])"
  have inv: "kv_inv ?hist ?before" using kv_history [OF assms(1)] assms(2) by simp
  have put: "kv_put a [] ?before = kv_run (Do (Put a [])) ?before" by simp
  have len: "int (length ?hist) + 1 < INT_MAX" using event_hist_length [of evs] assms(2) by linarith
  obtain p ps where ops: "ops = p # ps" using assms(4) by (cases ops) auto
  have ok: "um_ok (memtable ?before)" using inv by (simp add: kv_inv_def)
  have "um_find (memtable (fold kv_run (map Do ops) (kv_put a [] ?before))) =
      fold dict_apply ops ((um_find (memtable ?before))(a \<mapsto> []))"
    using um.replay [of "um.run_op (Put a []) (memtable ?before)" ops] um.ok_run_op [OF ok, of "Put a []"]
      um.find_run_op [OF ok, of "Put a []"]
    unfolding put kv_run_ops kv_run_Do by simp
  moreover have "log_file (wal (fold kv_run (map Do ops) (kv_put a [] ?before))) =
      log_text 1 ?hist @ op_text (next_lsn (wal ?before)) (Put a []) @ op_text (next_lsn (wal ?before) + 1) p @
      log_text (next_lsn (wal ?before) + 2) ps"
    using inv unfolding put kv_run_ops kv_run_Do by (simp add: wal_append_text ops kv_inv_def)
  moreover have "next_lsn (wal (fold kv_run (map Do ops) (kv_put a [] ?before))) = next_lsn (wal ?before) + 1 + int (length ops)"
    unfolding put kv_run_ops kv_run_Do by (simp add: wal_append_text)
  moreover note kv_open_empty_value [OF _ len assms(3), of "next_lsn (wal ?before)" p "log_text (next_lsn (wal ?before) + 2) ps"]
  ultimately show ?thesis using inv by (simp add: Let_def kv_inv_def)
qed

theorem kv_empty_value_corrupts_witness:
  "um_find (memtable (kv_open (log_file (wal (kv_put ''b'' ''x'' (kv_put ''a'' [] (kv_open []))))))) = [''a'' \<mapsto> ''2'']"
proof -
  have "is_word ''a''" by (simp add: is_word_def is_ws_def)
  moreover have "int (length ([] :: kv_event list)) + 1 < INT_MAX" by (simp add: INT_MAX_def)
  moreover have "next_lsn (wal (kv_open [])) = 1" "um_find (memtable (kv_open [])) = Map.empty"
    using kv_inv_new by (auto simp: kv_inv_def)
  moreover have "show_int 2 = ''2''" by code_simp
  ultimately show ?thesis
    using kv_empty_value_corrupts [of "[]" "''a''" "[Put ''b'' ''x'']"] by (simp add: Let_def)
qed

end
