(* ===== verification/LSM_Engine.thy ===== *)
theory LSM_Engine
  imports Cxx_Streams
begin

text \<open>
  The log-structured storage engines: \<^verbatim>\<open>multi-stage-pipeline/LSM_WritePath_StorageEngine.cpp\<close> in full
  (write-ahead log, memtable, immutable SSTables searched newest first, recovery with flushes),
  \<^verbatim>\<open>storage/KVstore.cpp\<close>, whose recovery does not flush, and the engine
  without a log of \<^verbatim>\<open>caching/MemTable_SSTable_Lookup.cpp\<close>. All three are shown to refine one
  dictionary; the write locks make each operation one step.
\<close>

section \<open>The write-ahead log\<close>

definition lsm_wal_append :: "string \<Rightarrow> string \<Rightarrow> string \<Rightarrow> string" where
  "lsm_wal_append k v file = file @ k @ '' '' @ v @ [CHR 0x0A]"

text \<open>The loop \<^verbatim>\<open>while (ifs >> key >> value)\<close>.\<close>

function lsm_recover_loop :: "istream \<Rightarrow> (string \<times> string) list" where
  "lsm_recover_loop ifs =
     (let (k, ifs1) = read_word ifs [];
          (v, ifs2) = read_word ifs1 []
      in if ifs2 = None then [] else (k, v) # lsm_recover_loop ifs2)"
  by pat_completeness auto
termination
proof (relation "measure istream_size", goal_cases)
  case (2 ifs x k ifs1 y v ifs2)
  have "istream_size ifs2 < istream_size ifs1"
    using 2 read_word_size_Some [of ifs1 "[]" v ifs2] by auto
  also have "\<dots> \<le> istream_size ifs"
    using 2 read_word_size [of ifs "[]" k ifs1] by auto
  finally show ?case by simp
qed simp

declare lsm_recover_loop.simps [simp del]

definition lsm_wal_recover :: "string \<Rightarrow> (string \<times> string) list" where
  "lsm_wal_recover file = lsm_recover_loop (Some file)"

section \<open>SSTables\<close>

definition NOT_FOUND :: string where
  "NOT_FOUND = ''NOT FOUND!''"

type_synonym SSTable = "(string \<times> string) list"

definition sstable_new :: "(string, string) smap \<Rightarrow> SSTable" where
  "sstable_new mt = foldl (\<lambda>es e. es @ [e]) [] mt"

function sstable_search :: "SSTable \<Rightarrow> string \<Rightarrow> int \<Rightarrow> int \<Rightarrow> string" where
  "sstable_search es k left right =
     (if left \<le> right
      then let mid = left + (right - left) div 2
           in if fst (es ! nat mid) = k then snd (es ! nat mid)
              else if fst (es ! nat mid) < k then sstable_search es k (mid + 1) right
              else sstable_search es k left (mid - 1)
      else NOT_FOUND)"
  by pat_completeness auto
termination
  by (relation "measure (\<lambda>(es, k, left, right). nat (right - left + 1))") (auto simp: Let_def)

declare sstable_search.simps [simp del]

definition sstable_searchKey :: "SSTable \<Rightarrow> string \<Rightarrow> string" where
  "sstable_searchKey es k = sstable_search es k 0 (int (length es) - 1)"

section \<open>The engine\<close>

record lsm =
  memTable :: "(string, string) smap"
  sstables :: "SSTable list"
  lsm_file :: string

definition memTable_Flush_Threshold :: nat where
  "memTable_Flush_Threshold = 3"

definition lsm_flush :: "lsm \<Rightarrow> lsm" where
  "lsm_flush s = s\<lparr>sstables := sstables s @ [sstable_new (memTable s)], memTable := []\<rparr>"

definition lsm_load :: "string \<Rightarrow> string \<Rightarrow> lsm \<Rightarrow> lsm" where
  "lsm_load k v s =
     (let s1 = s\<lparr>memTable := sm_put k v (memTable s)\<rparr>
      in if length (memTable s1) \<ge> memTable_Flush_Threshold then lsm_flush s1 else s1)"

definition lsm_insertKeyValue :: "string \<Rightarrow> string \<Rightarrow> lsm \<Rightarrow> lsm" where
  "lsm_insertKeyValue k v s =
     (let s0 = s\<lparr>lsm_file := lsm_wal_append k v (lsm_file s)\<rparr>;
          s1 = s0\<lparr>memTable := sm_put k v (memTable s0)\<rparr>
      in if length (memTable s1) \<ge> memTable_Flush_Threshold then lsm_flush s1 else s1)"

definition lsm_recover :: "lsm \<Rightarrow> lsm" where
  "lsm_recover s = fold (\<lambda>(k, v). lsm_load k v) (lsm_wal_recover (lsm_file s)) s"

definition lsm_open :: "string \<Rightarrow> lsm" where
  "lsm_open file = lsm_recover \<lparr>memTable = [], sstables = [], lsm_file = file\<rparr>"

fun lsm_search_tables :: "SSTable list \<Rightarrow> string \<Rightarrow> string" where
  "lsm_search_tables [] k = NOT_FOUND"
| "lsm_search_tables (t # ts) k =
     (let v = sstable_searchKey t k in if v \<noteq> NOT_FOUND then v else lsm_search_tables ts k)"

definition lsm_readKey :: "string \<Rightarrow> lsm \<Rightarrow> string" where
  "lsm_readKey k s =
     (case map_of (memTable s) k of
        Some v \<Rightarrow> v
      | None \<Rightarrow> lsm_search_tables (rev (sstables s)) k)"

text \<open>\<^verbatim>\<open>storage/KVstore.cpp\<close> recovers without flushing.\<close>

definition kvs_recover :: "lsm \<Rightarrow> lsm" where
  "kvs_recover s =
     fold (\<lambda>(k, v) s. s\<lparr>memTable := sm_put k v (memTable s)\<rparr>) (lsm_wal_recover (lsm_file s)) s"

definition kvs_open :: "string \<Rightarrow> lsm" where
  "kvs_open file = kvs_recover \<lparr>memTable = [], sstables = [], lsm_file = file\<rparr>"

text \<open>Its other members have the text of the engine above.\<close>

definition kvs_append :: "string \<Rightarrow> string \<Rightarrow> string \<Rightarrow> string" where
  "kvs_append = lsm_wal_append"

definition kvs_searchKey :: "SSTable \<Rightarrow> string \<Rightarrow> string" where
  "kvs_searchKey = sstable_searchKey"

definition kvs_flush_memTable_toDisk :: "lsm \<Rightarrow> lsm" where
  "kvs_flush_memTable_toDisk = lsm_flush"

definition kvs_insertKeyValue :: "string \<Rightarrow> string \<Rightarrow> lsm \<Rightarrow> lsm" where
  "kvs_insertKeyValue = lsm_insertKeyValue"

definition kvs_readKey :: "string \<Rightarrow> lsm \<Rightarrow> string" where
  "kvs_readKey = lsm_readKey"

text \<open>
  \<^verbatim>\<open>caching/MemTable_SSTable_Lookup.cpp\<close>: no log, and the threshold is an \<^verbatim>\<open>int\<close> field compared with
  an unsigned size, so that a negative one stands for a huge number.
\<close>

definition mst_threshold :: "int \<Rightarrow> int" where
  "mst_threshold t = (if t < 0 then t + 2 ^ 64 else t)"

definition mst_insertKeyValue :: "int \<Rightarrow> string \<Rightarrow> string \<Rightarrow> lsm \<Rightarrow> lsm" where
  "mst_insertKeyValue t k v s =
     (let s1 = s\<lparr>memTable := sm_put k v (memTable s)\<rparr>
      in if int (length (memTable s1)) \<ge> mst_threshold t then lsm_flush s1 else s1)"

definition mst_new :: lsm where
  "mst_new = \<lparr>memTable = [], sstables = [], lsm_file = []\<rparr>"

section \<open>Binary search\<close>

lemma sstable_new_copy [simp]: "sstable_new mt = mt"
proof -
  have "foldl (\<lambda>es e. es @ [e]) acc xs = acc @ xs" for acc xs :: SSTable
    by (induction xs arbitrary: acc) auto
  then show ?thesis by (simp add: sstable_new_def)
qed

lemma sm_ok_nth_less:
  "sm_ok es \<Longrightarrow> i < j \<Longrightarrow> j < length es \<Longrightarrow> fst (es ! i) < fst (es ! j)"
  unfolding sm_ok_def by (simp add: sorted_wrt_iff_nth_less)

lemma sstable_search_hit:
  assumes "sm_ok es" "i < length es" "fst (es ! i) = k" "0 \<le> left" "left \<le> int i" "int i \<le> right" "right < int (length es)"
  shows "sstable_search es k left right = snd (es ! i)"
  using assms
proof (induction es k left right rule: sstable_search.induct)
  case (1 es k left right)
  let ?mid = "left + (right - left) div 2"
  have mid: "left \<le> ?mid" "?mid \<le> right" using "1.prems" by auto
  consider "nat ?mid = i" | "nat ?mid < i" | "i < nat ?mid" by linarith
  then show ?case
  proof cases
    case 1
    then show ?thesis using "1.prems" by (subst sstable_search.simps) (simp add: Let_def)
  next
    case 2
    then have "fst (es ! nat ?mid) < k" using "1.prems" mid sm_ok_nth_less [of es "nat ?mid" i] by auto
    moreover have "?mid + 1 \<le> int i" using 2 by linarith
    ultimately show ?thesis
      using "1.IH"(1) [of ?mid] "1.prems" mid by (subst sstable_search.simps) (auto simp: Let_def)
  next
    case 3
    then have "k < fst (es ! nat ?mid)" using "1.prems" mid sm_ok_nth_less [of es i "nat ?mid"] by auto
    moreover have "int i \<le> ?mid - 1" using 3 by linarith
    ultimately show ?thesis
      using "1.IH"(2) [of ?mid] "1.prems" mid by (subst sstable_search.simps) (auto simp: Let_def)
  qed
qed

lemma sstable_search_miss:
  assumes "k \<notin> set (map fst es)" "0 \<le> left" "right < int (length es)"
  shows "sstable_search es k left right = NOT_FOUND"
  using assms
proof (induction es k left right rule: sstable_search.induct)
  case (1 es k left right)
  let ?mid = "left + (right - left) div 2"
  show ?case
  proof (cases "left \<le> right")
    case True
    then have mid: "left \<le> ?mid" "?mid \<le> right" by auto
    then have "nat ?mid < length es" using "1.prems" by linarith
    then have "fst (es ! nat ?mid) \<noteq> k"
      using "1.prems"(1) by auto
    then show ?thesis
      using "1.IH" [of ?mid] "1.prems" True mid by (subst sstable_search.simps) (auto simp: Let_def)
  next
    case False
    then show ?thesis by (subst sstable_search.simps) simp
  qed
qed

lemma sstable_searchKey_map_of:
  assumes "sm_ok es"
  shows "sstable_searchKey es k = (case map_of es k of None \<Rightarrow> NOT_FOUND | Some v \<Rightarrow> v)"
proof (cases "map_of es k")
  case None
  then have "k \<notin> set (map fst es)" by (simp add: map_of_eq_None_iff)
  then show ?thesis
    using sstable_search_miss [of k es 0 "int (length es) - 1"] None by (simp add: sstable_searchKey_def)
next
  case (Some v)
  then obtain i where "i < length es" "es ! i = (k, v)"
    by (metis in_set_conv_nth map_of_SomeD)
  then show ?thesis
    using sstable_search_hit [OF assms, of i k 0 "int (length es) - 1"] Some
    by (simp add: sstable_searchKey_def)
qed

section \<open>The view of the engine as one dictionary\<close>

definition lsm_view :: "lsm \<Rightarrow> (string \<rightharpoonup> string)" where
  "lsm_view s = foldl (++) Map.empty (map map_of (sstables s)) ++ map_of (memTable s)"

definition lsm_ok :: "lsm \<Rightarrow> bool" where
  "lsm_ok s \<longleftrightarrow> sm_ok (memTable s) \<and> (\<forall>t \<in> set (sstables s). sm_ok t)"

text \<open>No table holds the text that the search uses to say that a key is absent.\<close>

definition lsm_clean :: "lsm \<Rightarrow> bool" where
  "lsm_clean s \<longleftrightarrow> (\<forall>t \<in> set (memTable s # sstables s). NOT_FOUND \<notin> ran (map_of t))"

lemmas lsm_defs = lsm_view_def lsm_ok_def lsm_clean_def lsm_flush_def lsm_load_def
  lsm_insertKeyValue_def mst_insertKeyValue_def

lemma lsm_flush_view: "lsm_view (lsm_flush s) = lsm_view s"
  by (simp add: lsm_defs)

lemma lsm_flush_ok: "lsm_ok s \<Longrightarrow> lsm_ok (lsm_flush s)"
  by (auto simp: lsm_defs cxx_inv)

lemma lsm_flush_clean: "lsm_clean s \<Longrightarrow> lsm_clean (lsm_flush s)"
  by (auto simp: lsm_defs)

definition lsm_mem_put :: "string \<Rightarrow> string \<Rightarrow> lsm \<Rightarrow> lsm" where
  "lsm_mem_put k v s = s\<lparr>memTable := sm_put k v (memTable s)\<rparr>"

lemma ran_sm_put: "ran (map_of (sm_put k v m)) \<subseteq> insert v (ran (map_of m))"
  by (auto simp: cxx_map ran_def split: if_splits)

lemma lsm_mem_put_props:
  "lsm_view (lsm_mem_put k v s) = (lsm_view s)(k \<mapsto> v)"
  "lsm_ok s \<Longrightarrow> lsm_ok (lsm_mem_put k v s)"
  "lsm_clean s \<Longrightarrow> v \<noteq> NOT_FOUND \<Longrightarrow> lsm_clean (lsm_mem_put k v s)"
  using ran_sm_put [of k v "memTable s"] by (auto simp: lsm_defs lsm_mem_put_def cxx_map cxx_inv)

lemma lsm_load_alt:
  "lsm_load k v s =
     (let s1 = lsm_mem_put k v s in if length (memTable s1) \<ge> memTable_Flush_Threshold then lsm_flush s1 else s1)"
  by (simp add: lsm_load_def lsm_mem_put_def)

lemma mst_insert_alt:
  "mst_insertKeyValue t k v s =
     (let s1 = lsm_mem_put k v s in if int (length (memTable s1)) \<ge> mst_threshold t then lsm_flush s1 else s1)"
  by (simp add: mst_insertKeyValue_def lsm_mem_put_def)

lemma lsm_insert_alt:
  "lsm_insertKeyValue k v s = lsm_load k v (s\<lparr>lsm_file := lsm_wal_append k v (lsm_file s)\<rparr>)"
  by (simp add: lsm_insertKeyValue_def lsm_load_def)

lemma lsm_file_irrelevant [simp]:
  "lsm_view (s\<lparr>lsm_file := f\<rparr>) = lsm_view s" "lsm_ok (s\<lparr>lsm_file := f\<rparr>) = lsm_ok s"
  "lsm_clean (s\<lparr>lsm_file := f\<rparr>) = lsm_clean s"
  by (simp_all add: lsm_defs)

interpretation mem: writer lsm_mem_put lsm_view lsm_ok
  by unfold_locales (auto simp: lsm_mem_put_props)

interpretation load: writer lsm_load lsm_view lsm_ok
  by unfold_locales (auto simp: lsm_load_alt lsm_mem_put_props lsm_flush_view lsm_flush_ok Let_def)

interpretation ins: writer lsm_insertKeyValue lsm_view lsm_ok
  by unfold_locales (auto simp: lsm_insert_alt load.ok_put load.find_put)

interpretation mst: writer "mst_insertKeyValue t" lsm_view lsm_ok for t
  by unfold_locales (auto simp: mst_insert_alt lsm_mem_put_props lsm_flush_view lsm_flush_ok Let_def)

lemma lsm_load_clean: "lsm_clean s \<Longrightarrow> v \<noteq> NOT_FOUND \<Longrightarrow> lsm_clean (lsm_load k v s)"
  by (simp add: lsm_load_alt lsm_mem_put_props lsm_flush_clean Let_def)

lemma mst_insert_clean: "lsm_clean s \<Longrightarrow> v \<noteq> NOT_FOUND \<Longrightarrow> lsm_clean (mst_insertKeyValue t k v s)"
  by (simp add: mst_insert_alt lsm_mem_put_props lsm_flush_clean Let_def)

lemma lsm_search_tables_view:
  assumes "\<forall>t \<in> set ts. sm_ok t \<and> NOT_FOUND \<notin> ran (map_of t)"
  shows "lsm_search_tables (rev ts) k =
    (case foldl (++) Map.empty (map map_of ts) k of None \<Rightarrow> NOT_FOUND | Some v \<Rightarrow> v)"
  using assms
proof (induction ts rule: rev_induct)
  case (snoc t ts)
  then show ?case
    by (auto simp: sstable_searchKey_map_of Let_def map_add_def ran_def split: option.splits)
qed simp

lemma lsm_readKey_view:
  assumes "lsm_ok s" "lsm_clean s"
  shows "lsm_readKey k s = (case lsm_view s k of None \<Rightarrow> NOT_FOUND | Some v \<Rightarrow> v)"
  using assms lsm_search_tables_view [of "sstables s" k]
  by (auto simp: lsm_readKey_def lsm_defs map_add_def split: option.splits)

section \<open>Recovery\<close>

definition lsm_log_text :: "(string \<times> string) list \<Rightarrow> string" where
  "lsm_log_text kvs = concat (map (\<lambda>(k, v). k @ '' '' @ v @ [CHR 0x0A]) kvs)"

definition pair_words :: "string \<times> string \<Rightarrow> bool" where
  "pair_words p \<longleftrightarrow> is_word (fst p) \<and> is_word (snd p)"

lemma lsm_wal_append_text: "lsm_wal_append k v (lsm_log_text kvs) = lsm_log_text (kvs @ [(k, v)])"
  by (simp add: lsm_wal_append_def lsm_log_text_def)

lemma is_word_not_NOT_FOUND: "is_word v \<Longrightarrow> v \<noteq> NOT_FOUND"
  by (auto simp: is_word_def NOT_FOUND_def)

lemma lsm_recover_loop_text:
  assumes "\<forall>p \<in> set kvs. pair_words p" "\<forall>c \<in> set ws. is_ws c"
  shows "lsm_recover_loop (Some (ws @ lsm_log_text kvs)) = kvs"
  using assms
proof (induction kvs arbitrary: ws)
  case Nil
  then show ?case
    by (subst lsm_recover_loop.simps) (simp add: lsm_log_text_def read_word_blank)
next
  case (Cons p kvs)
  obtain k v where p: "p = (k, v)" "is_word k" "is_word v"
    using Cons.prems(1) by (cases p) (auto simp: pair_words_def)
  let ?rest = "lsm_log_text kvs"
  have txt_eq: "lsm_log_text ((k, v) # kvs) = k @ CHR '' '' # v @ CHR 0x0A # ?rest"
    by (simp add: lsm_log_text_def)
  have r1: "read_word (Some (ws @ k @ CHR '' '' # v @ CHR 0x0A # ?rest)) [] = (k, Some (CHR '' '' # v @ CHR 0x0A # ?rest))"
    using p Cons.prems(2) by (intro read_word_word) auto
  have r2: "read_word (Some (CHR '' '' # v @ CHR 0x0A # ?rest)) [] = (v, Some (CHR 0x0A # ?rest))"
    using read_word_word [of "'' ''" v "CHR 0x0A # ?rest" "[]"] p by simp
  have "lsm_recover_loop (Some ([CHR 0x0A] @ ?rest)) = kvs"
    using Cons by (intro Cons.IH) auto
  then show ?case
    by (subst lsm_recover_loop.simps) (simp add: txt_eq r1 r2 p)
qed

lemma lsm_wal_recover_text:
  "\<forall>p \<in> set kvs. pair_words p \<Longrightarrow> lsm_wal_recover (lsm_log_text kvs) = kvs"
  using lsm_recover_loop_text [of kvs "[]"] by (simp add: lsm_wal_recover_def)

text \<open>
  What a running engine keeps: the file is the log of the writes so far and the view their
  dictionary.
\<close>

definition lsm_inv :: "(string \<times> string) list \<Rightarrow> lsm \<Rightarrow> bool" where
  "lsm_inv kvs s \<longleftrightarrow> (\<forall>p \<in> set kvs. pair_words p) \<and> lsm_file s = lsm_log_text kvs \<and>
     lsm_ok s \<and> lsm_clean s \<and> lsm_view s = map_of (rev kvs)"

datatype lsm_event = Insert string string | Restart | Crash_logged string string

fun engine_run :: "(string \<Rightarrow> lsm) \<Rightarrow> lsm_event \<Rightarrow> lsm \<Rightarrow> lsm" where
  "engine_run opn (Insert k v) s = lsm_insertKeyValue k v s"
| "engine_run opn Restart s = opn (lsm_file s)"
| "engine_run opn (Crash_logged k v) s = opn (lsm_wal_append k v (lsm_file s))"

fun event_writes :: "lsm_event \<Rightarrow> (string \<times> string) list" where
  "event_writes (Insert k v) = [(k, v)]"
| "event_writes (Crash_logged k v) = [(k, v)]"
| "event_writes Restart = []"

lemma lsm_inv_insert:
  assumes "lsm_inv kvs s" "is_word k" "is_word v"
  shows "lsm_inv (kvs @ [(k, v)]) (lsm_insertKeyValue k v s)"
proof -
  have "lsm_file (lsm_insertKeyValue k v s) = lsm_wal_append k v (lsm_file s)"
    by (simp add: lsm_insertKeyValue_def lsm_flush_def Let_def)
  moreover have "lsm_clean (lsm_insertKeyValue k v s)"
    using assms by (simp add: lsm_insert_alt lsm_load_clean lsm_inv_def is_word_not_NOT_FOUND)
  ultimately show ?thesis
    using assms ins.ok_put [of s k v] ins.find_put_upd [of s k v]
    by (auto simp: lsm_inv_def pair_words_def lsm_wal_append_text)
qed

text \<open>
  The contract between an engine and the constructor that rebuilds it from a log file. Both
  recoveries satisfy it, the one that flushes while it replays and the one that does not.
\<close>

locale recoverable_engine =
  fixes opn :: "string \<Rightarrow> lsm"
  assumes opn_log: "\<forall>p \<in> set kvs. pair_words p \<Longrightarrow> lsm_inv kvs (opn (lsm_log_text kvs))"
begin

lemma run_inv:
  assumes "lsm_inv kvs s" "\<forall>p \<in> set (event_writes e). pair_words p"
  shows "lsm_inv (kvs @ event_writes e) (engine_run opn e s)"
  using assms opn_log lsm_inv_insert
  by (cases e) (auto simp: lsm_inv_def pair_words_def lsm_wal_append_text)

lemma history:
  assumes "\<forall>p \<in> set (concat (map event_writes evs)). pair_words p"
  shows "lsm_inv (concat (map event_writes evs)) (fold (engine_run opn) evs (opn []))"
  using assms
proof (induction evs rule: rev_induct)
  case Nil
  then show ?case using opn_log [of "[]"] by (simp add: lsm_log_text_def)
next
  case (snoc e evs)
  then show ?case using run_inv [of "concat (map event_writes evs)"] by auto
qed

lemma reads:
  assumes "\<forall>p \<in> set (concat (map event_writes evs)). pair_words p"
  shows "lsm_readKey k (fold (engine_run opn) evs (opn [])) =
    (case map_of (rev (concat (map event_writes evs))) k of None \<Rightarrow> NOT_FOUND | Some v \<Rightarrow> v)"
  using history [OF assms] by (simp add: lsm_inv_def lsm_readKey_view)

end

lemma lsm_empty:
  "lsm_ok \<lparr>memTable = [], sstables = [], lsm_file = f\<rparr>" "lsm_clean \<lparr>memTable = [], sstables = [], lsm_file = f\<rparr>"
  "lsm_view \<lparr>memTable = [], sstables = [], lsm_file = f\<rparr> = Map.empty"
  by (simp_all add: lsm_defs cxx_inv)

lemma fold_clean:
  assumes "\<forall>(k, v) \<in> set kvs. v \<noteq> NOT_FOUND" "lsm_clean s"
    "\<And>k v s. lsm_clean s \<Longrightarrow> v \<noteq> NOT_FOUND \<Longrightarrow> lsm_clean (f k v s)"
  shows "lsm_clean (fold (\<lambda>(k, v). f k v) kvs s)"
  using assms by (induction kvs arbitrary: s) auto

lemma pair_words_clean: "\<forall>p \<in> set kvs. pair_words p \<Longrightarrow> \<forall>(k, v) \<in> set kvs. v \<noteq> NOT_FOUND"
  by (auto simp: pair_words_def dest!: is_word_not_NOT_FOUND bspec)

lemma fold_keeps_file:
  assumes "\<And>k v s. lsm_file (f k v s) = lsm_file s"
  shows "lsm_file (fold (\<lambda>(k, v). f k v) kvs s) = lsm_file s"
  using assms by (induction kvs arbitrary: s) auto

interpretation lsm: recoverable_engine lsm_open
proof
  fix kvs assume kvs: "\<forall>p \<in> set kvs. pair_words p"
  let ?s = "\<lparr>memTable = [], sstables = [], lsm_file = lsm_log_text kvs\<rparr>"
  have "lsm_open (lsm_log_text kvs) = fold (\<lambda>(k, v). lsm_load k v) kvs ?s"
    using kvs by (simp add: lsm_open_def lsm_recover_def lsm_wal_recover_text)
  moreover have "lsm_clean (fold (\<lambda>(k, v). lsm_load k v) kvs ?s)"
    using kvs by (intro fold_clean pair_words_clean) (auto simp: lsm_empty lsm_load_clean)
  moreover have "lsm_file (fold (\<lambda>(k, v). lsm_load k v) kvs ?s) = lsm_file ?s"
    by (rule fold_keeps_file) (simp add: lsm_load_def lsm_flush_def Let_def)
  ultimately show "lsm_inv kvs (lsm_open (lsm_log_text kvs))"
    using kvs load.put_all [of ?s kvs] by (simp add: lsm_inv_def lsm_empty)
qed

interpretation kvs: recoverable_engine kvs_open
proof
  fix kvs assume kvs: "\<forall>p \<in> set kvs. pair_words p"
  let ?s = "\<lparr>memTable = [], sstables = [], lsm_file = lsm_log_text kvs\<rparr>"
  have "kvs_open (lsm_log_text kvs) = fold (\<lambda>(k, v). lsm_mem_put k v) kvs ?s"
    using kvs by (simp add: kvs_open_def kvs_recover_def lsm_wal_recover_text lsm_mem_put_def [abs_def])
  moreover have "lsm_clean (fold (\<lambda>(k, v). lsm_mem_put k v) kvs ?s)"
    using kvs by (intro fold_clean pair_words_clean) (auto simp: lsm_empty lsm_mem_put_props)
  moreover have "lsm_file (fold (\<lambda>(k, v). lsm_mem_put k v) kvs ?s) = lsm_file ?s"
    by (rule fold_keeps_file) (simp add: lsm_mem_put_def)
  ultimately show "lsm_inv kvs (kvs_open (lsm_log_text kvs))"
    using kvs mem.put_all [of ?s kvs] by (simp add: lsm_inv_def lsm_empty)
qed

section \<open>Properties\<close>

fun kvs_run :: "lsm_event \<Rightarrow> lsm \<Rightarrow> lsm" where
  "kvs_run (Insert k v) s = kvs_insertKeyValue k v s"
| "kvs_run Restart s = kvs_open (lsm_file s)"
| "kvs_run (Crash_logged k v) s = kvs_open (kvs_append k v (lsm_file s))"

lemma kvs_run_engine: "kvs_run e s = engine_run kvs_open e s"
  by (cases e) (simp_all add: kvs_insertKeyValue_def kvs_append_def)

lemma kvs_reads:
  assumes "\<forall>p \<in> set (concat (map event_writes evs)). pair_words p"
  shows "kvs_readKey k (fold kvs_run evs (kvs_open [])) =
    (case map_of (rev (concat (map event_writes evs))) k of None \<Rightarrow> NOT_FOUND | Some v \<Rightarrow> v)"
proof -
  have "kvs_run = engine_run kvs_open" by (intro ext) (rule kvs_run_engine)
  then show ?thesis using kvs.reads [OF assms] by (simp add: kvs_readKey_def)
qed

text \<open>
  C7. Read your writes, across restarts. After any sequence of inserts, restarts and crashes that
  follow the log append, with single-word keys and values, a read in either engine with a log
  (the one that flushes during recovery and the one of \<^verbatim>\<open>KVstore.cpp\<close> that does not) returns the
  value written last, from whichever of memtable and SSTables holds it, and \<^verbatim>\<open>NOT FOUND!\<close> for a key
  never written.
\<close>

theorem lsm_read_your_writes:
  assumes "\<forall>p \<in> set (concat (map event_writes evs)). pair_words p"
  shows "lsm_readKey k (fold (engine_run lsm_open) evs (lsm_open [])) =
      (case map_of (rev (concat (map event_writes evs))) k of None \<Rightarrow> NOT_FOUND | Some v \<Rightarrow> v) \<and>
    lsm_readKey k (fold (engine_run kvs_open) evs (kvs_open [])) =
      (case map_of (rev (concat (map event_writes evs))) k of None \<Rightarrow> NOT_FOUND | Some v \<Rightarrow> v)"
  using lsm.reads [OF assms] kvs.reads [OF assms] by simp

theorem lsm_read_your_writes_witness:
  "lsm_readKey ''dog'' (fold (engine_run lsm_open)
      [Insert ''dog'' ''pet'', Insert ''cat'' ''a'', Insert ''emu'' ''b'', Crash_logged ''dog'' ''wild'', Restart]
      (lsm_open [])) = ''wild''"
proof -
  let ?evs = "[Insert ''dog'' ''pet'', Insert ''cat'' ''a'', Insert ''emu'' ''b'',
    Crash_logged ''dog'' ''wild'', Restart]"
  have "\<forall>p \<in> set (concat (map event_writes ?evs)). pair_words p"
    by (simp add: pair_words_def is_word_def is_ws_def)
  from lsm_read_your_writes [OF this, of "''dog''"] show ?thesis by simp
qed

text \<open>
  The engine without a log: whatever flush threshold it was built with (negative and zero
  included), a read returns the value written last, provided no written value is the text
  \<^verbatim>\<open>NOT FOUND!\<close>.
\<close>

theorem mst_read_your_writes:
  assumes "\<forall>(k, v) \<in> set kvs. v \<noteq> NOT_FOUND"
  shows "lsm_readKey k (fold (\<lambda>(k, v). mst_insertKeyValue t k v) kvs mst_new) =
    (case map_of (rev kvs) k of None \<Rightarrow> NOT_FOUND | Some v \<Rightarrow> v)"
proof -
  have new: "lsm_ok mst_new" "lsm_clean mst_new" "lsm_view mst_new = Map.empty"
    by (simp_all add: mst_new_def lsm_empty)
  have "lsm_clean (fold (\<lambda>(k, v). mst_insertKeyValue t k v) kvs mst_new)"
    using assms new by (intro fold_clean) (auto simp: mst_insert_clean)
  then show ?thesis
    using mst.put_all [of mst_new t kvs] new by (simp add: lsm_readKey_view)
qed

theorem mst_read_your_writes_witness:
  "lsm_readKey ''a'' (fold (\<lambda>(k, v). mst_insertKeyValue 2 k v)
      [(''a'', ''1''), (''b'', ''2''), (''a'', ''3''), (''c'', ''4'')] mst_new) = ''3''"
  using mst_read_your_writes [of "[(''a'', ''1''), (''b'', ''2''), (''a'', ''3''), (''c'', ''4'')]" "''a''" 2]
  by (simp add: NOT_FOUND_def)

text \<open>
  The side condition is needed: a value equal to the sentinel is read back from the memtable,
  but once it has been flushed the search takes it for a miss and an older value of the same key,
  already overwritten, reappears.
\<close>

theorem lsm_sentinel_value_lost:
  "let s1 = lsm_insertKeyValue ''c'' ''2'' (lsm_insertKeyValue ''b'' ''1'' (lsm_insertKeyValue ''a'' ''old'' (lsm_open [])));
       s2 = lsm_insertKeyValue ''a'' NOT_FOUND s1;
       s3 = lsm_insertKeyValue ''e'' ''4'' (lsm_insertKeyValue ''d'' ''3'' s2)
   in lsm_readKey ''a'' s2 = NOT_FOUND \<and> lsm_readKey ''a'' s3 = ''old''"
  by code_simp

end
