(* ===== verification/Lock_Manager.thy ===== *)
theory Lock_Manager
  imports Prelude
begin

text \<open>
  The shared/exclusive lock manager of \<^verbatim>\<open>storage/LockManager.cpp\<close>. Every method runs under one mutex,
  which \<^verbatim>\<open>cv.wait\<close> releases: a method is one atomic step up to its wait, and a blocked call is a
  \<open>waiter\<close> that may be woken at any time (by a notification or spuriously) and then evaluates its
  predicate again. A blocked call keeps the C++ reference \<^verbatim>\<open>LockInfo &info\<close> into the map; the identity
  of the map node is the field \<open>node\<close>, so that a reference to an erased entry is visible.
\<close>

record LockInfo =
  shared_owners :: "int set"
  exclusive_owner :: int
  waitingWriters :: int
  node :: nat

datatype wait_kind = Wait_S | Wait_X | Wait_Up

record waiter =
  wkind :: wait_kind
  wtxn :: int
  wres :: string
  wnode :: nat

record LockManager =
  lock_table :: "(string, LockInfo) umap"
  next_node :: nat
  waiters :: "waiter list"

definition lm_new :: LockManager where
  "lm_new = \<lparr>lock_table = [], next_node = 0, waiters = []\<rparr>"

definition new_info :: "nat \<Rightarrow> LockInfo" where
  "new_info n = \<lparr>shared_owners = {}, exclusive_owner = -1, waitingWriters = 0, node = n\<rparr>"

text \<open>\<^verbatim>\<open>lock_table[resource]\<close>: a fresh node when the key is absent.\<close>

definition lm_touch :: "string \<Rightarrow> LockManager \<Rightarrow> LockManager" where
  "lm_touch r s =
     (case um_find (lock_table s) r of
        Some _ \<Rightarrow> s
      | None \<Rightarrow> s\<lparr>lock_table := um_put r (new_info (next_node s)) (lock_table s),
                 next_node := Suc (next_node s)\<rparr>)"

definition lm_info :: "string \<Rightarrow> LockManager \<Rightarrow> LockInfo" where
  "lm_info r s = um_at (new_info 0) (lock_table s) r"

definition lm_set :: "string \<Rightarrow> LockInfo \<Rightarrow> LockManager \<Rightarrow> LockManager" where
  "lm_set r i s = s\<lparr>lock_table := um_put r i (lock_table s)\<rparr>"

definition lm_block :: "wait_kind \<Rightarrow> int \<Rightarrow> string \<Rightarrow> LockManager \<Rightarrow> LockManager" where
  "lm_block k t r s =
     s\<lparr>waiters := \<lparr>wkind = k, wtxn = t, wres = r, wnode = node (lm_info r s)\<rparr> # waiters s\<rparr>"

definition can_share :: "LockInfo \<Rightarrow> bool" where
  "can_share i \<longleftrightarrow> exclusive_owner i = -1 \<and> waitingWriters i = 0"

definition can_exclude :: "LockInfo \<Rightarrow> bool" where
  "can_exclude i \<longleftrightarrow> exclusive_owner i = -1 \<and> shared_owners i = {}"

definition grant_shared :: "int \<Rightarrow> LockInfo \<Rightarrow> LockInfo" where
  "grant_shared t i = i\<lparr>shared_owners := insert t (shared_owners i)\<rparr>"

definition grant_exclusive :: "int \<Rightarrow> LockInfo \<Rightarrow> LockInfo" where
  "grant_exclusive t i = i\<lparr>waitingWriters := waitingWriters i - 1, exclusive_owner := t\<rparr>"

definition lm_cleanup :: "string \<Rightarrow> LockManager \<Rightarrow> LockManager" where
  "lm_cleanup r s =
     (case um_find (lock_table s) r of
        None \<Rightarrow> s
      | Some i \<Rightarrow>
          if shared_owners i = {} \<and> exclusive_owner i = -1 \<and> waitingWriters i = 0
          then s\<lparr>lock_table := um_erase r (lock_table s)\<rparr> else s)"

definition lm_acquire_shared_lock :: "int \<Rightarrow> string \<Rightarrow> LockManager \<Rightarrow> LockManager" where
  "lm_acquire_shared_lock t r s =
     (let s1 = lm_touch r s; i = lm_info r s1
      in if can_share i then lm_set r (grant_shared t i) s1 else lm_block Wait_S t r s1)"

definition lm_release_shared_lock :: "int \<Rightarrow> string \<Rightarrow> LockManager \<Rightarrow> LockManager" where
  "lm_release_shared_lock t r s =
     (case um_find (lock_table s) r of
        None \<Rightarrow> s
      | Some i \<Rightarrow> lm_cleanup r (lm_set r (i\<lparr>shared_owners := shared_owners i - {t}\<rparr>) s))"

definition lm_acquire_exclusive_lock :: "int \<Rightarrow> string \<Rightarrow> LockManager \<Rightarrow> LockManager" where
  "lm_acquire_exclusive_lock t r s =
     (let s1 = lm_touch r s;
          i = (lm_info r s1)\<lparr>waitingWriters := waitingWriters (lm_info r s1) + 1\<rparr>;
          s2 = lm_set r i s1
      in if can_exclude i then lm_set r (grant_exclusive t i) s2 else lm_block Wait_X t r s2)"

definition lm_release_exclusive_lock :: "int \<Rightarrow> string \<Rightarrow> LockManager \<Rightarrow> LockManager" where
  "lm_release_exclusive_lock t r s =
     (case um_find (lock_table s) r of
        None \<Rightarrow> s
      | Some i \<Rightarrow>
          lm_cleanup r (lm_set r (if exclusive_owner i = t then i\<lparr>exclusive_owner := -1\<rparr> else i) s))"

definition lm_upgrade :: "int \<Rightarrow> string \<Rightarrow> LockManager \<Rightarrow> LockManager" where
  "lm_upgrade t r s =
     (let s1 = lm_touch r s; i0 = lm_info r s1
      in if t \<notin> shared_owners i0 then s1
         else let i = i0\<lparr>shared_owners := shared_owners i0 - {t}, waitingWriters := waitingWriters i0 + 1\<rparr>;
                  s2 = lm_set r i s1
              in if can_exclude i then lm_set r (grant_exclusive t i) s2 else lm_block Wait_Up t r s2)"

definition lm_downgrade :: "int \<Rightarrow> string \<Rightarrow> LockManager \<Rightarrow> LockManager" where
  "lm_downgrade t r s =
     (let s1 = lm_touch r s; i = lm_info r s1
      in if exclusive_owner i \<noteq> t then s1
         else lm_set r (i\<lparr>exclusive_owner := -1, shared_owners := insert t (shared_owners i)\<rparr>) s1)"

text \<open>
  A waiter resumes inside \<^verbatim>\<open>cv.wait\<close>. Its reference is valid if the table still has the node it was
  taken from; otherwise the result is \<^const>\<open>None\<close>, the undefined behaviour of the C++ program.
\<close>

definition ref_valid :: "waiter \<Rightarrow> LockManager \<Rightarrow> bool" where
  "ref_valid w s \<longleftrightarrow>
     (case um_find (lock_table s) (wres w) of None \<Rightarrow> False | Some i \<Rightarrow> node i = wnode w)"

definition lm_wake :: "waiter \<Rightarrow> LockManager \<Rightarrow> LockManager option" where
  "lm_wake w s =
     (if \<not> ref_valid w s then None
      else let i = lm_info (wres w) s; s' = s\<lparr>waiters := remove1 w (waiters s)\<rparr>
           in if wkind w = Wait_S
              then if can_share i then Some (lm_set (wres w) (grant_shared (wtxn w) i) s') else Some s
              else if can_exclude i then Some (lm_set (wres w) (grant_exclusive (wtxn w) i) s') else Some s)"

inductive lm_step :: "LockManager \<Rightarrow> LockManager \<Rightarrow> bool" where
  acquire_shared: "lm_step s (lm_acquire_shared_lock t r s)"
| release_shared: "lm_step s (lm_release_shared_lock t r s)"
| acquire_exclusive: "lm_step s (lm_acquire_exclusive_lock t r s)"
| release_exclusive: "lm_step s (lm_release_exclusive_lock t r s)"
| upgrade: "lm_step s (lm_upgrade t r s)"
| downgrade: "lm_step s (lm_downgrade t r s)"
| wake: "w \<in> set (waiters s) \<Longrightarrow> lm_wake w s = Some s' \<Longrightarrow> lm_step s s'"

abbreviation lm_reachable :: "LockManager \<Rightarrow> bool" where
  "lm_reachable \<equiv> reach (\<lambda>s. s = lm_new) lm_step"

section \<open>The invariant\<close>

definition waits_on :: "string \<Rightarrow> nat \<Rightarrow> waiter \<Rightarrow> bool" where
  "waits_on r n w \<longleftrightarrow> wkind w \<noteq> Wait_S \<and> wres w = r \<and> wnode w = n"

definition writers_waiting :: "string \<Rightarrow> nat \<Rightarrow> waiter list \<Rightarrow> int" where
  "writers_waiting r n ws = int (length (filter (waits_on r n) ws))"

definition info_ok :: "string \<Rightarrow> waiter list \<Rightarrow> LockInfo \<Rightarrow> bool" where
  "info_ok r ws i \<longleftrightarrow> (exclusive_owner i \<noteq> -1 \<longrightarrow> shared_owners i = {}) \<and>
     waitingWriters i = writers_waiting r (node i) ws"

definition lm_inv :: "LockManager \<Rightarrow> bool" where
  "lm_inv s \<longleftrightarrow>
     (\<forall>r i. um_find (lock_table s) r = Some i \<longrightarrow> info_ok r (waiters s) i \<and> node i < next_node s) \<and>
     (\<forall>w \<in> set (waiters s). wnode w < next_node s \<and> (wkind w \<noteq> Wait_S \<longrightarrow> ref_valid w s))"

lemmas lm_defs = lm_info_def um_at_def lm_set_def lm_block_def can_share_def can_exclude_def
  grant_shared_def grant_exclusive_def ref_valid_def info_ok_def cxx_map

lemma writers_waiting_Cons:
  "writers_waiting r n (w # ws) = (if waits_on r n w then 1 else 0) + writers_waiting r n ws"
  by (simp add: writers_waiting_def)

lemma writers_waiting_remove1:
  "w \<in> set ws \<Longrightarrow> writers_waiting r n (remove1 w ws) =
     writers_waiting r n ws - (if waits_on r n w then 1 else 0)"
  by (induction ws) (auto simp: writers_waiting_def)

lemma writers_waiting_fresh:
  "\<forall>w \<in> set ws. wnode w < n \<Longrightarrow> writers_waiting r n ws = 0"
  by (auto simp: writers_waiting_def waits_on_def filter_empty_conv)

lemma lm_inv_touch:
  assumes "lm_inv s"
  shows "lm_inv (lm_touch r s) \<and> um_find (lock_table (lm_touch r s)) r = Some (lm_info r (lm_touch r s))"
proof (cases "um_find (lock_table s) r")
  case None
  have "writers_waiting r (next_node s) (waiters s) = 0"
    using assms by (intro writers_waiting_fresh) (auto simp: lm_inv_def)
  with None assms show ?thesis
    by (fastforce simp: lm_touch_def lm_inv_def new_info_def lm_defs split: option.splits)
next
  case (Some i)
  then show ?thesis using assms by (simp add: lm_touch_def lm_defs)
qed

text \<open>One rule covers every step that rewrites one entry and possibly adds or removes a waiter on it.\<close>

lemma lm_inv_update:
  assumes inv: "lm_inv s" and old: "um_find (lock_table s) r = Some i"
    and nd: "node i' = node i" and ok: "info_ok r ws' i'"
    and other: "\<And>r' n. r' \<noteq> r \<Longrightarrow> writers_waiting r' n ws' = writers_waiting r' n (waiters s)"
    and new: "\<And>w. w \<in> set ws' \<Longrightarrow> w \<in> set (waiters s) \<or> wres w = r \<and> wnode w = node i"
  shows "lm_inv (s\<lparr>lock_table := um_put r i' (lock_table s), waiters := ws'\<rparr>)"
proof -
  have "node i < next_node s" using inv old by (simp add: lm_inv_def)
  moreover have "info_ok r' ws' j" if "um_find (lock_table s) r' = Some j" "r' \<noteq> r" for r' j
    using inv that other by (auto simp: lm_inv_def info_ok_def)
  ultimately show ?thesis
    using inv old nd ok new by (fastforce simp: lm_inv_def ref_valid_def cxx_map split: option.splits)
qed

lemma lm_set_alt: "lm_set r i s = s\<lparr>lock_table := um_put r i (lock_table s), waiters := waiters s\<rparr>"
  by (simp add: lm_set_def)

lemma lm_set_twice [simp]: "lm_set r i (lm_set r j s) = lm_set r i s"
  by (simp add: lm_set_def)

lemma lm_inv_set:
  assumes "lm_inv s" "um_find (lock_table s) r = Some i" "node i' = node i" "info_ok r (waiters s) i'"
  shows "lm_inv (lm_set r i' s)"
  unfolding lm_set_alt using assms by (intro lm_inv_update) auto

lemma lm_inv_set_block:
  assumes "lm_inv s" "um_find (lock_table s) r = Some i" "node i' = node i" "k \<noteq> Wait_S"
    "info_ok r (waiters s) (i'\<lparr>waitingWriters := waitingWriters i' - 1\<rparr>)"
  shows "lm_inv (lm_block k t r (lm_set r i' s))"
proof -
  let ?w = "\<lparr>wkind = k, wtxn = t, wres = r, wnode = node i\<rparr>"
  have eq: "lm_block k t r (lm_set r i' s) =
      s\<lparr>lock_table := um_put r i' (lock_table s), waiters := ?w # waiters s\<rparr>"
    using assms(2,3) by (simp add: lm_defs)
  have ok: "info_ok r (?w # waiters s) i'"
    using assms by (auto simp: info_ok_def writers_waiting_Cons waits_on_def)
  show ?thesis
    unfolding eq using assms(1-3) ok
    by (intro lm_inv_update [of s r i]) (auto simp: writers_waiting_Cons waits_on_def)
qed

lemma lm_inv_block_reader:
  assumes "lm_inv s" "um_find (lock_table s) r = Some i"
  shows "lm_inv (lm_block Wait_S t r s)"
  using assms
  by (auto simp: lm_inv_def lm_defs writers_waiting_Cons waits_on_def split: option.splits)

lemma lm_inv_cleanup:
  assumes "lm_inv s"
  shows "lm_inv (lm_cleanup r s)"
proof (cases "um_find (lock_table s) r")
  case None
  then show ?thesis using assms by (simp add: lm_cleanup_def)
next
  case (Some i)
  have free: "\<not> waits_on r (node i) w" if "waitingWriters i = 0" "w \<in> set (waiters s)" for w
    using assms Some that by (auto simp: lm_inv_def info_ok_def writers_waiting_def filter_empty_conv)
  show ?thesis
  proof (cases "shared_owners i = {} \<and> exclusive_owner i = -1 \<and> waitingWriters i = 0")
    case True
    then show ?thesis
      using assms Some free
      by (fastforce simp: lm_cleanup_def lm_inv_def ref_valid_def waits_on_def cxx_map split: option.splits if_splits)
  next
    case False
    then show ?thesis using assms Some by (auto simp: lm_cleanup_def)
  qed
qed

lemma lm_infoD: "lm_inv s \<Longrightarrow> um_find (lock_table s) r = Some i \<Longrightarrow> info_ok r (waiters s) i"
  by (simp add: lm_inv_def)

lemma lm_inv_acquire_shared: "lm_inv s \<Longrightarrow> lm_inv (lm_acquire_shared_lock t r s)"
proof -
  assume "lm_inv s"
  then have s1: "lm_inv (lm_touch r s)" "um_find (lock_table (lm_touch r s)) r = Some (lm_info r (lm_touch r s))"
    using lm_inv_touch by auto
  show ?thesis
    using s1 lm_infoD [OF s1] lm_inv_set [OF s1, of "grant_shared t (lm_info r (lm_touch r s))"]
      lm_inv_block_reader [OF s1]
    by (auto simp: lm_acquire_shared_lock_def Let_def grant_shared_def can_share_def info_ok_def)
qed

lemma lm_inv_acquire_exclusive: "lm_inv s \<Longrightarrow> lm_inv (lm_acquire_exclusive_lock t r s)"
proof -
  assume "lm_inv s"
  then have s1: "lm_inv (lm_touch r s)" "um_find (lock_table (lm_touch r s)) r = Some (lm_info r (lm_touch r s))"
    using lm_inv_touch by auto
  let ?i = "(lm_info r (lm_touch r s))\<lparr>waitingWriters := waitingWriters (lm_info r (lm_touch r s)) + 1\<rparr>"
  show ?thesis
    using lm_infoD [OF s1] lm_inv_set [OF s1, of "grant_exclusive t ?i"]
      lm_inv_set_block [OF s1, of ?i Wait_X t]
    by (auto simp: lm_acquire_exclusive_lock_def Let_def grant_exclusive_def can_exclude_def info_ok_def)
qed

lemma lm_inv_upgrade: "lm_inv s \<Longrightarrow> lm_inv (lm_upgrade t r s)"
proof -
  assume "lm_inv s"
  then have s1: "lm_inv (lm_touch r s)" "um_find (lock_table (lm_touch r s)) r = Some (lm_info r (lm_touch r s))"
    using lm_inv_touch by auto
  let ?i0 = "lm_info r (lm_touch r s)"
  let ?i = "?i0\<lparr>shared_owners := shared_owners ?i0 - {t}, waitingWriters := waitingWriters ?i0 + 1\<rparr>"
  show ?thesis
    using s1 lm_infoD [OF s1] lm_inv_set [OF s1, of "grant_exclusive t ?i"]
      lm_inv_set_block [OF s1, of ?i Wait_Up t]
    by (auto simp: lm_upgrade_def Let_def grant_exclusive_def can_exclude_def info_ok_def)
qed

lemma lm_inv_downgrade: "lm_inv s \<Longrightarrow> lm_inv (lm_downgrade t r s)"
proof -
  assume "lm_inv s"
  then have s1: "lm_inv (lm_touch r s)" "um_find (lock_table (lm_touch r s)) r = Some (lm_info r (lm_touch r s))"
    using lm_inv_touch by auto
  let ?i = "lm_info r (lm_touch r s)"
  show ?thesis
    using s1 lm_infoD [OF s1]
      lm_inv_set [OF s1, of "?i\<lparr>exclusive_owner := -1, shared_owners := insert t (shared_owners ?i)\<rparr>"]
    by (auto simp: lm_downgrade_def Let_def info_ok_def)
qed

lemma lm_inv_release_shared: "lm_inv s \<Longrightarrow> lm_inv (lm_release_shared_lock t r s)"
proof (cases "um_find (lock_table s) r")
  case (Some i)
  assume inv: "lm_inv s"
  show ?thesis
    using Some lm_infoD [OF inv Some] lm_inv_set [OF inv Some, of "i\<lparr>shared_owners := shared_owners i - {t}\<rparr>"]
    by (auto simp: lm_release_shared_lock_def info_ok_def intro!: lm_inv_cleanup)
qed (simp add: lm_release_shared_lock_def)

lemma lm_inv_release_exclusive: "lm_inv s \<Longrightarrow> lm_inv (lm_release_exclusive_lock t r s)"
proof (cases "um_find (lock_table s) r")
  case (Some i)
  assume inv: "lm_inv s"
  show ?thesis
    using Some lm_infoD [OF inv Some] lm_inv_set [OF inv Some, of "i\<lparr>exclusive_owner := -1\<rparr>"]
      lm_inv_set [OF inv Some, of i]
    by (auto simp: lm_release_exclusive_lock_def info_ok_def intro!: lm_inv_cleanup)
qed (simp add: lm_release_exclusive_lock_def)

lemma lm_inv_wake:
  assumes inv: "lm_inv s" and w: "w \<in> set (waiters s)" and s': "lm_wake w s = Some s'"
  shows "lm_inv s'"
proof -
  let ?i = "lm_info (wres w) s"
  have i: "um_find (lock_table s) (wres w) = Some ?i" "node ?i = wnode w"
    using s' by (auto simp: lm_wake_def ref_valid_def lm_info_def um_at_def split: option.splits if_splits)
  let ?s = "s\<lparr>waiters := remove1 w (waiters s)\<rparr>"
  have upd: "lm_inv (lm_set (wres w) i' ?s)"
    if "node i' = node ?i" "info_ok (wres w) (remove1 w (waiters s)) i'" for i'
  proof -
    have eq: "lm_set (wres w) i' ?s =
        s\<lparr>lock_table := um_put (wres w) i' (lock_table s), waiters := remove1 w (waiters s)\<rparr>"
      by (cases s) (simp add: lm_set_def)
    show ?thesis
      unfolding eq using inv i(1) that w
      by (intro lm_inv_update [of s "wres w" ?i])
        (auto simp: writers_waiting_remove1 waits_on_def dest: notin_set_remove1)
  qed
  show ?thesis
    using s' inv upd [of "grant_shared (wtxn w) ?i"] upd [of "grant_exclusive (wtxn w) ?i"]
      lm_infoD [OF inv i(1)] i(2) w
    by (auto simp: lm_wake_def Let_def grant_shared_def grant_exclusive_def can_share_def
        can_exclude_def info_ok_def writers_waiting_remove1 waits_on_def split: if_splits)
qed

interpretation lm: inductive_invariant "\<lambda>s. s = lm_new" lm_step lm_inv
proof
  show "lm_inv s" if "s = lm_new" for s
    using that by (simp add: lm_new_def lm_inv_def)
  show "lm_inv t" if "lm_inv s" "lm_step s t" for s t
    using that(2,1) by (induction rule: lm_step.induct)
      (auto intro: lm_inv_acquire_shared lm_inv_release_shared lm_inv_acquire_exclusive
        lm_inv_release_exclusive lm_inv_upgrade lm_inv_downgrade lm_inv_wake)
qed

lemma lm_reach_new: "lm_reachable lm_new"
  by (rule reach_init) simp

section \<open>Properties\<close>



text \<open>
  Writer preference: while a call waits for an exclusive lock (or an upgrade) on a resource, a new
  request for a shared lock is never granted; it blocks and leaves the owners as they are.
\<close>

theorem lm_writer_preference:
  assumes "lm_reachable s" and "w \<in> set (waiters s)" and "wkind w \<noteq> Wait_S"
  shows "\<exists>i. um_find (lock_table s) (wres w) = Some i \<and>
    um_find (lock_table (lm_acquire_shared_lock t (wres w) s)) (wres w) = Some i \<and>
    waiters (lm_acquire_shared_lock t (wres w) s) =
      \<lparr>wkind = Wait_S, wtxn = t, wres = wres w, wnode = node i\<rparr> # waiters s"
proof -
  obtain i where i: "um_find (lock_table s) (wres w) = Some i" "node i = wnode w"
    and ok: "info_ok (wres w) (waiters s) i"
    using lm.always [OF assms(1)] assms(2,3)
    by (fastforce simp: lm_inv_def ref_valid_def split: option.splits)
  have "waits_on (wres w) (node i) w"
    using assms(3) i(2) by (simp add: waits_on_def)
  then have "waitingWriters i \<noteq> 0"
    using ok assms(2) by (auto simp: info_ok_def writers_waiting_def filter_empty_conv)
  then show ?thesis
    using i by (simp add: lm_acquire_shared_lock_def lm_touch_def lm_info_def um_at_def can_share_def lm_block_def)
qed

theorem lm_writer_preference_witness:
  "let s = lm_acquire_exclusive_lock 2 ''row'' (lm_acquire_shared_lock 1 ''row'' lm_new)
   in length (waiters (lm_acquire_shared_lock 3 ''row'' s)) = 2"
proof -
  let ?s = "lm_acquire_exclusive_lock 2 ''row'' (lm_acquire_shared_lock 1 ''row'' lm_new)"
  have r: "lm_reachable ?s"
    by (rule reach_step [OF reach_step [OF lm_reach_new acquire_shared] acquire_exclusive])
  have w: "waiters ?s = [\<lparr>wkind = Wait_X, wtxn = 2, wres = ''row'', wnode = 0\<rparr>]" by code_simp
  show ?thesis
    using lm_writer_preference [OF r, of "\<lparr>wkind = Wait_X, wtxn = 2, wres = ''row'', wnode = 0\<rparr>" 3] w
    by (auto simp: Let_def)
qed

text \<open>
  The cleanup forgets blocked readers. Transaction 1 takes the exclusive lock, transaction 2
  blocks for a shared one, transaction 1 releases: the entry is erased while transaction 2 still
  holds a reference into it, so its wake-up reads freed memory.
\<close>

theorem lm_reader_dangles:
  "\<exists>s w. lm_reachable s \<and> w \<in> set (waiters s) \<and> wkind w = Wait_S \<and> \<not> ref_valid w s \<and> lm_wake w s = None"
proof -
  let ?s = "lm_release_exclusive_lock 1 ''row'' (lm_acquire_shared_lock 2 ''row''
    (lm_acquire_exclusive_lock 1 ''row'' lm_new))"
  let ?w = "\<lparr>wkind = Wait_S, wtxn = 2, wres = ''row'', wnode = 0\<rparr>"
  have "lm_reachable ?s"
    by (rule reach_step [OF reach_step [OF reach_step [OF lm_reach_new acquire_exclusive]
            acquire_shared] release_exclusive])
  moreover have "waiters ?s = [?w]" by code_simp
  moreover have "\<not> ref_valid ?w ?s" by code_simp
  ultimately show ?thesis
    by (intro exI [of _ ?s] exI [of _ ?w]) (simp add: lm_wake_def)
qed

end
