(* ===== verification/Txn_Interface.thy ===== *)
theory Txn_Interface
  imports Prelude
begin

text \<open>
  What the two transaction managers of \<^verbatim>\<open>database-internals/\<close> share: the transaction states, the
  operations of a client, and the isolation contract of a write-locked store, proved once for runs.
\<close>

datatype Txnstate = ACTIVE | COMMITTED | ABORTED

record txn =
  txn_id :: int
  state :: Txnstate

definition txn_new :: "int \<Rightarrow> txn" where
  "txn_new t = \<lparr>txn_id = t, state = ACTIVE\<rparr>"

definition set_state :: "int \<Rightarrow> Txnstate \<Rightarrow> (int, txn) umap \<Rightarrow> (int, txn) umap" where
  "set_state t st m = um_put t ((um_at (txn_new t) m t)\<lparr>state := st\<rparr>) m"

datatype txn_op = Begin | Read int string | Write int string string | Commit int | Abort int

fun ends :: "int \<Rightarrow> txn_op \<Rightarrow> bool" where
  "ends t (Commit u) = (u = t)"
| "ends t (Abort u) = (u = t)"
| "ends t p = False"

text \<open>What transaction \<open>t\<close> has last written under a key, after one more operation.\<close>

fun newest :: "int \<Rightarrow> string \<Rightarrow> txn_op \<Rightarrow> string option \<Rightarrow> string option" where
  "newest t k (Write u k' v) old = (if u = t \<and> k' = k then Some v else old)"
| "newest t k p old = old"

text \<open>
  While a transaction holds the write lock on a key, no operation takes the lock away until the
  transaction ends, and the stored value changes by its own writes only.
\<close>

locale write_locked_store =
  fixes exec :: "txn_op \<Rightarrow> 's \<Rightarrow> 's"
    and write_holder :: "'s \<Rightarrow> int \<Rightarrow> string \<Rightarrow> bool"
    and stored :: "'s \<Rightarrow> string \<Rightarrow> string option"
    and ok :: "'s \<Rightarrow> bool"
  assumes ok_exec: "ok s \<Longrightarrow> ok (exec p s)"
    and held: "ok s \<Longrightarrow> write_holder s t k \<Longrightarrow> \<not> ends t p \<Longrightarrow>
      write_holder (exec p s) t k \<and> stored (exec p s) k = newest t k p (stored s k)"
begin

lemma ok_run: "ok s \<Longrightarrow> ok (fold exec ops s)"
  by (rule fold_invariant_state) (auto intro: ok_exec)

lemma held_run:
  "ok s \<Longrightarrow> write_holder s t k \<Longrightarrow> \<forall>p \<in> set ops. \<not> ends t p \<Longrightarrow>
     write_holder (fold exec ops s) t k \<and> stored (fold exec ops s) k = fold (newest t k) ops (stored s k)"
proof (induction ops arbitrary: s)
  case (Cons p ops)
  then show ?case using held [of s t k p] ok_exec [of s p] by auto
qed simp

end

end
