(* ===== verification/Txn_Exclusive.thy ===== *)
theory Txn_Exclusive
  imports Txn_Interface
begin

text \<open>
  The transaction manager with exclusive write locks,
  \<^verbatim>\<open>database-internals/TransactionManager_withExclusiveWritelock.cpp\<close>: reads take no lock, a write takes
  the key's lock or fails, commit and abort drop all locks of the transaction.
\<close>

record xtm =
  next_txn_id :: int
  transactions :: "(int, txn) umap"
  database :: "(string, string) umap"
  locks :: "(string, int) umap"

definition xtm_new :: xtm where
  "xtm_new = \<lparr>next_txn_id = 1, transactions = [], database = [], locks = []\<rparr>"

definition xlock :: "int \<Rightarrow> string \<Rightarrow> (string, int) umap \<Rightarrow> bool \<times> (string, int) umap" where
  "xlock t k ls =
     (if um_find ls k = None \<or> um_find ls k = Some t then (True, um_put k t ls) else (False, ls))"

definition xunlock :: "int \<Rightarrow> (string, int) umap \<Rightarrow> (string, int) umap" where
  "xunlock t ls = filter (\<lambda>(k, owner). owner \<noteq> t) ls"

definition xtm_isActive :: "int \<Rightarrow> xtm \<Rightarrow> bool" where
  "xtm_isActive t s =
     (case um_find (transactions s) t of None \<Rightarrow> False | Some x \<Rightarrow> state x = ACTIVE)"

definition xtm_begin :: "xtm \<Rightarrow> int \<times> xtm" where
  "xtm_begin s =
     (let t = next_txn_id s
      in (t, s\<lparr>next_txn_id := t + 1,
               transactions := um_put t (txn_new t) (transactions s)\<rparr>))"

definition xtm_read :: "int \<Rightarrow> string \<Rightarrow> xtm \<Rightarrow> string" where
  "xtm_read t k s =
     (if \<not> xtm_isActive t s then []
      else case um_find (database s) k of None \<Rightarrow> [] | Some v \<Rightarrow> v)"

definition xtm_write :: "int \<Rightarrow> string \<Rightarrow> string \<Rightarrow> xtm \<Rightarrow> bool \<times> xtm" where
  "xtm_write t k v s =
     (if \<not> xtm_isActive t s then (False, s)
      else let (lock_status, ls) = xlock t k (locks s); s1 = s\<lparr>locks := ls\<rparr>
           in if \<not> lock_status then (False, s1)
              else (True, s1\<lparr>database := um_put k v (database s1)\<rparr>))"

definition xtm_commit :: "int \<Rightarrow> xtm \<Rightarrow> xtm" where
  "xtm_commit t s =
     (if \<not> xtm_isActive t s then s
      else s\<lparr>transactions := set_state t COMMITTED (transactions s), locks := xunlock t (locks s)\<rparr>)"

definition xtm_abort :: "int \<Rightarrow> xtm \<Rightarrow> xtm" where
  "xtm_abort t s =
     (if \<not> xtm_isActive t s then s
      else s\<lparr>transactions := set_state t ABORTED (transactions s), locks := xunlock t (locks s)\<rparr>)"

fun xtm_exec :: "txn_op \<Rightarrow> xtm \<Rightarrow> xtm" where
  "xtm_exec Begin s = snd (xtm_begin s)"
| "xtm_exec (Read t k) s = s"
| "xtm_exec (Write t k v) s = snd (xtm_write t k v s)"
| "xtm_exec (Commit t) s = xtm_commit t s"
| "xtm_exec (Abort t) s = xtm_abort t s"

section \<open>Lock ownership\<close>

definition xtm_ok :: "xtm \<Rightarrow> bool" where
  "xtm_ok s \<longleftrightarrow> um_ok (locks s) \<and>
     (\<forall>t. um_find (transactions s) t \<noteq> None \<longrightarrow> t < next_txn_id s) \<and>
     (\<forall>k t. um_find (locks s) k = Some t \<longrightarrow> xtm_isActive t s)"

lemma xunlock_find: "um_ok ls \<Longrightarrow>
    um_find (xunlock t ls) k = (if um_find ls k = Some t then None else um_find ls k)"
  unfolding um_ok_def
proof (induction ls)
  case (Cons p ls)
  obtain a b where p: "p = (a, b)" by (cases p)
  have "um_find ls a = None" using Cons.prems p by (auto simp: map_of_eq_None_iff)
  then show ?case using Cons p by (auto simp: xunlock_def)
qed (simp add: xunlock_def)

lemma xunlock_ok: "um_ok ls \<Longrightarrow> um_ok (xunlock t ls)"
  unfolding um_ok_def xunlock_def by (metis distinct_map_filter)

lemmas xtm_defs = xtm_isActive_def xtm_begin_def xtm_write_def xtm_commit_def xtm_abort_def
  set_state_def txn_new_def um_at_def xlock_def Let_def cxx_map

lemma xtm_ok_exec: "xtm_ok s \<Longrightarrow> xtm_ok (xtm_exec p s)"
proof (cases p)
  case Begin
  assume "xtm_ok s"
  then show ?thesis
    using Begin by (fastforce simp: xtm_ok_def xtm_defs split: if_splits option.splits)
next
  case (Write t k v)
  assume "xtm_ok s"
  then show ?thesis
    using Write by (auto simp: xtm_ok_def xtm_defs cxx_inv split: if_splits option.splits)
next
  case (Commit t)
  assume "xtm_ok s"
  then show ?thesis
    using Commit by (auto simp: xtm_ok_def xtm_defs xunlock_find xunlock_ok split: if_splits option.splits)
next
  case (Abort t)
  assume "xtm_ok s"
  then show ?thesis
    using Abort by (auto simp: xtm_ok_def xtm_defs xunlock_find xunlock_ok split: if_splits option.splits)
qed simp

definition xtm_holds :: "xtm \<Rightarrow> int \<Rightarrow> string \<Rightarrow> bool" where
  "xtm_holds s t k \<longleftrightarrow> um_find (locks s) k = Some t"

interpretation xtm: write_locked_store xtm_exec xtm_holds "\<lambda>s. um_find (database s)" xtm_ok
proof
  show "xtm_ok (xtm_exec p s)" if "xtm_ok s" for p s
    using that by (rule xtm_ok_exec)
  show "xtm_holds (xtm_exec p s) t k \<and> um_find (database (xtm_exec p s)) k = newest t k p (um_find (database s) k)"
    if "xtm_ok s" "xtm_holds s t k" "\<not> ends t p" for p s t k
  proof -
    have "xtm_isActive t s" using that(1,2) by (auto simp: xtm_ok_def xtm_holds_def)
    then show ?thesis using that by (cases p) (auto simp: xtm_ok_def xtm_holds_def xtm_defs xunlock_find)
  qed
qed

lemma xtm_ok_new: "xtm_ok xtm_new"
  by (simp add: xtm_new_def xtm_ok_def cxx_inv)

section \<open>Properties\<close>

text \<open>
  Write exclusion. After any history, let transaction \<open>t\<close> write key \<open>k\<close> successfully. Whatever then
  happens, until \<open>t\<close> commits or aborts, the database keeps the value \<open>t\<close> last wrote, \<open>t\<close> keeps the lock, and
  every attempt of another transaction to write \<open>k\<close> returns false.
\<close>

theorem xtm_write_exclusion:
  assumes "xtm_write t k v (fold xtm_exec hist xtm_new) = (True, s)"
    and "\<forall>p \<in> set ops. \<not> ends t p"
  shows "um_find (database (fold xtm_exec ops s)) k = fold (newest t k) ops (Some v) \<and>
    um_find (locks (fold xtm_exec ops s)) k = Some t \<and>
    (u \<noteq> t \<longrightarrow> fst (xtm_write u k w (fold xtm_exec ops s)) = False)"
proof -
  let ?h = "fold xtm_exec hist xtm_new"
  have s: "s = xtm_exec (Write t k v) ?h" using assms(1) by simp
  have ok: "xtm_ok s" unfolding s by (intro xtm_ok_exec xtm.ok_run xtm_ok_new)
  have "um_find (database s) k = Some v" "xtm_holds s t k"
    using assms(1) by (auto simp: xtm_holds_def xtm_defs split: if_splits)
  with xtm.held_run [OF ok _ assms(2), of k] show ?thesis
    by (auto simp: xtm_holds_def xtm_defs)
qed

theorem xtm_write_exclusion_witness:
  "\<exists>s. xtm_write 1 ''A'' ''100'' (fold xtm_exec [Begin, Begin] xtm_new) = (True, s) \<and>
    um_find (database (fold xtm_exec [Write 2 ''A'' ''7'', Commit 2, Begin] s)) ''A'' = Some ''100''"
proof -
  have "fst (xtm_write 1 ''A'' ''100'' (fold xtm_exec [Begin, Begin] xtm_new)) = True" by code_simp
  then obtain s where s: "xtm_write 1 ''A'' ''100'' (fold xtm_exec [Begin, Begin] xtm_new) = (True, s)"
    by (metis prod.collapse)
  have "\<forall>p \<in> set [Write 2 ''A'' ''7'', Commit 2, Begin]. \<not> ends 1 p" by simp
  from xtm_write_exclusion [OF s this] s show ?thesis by simp
qed

text \<open>
  Locks end with their transaction: after any history every lock is held by an active
  transaction, and a commit or an abort of an active transaction leaves it without locks and lets
  any other active transaction write the keys it held.
\<close>

theorem xtm_locks_released:
  assumes "s = fold xtm_exec hist xtm_new" and "e \<in> {xtm_commit t s, xtm_abort t s}"
  shows "(um_find (locks s) k = Some u \<longrightarrow> xtm_isActive u s) \<and>
    (xtm_isActive t s \<longrightarrow> um_find (locks e) k \<noteq> Some t \<and> \<not> xtm_isActive t e) \<and>
    (xtm_isActive t s \<longrightarrow> um_find (locks s) k = Some t \<longrightarrow> u \<noteq> t \<longrightarrow> xtm_isActive u s \<longrightarrow>
       fst (xtm_write u k v e) = True)"
proof -
  have "xtm_ok s" using assms(1) xtm.ok_run [OF xtm_ok_new, of hist] by simp
  then show ?thesis
    using assms(2) by (auto simp: xtm_ok_def xtm_defs xunlock_find split: if_splits)
qed

theorem xtm_locks_released_witness:
  "fst (xtm_write 2 ''A'' ''7'' (xtm_abort 1 (fold xtm_exec [Begin, Begin, Write 1 ''A'' ''5''] xtm_new))) = True"
proof -
  let ?s = "fold xtm_exec [Begin, Begin, Write 1 ''A'' ''5''] xtm_new"
  have "xtm_isActive 1 ?s \<and> xtm_isActive 2 ?s \<and> um_find (locks ?s) ''A'' = Some 1" by code_simp
  then show ?thesis
    using xtm_locks_released [of ?s "[Begin, Begin, Write 1 ''A'' ''5'']" "xtm_abort 1 ?s" 1 "''A''" 2 "''7''"]
    by simp
qed

end
