(* ===== verification/Txn_Strict2PL.thy ===== *)
theory Txn_Strict2PL
  imports Txn_Interface
begin

text \<open>
  The strict two-phase-locking transaction manager,
  \<^verbatim>\<open>database-internals/TransactionManager_withStrict2PL.cpp\<close>: shared locks for reads, exclusive locks for
  writes, all released at commit or abort, conflicting requests refused at once.
\<close>

record lock =
  shared_owners :: "int set"
  exclusive_owner :: int

definition no_lock :: lock where
  "no_lock = \<lparr>shared_owners = {}, exclusive_owner = -1\<rparr>"

type_synonym lock_table = "(string, lock) umap"

definition t2_acquire_shared_lock :: "int \<Rightarrow> string \<Rightarrow> lock_table \<Rightarrow> bool \<times> lock_table" where
  "t2_acquire_shared_lock t k lt0 =
     (let lt = um_touch no_lock k lt0; l = um_at no_lock lt k
      in if exclusive_owner l = -1 \<or> exclusive_owner l = t
         then (True, um_put k (l\<lparr>shared_owners := insert t (shared_owners l)\<rparr>) lt)
         else (False, lt))"

definition t2_acquire_exclusive_lock :: "int \<Rightarrow> string \<Rightarrow> lock_table \<Rightarrow> bool \<times> lock_table" where
  "t2_acquire_exclusive_lock t k lt0 =
     (let lt = um_touch no_lock k lt0; l = um_at no_lock lt k
      in if exclusive_owner l = t then (True, lt)
         else if exclusive_owner l \<noteq> -1 then (False, lt)
         else if shared_owners l \<noteq> {}
         then if card (shared_owners l) = 1 \<and> t \<in> shared_owners l then (True, lt) else (False, lt)
         else (True, um_put k (l\<lparr>exclusive_owner := t\<rparr>) lt))"

definition t2_release :: "int \<Rightarrow> lock \<Rightarrow> lock" where
  "t2_release t l =
     l\<lparr>shared_owners := shared_owners l - {t},
       exclusive_owner := (if exclusive_owner l = t then -1 else exclusive_owner l)\<rparr>"

definition t2_release_all_locks :: "int \<Rightarrow> lock_table \<Rightarrow> lock_table" where
  "t2_release_all_locks t lt = map (\<lambda>(k, l). (k, t2_release t l)) lt"

record t2m =
  next_txn_id :: int
  transactions :: "(int, txn) umap"
  database :: "(string, string) umap"
  lockManager :: lock_table

definition t2_new :: t2m where
  "t2_new = \<lparr>next_txn_id = 1, transactions = [], database = [], lockManager = []\<rparr>"

definition t2_isActive :: "int \<Rightarrow> t2m \<Rightarrow> bool" where
  "t2_isActive t s =
     (case um_find (transactions s) t of None \<Rightarrow> False | Some x \<Rightarrow> state x = ACTIVE)"

definition t2_beginTransaction :: "t2m \<Rightarrow> int \<times> t2m" where
  "t2_beginTransaction s =
     (let t = next_txn_id s
      in (t, s\<lparr>next_txn_id := t + 1, transactions := um_put t (txn_new t) (transactions s)\<rparr>))"

definition t2_read :: "int \<Rightarrow> string \<Rightarrow> t2m \<Rightarrow> string \<times> t2m" where
  "t2_read t k s =
     (if \<not> t2_isActive t s then ([], s)
      else let (granted, lt) = t2_acquire_shared_lock t k (lockManager s);
               s1 = s\<lparr>lockManager := lt\<rparr>
           in if \<not> granted then ([], s1)
              else (um_at [] (database s1) k, s1\<lparr>database := um_touch [] k (database s1)\<rparr>))"

definition t2_write :: "int \<Rightarrow> string \<Rightarrow> string \<Rightarrow> t2m \<Rightarrow> bool \<times> t2m" where
  "t2_write t k v s =
     (if \<not> t2_isActive t s then (False, s)
      else let (granted, lt) = t2_acquire_exclusive_lock t k (lockManager s);
               s1 = s\<lparr>lockManager := lt\<rparr>
           in if \<not> granted then (False, s1)
              else (True, s1\<lparr>database := um_put k v (database s1)\<rparr>))"

definition t2_commit :: "int \<Rightarrow> t2m \<Rightarrow> t2m" where
  "t2_commit t s =
     (if \<not> t2_isActive t s then s
      else s\<lparr>transactions := set_state t COMMITTED (transactions s),
             lockManager := t2_release_all_locks t (lockManager s)\<rparr>)"

definition t2_abort :: "int \<Rightarrow> t2m \<Rightarrow> t2m" where
  "t2_abort t s =
     (if \<not> t2_isActive t s then s
      else s\<lparr>transactions := set_state t ABORTED (transactions s),
             lockManager := t2_release_all_locks t (lockManager s)\<rparr>)"

fun t2_exec :: "txn_op \<Rightarrow> t2m \<Rightarrow> t2m" where
  "t2_exec Begin s = snd (t2_beginTransaction s)"
| "t2_exec (Read t k) s = snd (t2_read t k s)"
| "t2_exec (Write t k v) s = snd (t2_write t k v s)"
| "t2_exec (Commit t) s = t2_commit t s"
| "t2_exec (Abort t) s = t2_abort t s"

section \<open>The lock table\<close>

text \<open>
  An exclusive owner is the only possible shared owner, every owner is an active transaction, and
  the transaction numbers given out are positive and below the next one.
\<close>

definition lock_ok :: "(int \<Rightarrow> bool) \<Rightarrow> lock \<Rightarrow> bool" where
  "lock_ok act l \<longleftrightarrow> (exclusive_owner l \<noteq> -1 \<longrightarrow> shared_owners l \<subseteq> {exclusive_owner l} \<and> act (exclusive_owner l)) \<and>
     (\<forall>t \<in> shared_owners l. act t)"

definition t2_ok :: "t2m \<Rightarrow> bool" where
  "t2_ok s \<longleftrightarrow> 0 < next_txn_id s \<and>
     (\<forall>t. um_find (transactions s) t \<noteq> None \<longrightarrow> 0 < t \<and> t < next_txn_id s) \<and>
     (\<forall>k l. um_find (lockManager s) k = Some l \<longrightarrow> lock_ok (\<lambda>t. t2_isActive t s) l)"

lemma release_find: "um_find (t2_release_all_locks t lt) k = map_option (t2_release t) (um_find lt k)"
  unfolding t2_release_all_locks_def by (induction lt) auto

lemmas t2_defs = t2_beginTransaction_def t2_read_def t2_write_def t2_commit_def t2_abort_def
  t2_acquire_shared_lock_def t2_acquire_exclusive_lock_def no_lock_def
  um_at_def Let_def cxx_map release_find t2_release_def

lemmas t2_active_defs = t2_isActive_def set_state_def txn_new_def um_at_def cxx_map

lemma lock_ok_release:
  "lock_ok act l \<Longrightarrow> t \<noteq> -1 \<Longrightarrow> lock_ok (\<lambda>u. act u \<and> u \<noteq> t) (t2_release t l)"
  by (auto simp: lock_ok_def t2_release_def)

lemma lock_ok_mono: "lock_ok act l \<Longrightarrow> (\<And>u. act u \<Longrightarrow> act' u) \<Longrightarrow> lock_ok act' l"
  by (auto simp: lock_ok_def)

lemma t2_active_pos: "t2_ok s \<Longrightarrow> t2_isActive t s \<Longrightarrow> 0 < t \<and> t < next_txn_id s"
  by (auto simp: t2_ok_def t2_isActive_def split: option.splits)

definition table_ok :: "(int \<Rightarrow> bool) \<Rightarrow> lock_table \<Rightarrow> bool" where
  "table_ok act lt \<longleftrightarrow> (\<forall>k l. um_find lt k = Some l \<longrightarrow> lock_ok act l)"

lemma table_ok_touch: "table_ok act lt \<Longrightarrow> table_ok act (um_touch no_lock k lt) \<and>
    um_find (um_touch no_lock k lt) k = Some (um_at no_lock lt k) \<and> lock_ok act (um_at no_lock lt k)"
  by (auto simp: table_ok_def cxx_map um_at_def lock_ok_def no_lock_def split: option.splits)

lemma um_at_touch: "um_at d (um_touch d k m) k = um_at d m k"
  by (simp add: um_at_def cxx_map)

lemma table_ok_put: "table_ok act lt \<Longrightarrow> lock_ok act l \<Longrightarrow> table_ok act (um_put k l lt)"
  by (simp add: table_ok_def cxx_map)

lemma table_ok_shared:
  assumes "table_ok act lt" "act t"
  shows "table_ok act (snd (t2_acquire_shared_lock t k lt))"
proof -
  have "lock_ok act (l\<lparr>shared_owners := insert t (shared_owners l)\<rparr>)"
    if "lock_ok act l" "exclusive_owner l = -1 \<or> exclusive_owner l = t" for l
    using that assms(2) by (auto simp: lock_ok_def)
  then show ?thesis
    using table_ok_touch [OF assms(1), of k]
    by (auto simp: t2_acquire_shared_lock_def Let_def um_at_touch intro: table_ok_put)
qed

lemma table_ok_exclusive:
  assumes "table_ok act lt" "act t"
  shows "table_ok act (snd (t2_acquire_exclusive_lock t k lt))"
proof -
  have "lock_ok act (l\<lparr>exclusive_owner := t\<rparr>)" if "shared_owners l = {}" for l
    using that assms(2) by (auto simp: lock_ok_def)
  then show ?thesis
    using table_ok_touch [OF assms(1), of k]
    by (auto simp: t2_acquire_exclusive_lock_def Let_def um_at_touch intro: table_ok_put)
qed

lemma t2_ok_alt:
  "t2_ok s \<longleftrightarrow> 0 < next_txn_id s \<and>
     (\<forall>t. um_find (transactions s) t \<noteq> None \<longrightarrow> 0 < t \<and> t < next_txn_id s) \<and>
     table_ok (\<lambda>t. t2_isActive t s) (lockManager s)"
  by (simp add: t2_ok_def table_ok_def)

lemma t2_isActive_frame [simp]:
  "t2_isActive t (s\<lparr>lockManager := lt\<rparr>) = t2_isActive t s" "t2_isActive t (s\<lparr>database := d\<rparr>) = t2_isActive t s"
  by (simp_all add: t2_isActive_def)

lemma t2_ok_read: "t2_ok s \<Longrightarrow> t2_ok (snd (t2_read t k s))"
  using table_ok_shared [of "\<lambda>t. t2_isActive t s" "lockManager s" t k]
  by (auto simp: t2_read_def t2_ok_alt Let_def split: prod.splits)

lemma t2_ok_write: "t2_ok s \<Longrightarrow> t2_ok (snd (t2_write t k v s))"
  using table_ok_exclusive [of "\<lambda>t. t2_isActive t s" "lockManager s" t k]
  by (auto simp: t2_write_def t2_ok_alt Let_def split: prod.splits)

lemma t2_ok_finish:
  assumes ok: "t2_ok s" and act: "t2_isActive t s" and st: "st \<noteq> ACTIVE"
  shows "t2_ok (s\<lparr>transactions := set_state t st (transactions s),
    lockManager := t2_release_all_locks t (lockManager s)\<rparr>)" (is "t2_ok ?s")
proof -
  have t: "0 < t" "t < next_txn_id s" using t2_active_pos [OF ok act] by auto
  have act': "t2_isActive u ?s \<longleftrightarrow> t2_isActive u s \<and> u \<noteq> t" for u
    using st by (auto simp: t2_active_defs)
  have "lock_ok (\<lambda>u. t2_isActive u ?s) l'" if "um_find (lockManager ?s) k = Some l'" for k l'
    using that ok t lock_ok_release [of "\<lambda>u. t2_isActive u s"] unfolding act'
    by (auto simp: release_find t2_ok_def)
  moreover have "um_find (transactions ?s) u \<noteq> None \<longrightarrow> 0 < u \<and> u < next_txn_id ?s" for u
    using ok t by (auto simp: t2_ok_def set_state_def cxx_map)
  ultimately show ?thesis using ok by (auto simp: t2_ok_def)
qed

lemma t2_ok_begin:
  assumes ok: "t2_ok s"
  shows "t2_ok (snd (t2_beginTransaction s))" (is "t2_ok ?s")
proof -
  have "t2_isActive u ?s" if "t2_isActive u s" for u
    using that by (auto simp: t2_active_defs t2_beginTransaction_def Let_def)
  then have "lock_ok (\<lambda>u. t2_isActive u ?s) l" if "um_find (lockManager ?s) k = Some l" for k l
    using that ok lock_ok_mono [of "\<lambda>u. t2_isActive u s" l]
    by (auto simp: t2_ok_def t2_beginTransaction_def Let_def)
  moreover have "um_find (transactions ?s) u \<noteq> None \<longrightarrow> 0 < u \<and> u < next_txn_id ?s" for u
    using ok by (fastforce simp: t2_ok_def t2_beginTransaction_def Let_def cxx_map)
  moreover have "0 < next_txn_id ?s" using ok by (simp add: t2_ok_def t2_beginTransaction_def Let_def)
  ultimately show ?thesis unfolding t2_ok_def by blast
qed

lemma t2_ok_exec: "t2_ok s \<Longrightarrow> t2_ok (t2_exec p s)"
  by (cases p)
    (auto simp: t2_ok_begin t2_ok_read t2_ok_write t2_commit_def t2_abort_def intro!: t2_ok_finish)

lemma t2_ok_new: "t2_ok t2_new"
  by (simp add: t2_new_def t2_ok_def)

definition t2_holds :: "t2m \<Rightarrow> int \<Rightarrow> string \<Rightarrow> bool" where
  "t2_holds s t k \<longleftrightarrow> 0 < t \<and> exclusive_owner (um_at no_lock (lockManager s) k) = t \<and> um_find (database s) k \<noteq> None"

lemma t2_holder_active:
  assumes "t2_ok s" "t2_holds s t k"
  shows "t2_isActive t s"
proof (cases "um_find (lockManager s) k")
  case (Some l)
  then show ?thesis using assms by (auto simp: t2_ok_def t2_holds_def lock_ok_def um_at_def)
qed (use assms in \<open>auto simp: t2_holds_def um_at_def no_lock_def\<close>)

text \<open>
  The holder's own reads and writes go through and leave the exclusive lock in place; those of others
  are refused.
\<close>

lemma t2_held:
  assumes "t2_ok s" "t2_holds s t k" "\<not> ends t p"
  shows "t2_holds (t2_exec p s) t k \<and> um_find (database (t2_exec p s)) k = newest t k p (um_find (database s) k)"
  using assms t2_holder_active [OF assms(1,2)]
  by (cases p) (auto simp: t2_holds_def t2_defs split: if_splits option.splits)

interpretation t2: write_locked_store t2_exec t2_holds "\<lambda>s. um_find (database s)" t2_ok
  by unfold_locales (use t2_ok_exec t2_held in auto)

section \<open>Properties\<close>

text \<open>
  The strict lock table, after any history: the exclusive owner of a key is its only possible
  shared owner, every owner of a lock is an active transaction, and after the commit or abort of an
  active transaction it owns nothing.
\<close>

theorem t2_lock_table:
  assumes "s = fold t2_exec hist t2_new" and "um_find (lockManager s) k = Some l"
  shows "(exclusive_owner l \<noteq> -1 \<longrightarrow> shared_owners l \<subseteq> {exclusive_owner l} \<and> t2_isActive (exclusive_owner l) s) \<and>
    (\<forall>t \<in> shared_owners l. t2_isActive t s) \<and>
    (t2_isActive t s \<longrightarrow> (\<forall>e \<in> {t2_commit t s, t2_abort t s}. \<exists>l'. um_find (lockManager e) k = Some l' \<and>
       t \<notin> shared_owners l' \<and> exclusive_owner l' \<noteq> t))"
proof -
  have ok: "t2_ok s" using assms(1) t2.ok_run [OF t2_ok_new, of hist] by simp
  have "t2_isActive t s \<Longrightarrow> t \<noteq> -1" using t2_active_pos [OF ok, of t] by auto
  then show ?thesis
    using ok assms(2) by (auto simp: t2_ok_def lock_ok_def t2_commit_def t2_abort_def release_find t2_release_def)
qed

theorem t2_lock_table_witness:
  "\<exists>l. um_find (lockManager (fold t2_exec [Begin, Begin, Write 1 ''A'' ''5'', Read 1 ''A''] t2_new)) ''A'' = Some l \<and>
     shared_owners l \<subseteq> {1}"
proof -
  let ?h = "[Begin, Begin, Write 1 ''A'' ''5'', Read 1 ''A'']"
  let ?l = "\<lparr>shared_owners = {1}, exclusive_owner = 1\<rparr>"
  have l: "um_find (lockManager (fold t2_exec ?h t2_new)) ''A'' = Some ?l" by code_simp
  show ?thesis using t2_lock_table [OF refl l] l by simp
qed

text \<open>
  C28. Isolation of a fresh write: when a write leaves its transaction as the exclusive owner of the
  key, then through any sequence of operations of all transactions, the writer's own reads and writes
  included, and until the writer commits or aborts, the writer stays the exclusive owner, the key
  has the value the writer last wrote, and other transactions obtain no access to it: their reads
  return the empty string and their writes return false.
\<close>

theorem t2_write_isolation:
  assumes "t2_write t k v (fold t2_exec hist t2_new) = (True, s)"
    and "exclusive_owner (um_at no_lock (lockManager s) k) = t"
    and "\<forall>p \<in> set ops. \<not> ends t p" and "u \<noteq> t"
  shows "exclusive_owner (um_at no_lock (lockManager (fold t2_exec ops s)) k) = t \<and>
    um_find (database (fold t2_exec ops s)) k = fold (newest t k) ops (Some v) \<and>
    fst (t2_read u k (fold t2_exec ops s)) = [] \<and> fst (t2_write u k w (fold t2_exec ops s)) = False"
proof -
  let ?h = "fold t2_exec hist t2_new"
  have ok0: "t2_ok ?h" by (intro t2.ok_run t2_ok_new)
  have s: "s = t2_exec (Write t k v) ?h" using assms(1) by simp
  have ok: "t2_ok s" unfolding s by (intro t2_ok_exec ok0)
  have "t2_isActive t ?h" using assms(1) by (auto simp: t2_write_def split: if_splits)
  then have pos: "0 < t" using t2_active_pos [OF ok0] by simp
  moreover have v: "um_find (database s) k = Some v"
    using assms(1) by (auto simp: t2_defs split: if_splits)
  ultimately have "t2_holds s t k" using assms(2) by (simp add: t2_holds_def)
  from t2.held_run [OF ok this assms(3)]
  have "um_find (database (fold t2_exec ops s)) k = fold (newest t k) ops (Some v)" "t2_holds (fold t2_exec ops s) t k"
    by (simp_all add: v)
  then show ?thesis
    using assms(4) by (auto simp: t2_holds_def t2_defs split: option.splits)
qed

theorem t2_write_isolation_witness:
  "\<exists>s. t2_write 1 ''A'' ''5'' (fold t2_exec [Begin, Begin] t2_new) = (True, s) \<and>
     um_find (database (fold t2_exec [Read 2 ''A'', Read 1 ''A'', Write 1 ''A'' ''7'', Write 2 ''A'' ''6''] s)) ''A'' = Some ''7'' \<and>
     fst (t2_read 2 ''A'' (fold t2_exec [Read 2 ''A'', Read 1 ''A'', Write 1 ''A'' ''7'', Write 2 ''A'' ''6''] s)) = []"
proof -
  let ?r = "t2_write 1 ''A'' ''5'' (fold t2_exec [Begin, Begin] t2_new)"
  have "fst ?r = True" and own: "exclusive_owner (um_at no_lock (lockManager (snd ?r)) ''A'') = 1"
    by code_simp+
  then have r: "?r = (True, snd ?r)" by (metis prod.collapse)
  have "\<forall>p \<in> set [Read 2 ''A'', Read 1 ''A'', Write 1 ''A'' ''7'', Write 2 ''A'' ''6'']. \<not> ends 1 p" by simp
  from t2_write_isolation [OF r own this, of 2] r show ?thesis by (intro exI [of _ "snd ?r"]) simp
qed

text \<open>
  An upgrade takes no exclusive lock. When transaction 1 reads a key and then writes it, the
  write succeeds as a lock upgrade but the exclusive owner stays unset, so transaction 2 reads the
  uncommitted value, and keeps it after transaction 1 aborts.
\<close>

theorem t2_upgrade_dirty_read:
  "let s = fold t2_exec [Begin, Begin, Read 1 ''A'', Write 1 ''A'' ''500''] t2_new
   in t2_isActive 1 s \<and> exclusive_owner (um_at no_lock (lockManager s) ''A'') = -1 \<and>
      fst (t2_read 2 ''A'' s) = ''500'' \<and> fst (t2_read 2 ''A'' (t2_abort 1 s)) = ''500''"
  by code_simp

end
