(* ===== verification/MVCC.thy ===== *)
theory MVCC
  imports Cxx_Streams
begin

text \<open>
  The multi-version row of \<^verbatim>\<open>storage/MVCCvisibility.cpp\<close>: \<^verbatim>\<open>write\<close> closes the newest version and appends
  an open one, \<^verbatim>\<open>read\<close> finds the version visible at a timestamp by binary search.
\<close>

record RowVersion =
  rv_value :: string
  beginTimestamp :: int
  endTimestamp :: int

type_synonym MVCC_Row = "RowVersion list"

definition mvcc_write :: "string \<Rightarrow> int \<Rightarrow> MVCC_Row \<Rightarrow> MVCC_Row" where
  "mvcc_write v ts vs =
     (let vs1 = (if vs \<noteq> [] then vs[length vs - 1 := (last vs)\<lparr>endTimestamp := ts\<rparr>] else vs)
      in vs1 @ [\<lparr>rv_value = v, beginTimestamp = ts, endTimestamp = INT_MAX\<rparr>])"

function mvcc_search :: "MVCC_Row \<Rightarrow> int \<Rightarrow> int \<Rightarrow> int \<Rightarrow> int \<Rightarrow> int" where
  "mvcc_search vs ts lo hi candidate =
     (if lo \<le> hi
      then let mid = lo + (hi - lo) div 2
           in if beginTimestamp (vs ! nat mid) > ts then mvcc_search vs ts lo (mid - 1) candidate
              else mvcc_search vs ts (mid + 1) hi mid
      else candidate)"
  by pat_completeness auto
termination
  by (relation "measure (\<lambda>(vs, ts, lo, hi, c). nat (hi - lo + 1))") (auto simp: Let_def)

declare mvcc_search.simps [simp del]

definition mvcc_read :: "int \<Rightarrow> MVCC_Row \<Rightarrow> string" where
  "mvcc_read ts vs =
     (let candidate = mvcc_search vs ts 0 (int (length vs) - 1) (-1)
      in if candidate \<noteq> -1 \<and> ts < endTimestamp (vs ! nat candidate)
         then rv_value (vs ! nat candidate) else ''NOT VISIBLE!'')"

definition mvcc_run :: "(string \<times> int) list \<Rightarrow> MVCC_Row" where
  "mvcc_run ws = fold (\<lambda>(v, ts) vs. mvcc_write v ts vs) ws []"

section \<open>The version table\<close>

text \<open>The table that a list of writes leaves behind: each version ends where the next begins.\<close>

fun mvcc_table :: "(string \<times> int) list \<Rightarrow> MVCC_Row" where
  "mvcc_table [] = []"
| "mvcc_table [(v, ts)] = [\<lparr>rv_value = v, beginTimestamp = ts, endTimestamp = INT_MAX\<rparr>]"
| "mvcc_table ((v, ts) # (v', ts') # ws) =
     \<lparr>rv_value = v, beginTimestamp = ts, endTimestamp = ts'\<rparr> # mvcc_table ((v', ts') # ws)"

lemma mvcc_table_eq_Nil [simp]: "mvcc_table ws = [] \<longleftrightarrow> ws = []"
  by (induction ws rule: mvcc_table.induct) auto

lemma length_mvcc_table [simp]: "length (mvcc_table ws) = length ws"
  by (induction ws rule: mvcc_table.induct) auto

lemma mvcc_write_Cons:
  "vs \<noteq> [] \<Longrightarrow> mvcc_write v ts (x # vs) = x # mvcc_write v ts vs"
  by (cases vs rule: rev_cases) (auto simp: mvcc_write_def list_update_append split: nat.splits)

lemma mvcc_write_table: "mvcc_write v ts (mvcc_table ws) = mvcc_table (ws @ [(v, ts)])"
proof (induction ws rule: mvcc_table.induct)
  case (3 v0 ts0 v' ts' ws)
  then show ?case by (simp add: mvcc_write_Cons)
qed (simp_all add: mvcc_write_def)

lemma mvcc_run_table: "mvcc_run ws = mvcc_table ws"
proof (induction ws rule: rev_induct)
  case (snoc p ws)
  then show ?case by (cases p) (simp add: mvcc_run_def mvcc_write_table)
qed (simp add: mvcc_run_def)

lemma mvcc_table_nth:
  "i < length ws \<Longrightarrow> beginTimestamp (mvcc_table ws ! i) = snd (ws ! i) \<and> rv_value (mvcc_table ws ! i) = fst (ws ! i) \<and>
     endTimestamp (mvcc_table ws ! i) = (if Suc i < length ws then snd (ws ! Suc i) else INT_MAX)"
proof (induction ws arbitrary: i rule: mvcc_table.induct)
  case (3 v ts v' ts' ws)
  then show ?case by (cases i) auto
qed auto

section \<open>The search\<close>

text \<open>
  With increasing begin timestamps the search returns the last version that has begun, whatever the
  candidate so far, as long as everything before \<open>lo\<close> has begun and nothing after \<open>hi\<close> has.
\<close>

lemma mvcc_search_result:
  assumes "sorted (map beginTimestamp vs)" "0 \<le> lo" "hi < int (length vs)" "lo \<le> hi + 1"
    and "\<forall>i < length vs. int i < lo \<longrightarrow> beginTimestamp (vs ! i) \<le> ts"
    and "\<forall>i < length vs. hi < int i \<longrightarrow> ts < beginTimestamp (vs ! i)"
    and "c = lo - 1"
  shows "mvcc_search vs ts lo hi c = int (length (takeWhile (\<lambda>v. beginTimestamp v \<le> ts) vs)) - 1"
  using assms
proof (induction vs ts lo hi c rule: mvcc_search.induct)
  case (1 vs ts lo hi c)
  let ?mid = "lo + (hi - lo) div 2"
  show ?case
  proof (cases "lo \<le> hi")
    case True
    have mid: "lo \<le> ?mid" "?mid \<le> hi" "nat ?mid < length vs" using True "1.prems" by auto
    have sorted: "beginTimestamp (vs ! i) \<le> beginTimestamp (vs ! j)" if "i \<le> j" "j < length vs" for i j
      using sorted_nth_mono [OF "1.prems"(1), of i j] that by simp
    show ?thesis
    proof (cases "beginTimestamp (vs ! nat ?mid) > ts")
      case after: True
      have "\<forall>i < length vs. ?mid - 1 < int i \<longrightarrow> ts < beginTimestamp (vs ! i)"
      proof (intro allI impI)
        fix i assume i: "i < length vs" "?mid - 1 < int i"
        then have "nat ?mid \<le> i" by linarith
        from sorted [OF this i(1)] after show "ts < beginTimestamp (vs ! i)" by linarith
      qed
      with after True mid "1.IH"(1) [of ?mid] "1.prems" show ?thesis
        by (subst mvcc_search.simps) (simp add: Let_def)
    next
      case before: False
      have "\<forall>i < length vs. int i < ?mid + 1 \<longrightarrow> beginTimestamp (vs ! i) \<le> ts"
      proof (intro allI impI)
        fix i assume i: "i < length vs" "int i < ?mid + 1"
        then have "i \<le> nat ?mid" by linarith
        from sorted [OF this mid(3)] before show "beginTimestamp (vs ! i) \<le> ts" by linarith
      qed
      with before True mid "1.IH"(2) [of ?mid] "1.prems" show ?thesis
        by (subst mvcc_search.simps) (simp add: Let_def)
    qed
  next
    case False
    then have lo: "lo = hi + 1" using "1.prems" by simp
    have "length (takeWhile (\<lambda>v. beginTimestamp v \<le> ts) vs) = nat lo"
    proof -
      have "takeWhile (\<lambda>v. beginTimestamp v \<le> ts) vs = take (nat lo) vs"
        using "1.prems" lo by (intro takeWhile_eq_take_P_nth) (auto simp: not_le)
      then show ?thesis using "1.prems" lo by simp
    qed
    then show ?thesis using False "1.prems" lo by (subst mvcc_search.simps) simp
  qed
qed

lemma mvcc_search_last:
  "sorted (map beginTimestamp vs) \<Longrightarrow>
     mvcc_search vs ts 0 (int (length vs) - 1) (-1) = int (length (takeWhile (\<lambda>v. beginTimestamp v \<le> ts) vs)) - 1"
  by (rule mvcc_search_result) auto

lemma takeWhile_table:
  "length (takeWhile (\<lambda>v. beginTimestamp v \<le> ts) (mvcc_table ws)) = length (takeWhile (\<lambda>w. snd w \<le> ts) ws)"
  by (induction ws rule: mvcc_table.induct) auto

lemma map_begin_table: "map beginTimestamp (mvcc_table ws) = map snd ws"
  by (induction ws rule: mvcc_table.induct) auto

text \<open>
  The reference: the value of the latest write at or before the timestamp.
\<close>

definition snapshot :: "int \<Rightarrow> (string \<times> int) list \<Rightarrow> string" where
  "snapshot ts ws =
     (case filter (\<lambda>w. snd w \<le> ts) ws of [] \<Rightarrow> ''NOT VISIBLE!'' | ws' \<Rightarrow> fst (last ws'))"

lemma takeWhile_sorted_filter:
  "sorted (map snd ws) \<Longrightarrow> filter (\<lambda>w. snd w \<le> (ts::int)) ws = takeWhile (\<lambda>w. snd w \<le> ts) ws"
proof (induction ws)
  case (Cons p ws)
  show ?case
  proof (cases "snd p \<le> ts")
    case True
    then show ?thesis using Cons by simp
  next
    case False
    then have "filter (\<lambda>w. snd w \<le> ts) (p # ws) = []"
      using Cons.prems by (auto simp: filter_empty_conv)
    with False show ?thesis by simp
  qed
qed simp

section \<open>Properties\<close>

text \<open>
  C22. Snapshot reads. After any sequence of writes with non-decreasing timestamps, a read at a
  timestamp below \<^verbatim>\<open>INT_MAX\<close> returns the value of the latest write at or before it, and
  \<^verbatim>\<open>NOT VISIBLE!\<close> if there is none: the binary search agrees with a linear scan.
\<close>

theorem mvcc_snapshot_read:
  assumes "sorted (map snd ws)" and "ts < INT_MAX"
  shows "mvcc_read ts (mvcc_run ws) = snapshot ts ws"
proof -
  let ?t = "takeWhile (\<lambda>w. snd w \<le> ts) ws" and ?n = "length (takeWhile (\<lambda>w. snd w \<le> ts) ws)"
  have c: "mvcc_search (mvcc_table ws) ts 0 (int (length (mvcc_table ws)) - 1) (-1) = int ?n - 1"
    using mvcc_search_last [of "mvcc_table ws" ts] assms(1) by (simp add: map_begin_table takeWhile_table)
  show ?thesis
  proof (cases "?n = 0")
    case True
    then show ?thesis
      using c assms(1) by (simp add: mvcc_run_table mvcc_read_def snapshot_def takeWhile_sorted_filter)
  next
    case False
    then have n: "nat (int ?n - 1) = ?n - 1" "?n - 1 < length ws"
      using length_takeWhile_le [of "\<lambda>w. snd w \<le> ts" ws] by linarith+
    have last: "last ?t = ws ! (?n - 1)"
      using False by (simp add: last_conv_nth takeWhile_nth)
    have "ts < (if ?n < length ws then snd (ws ! ?n) else INT_MAX)"
      using assms(2) nth_length_takeWhile [of "\<lambda>w. snd w \<le> ts" ws] by auto
    then have e: "ts < endTimestamp (mvcc_table ws ! (?n - 1))" "rv_value (mvcc_table ws ! (?n - 1)) = fst (last ?t)"
      using mvcc_table_nth [OF n(2)] False last by (auto simp: Suc_diff_Suc)
    have "int ?n - 1 \<noteq> -1" using False by linarith
    then have "mvcc_read ts (mvcc_run ws) = fst (last ?t)"
      using e by (simp only: mvcc_run_table mvcc_read_def c n Let_def simp_thms if_True)
    moreover have "snapshot ts ws = fst (last ?t)"
      using False assms(1) by (cases ?t) (auto simp: snapshot_def takeWhile_sorted_filter)
    ultimately show ?thesis by simp
  qed
qed

theorem mvcc_snapshot_read_witness:
  "mvcc_read 7 (mvcc_run [(''Alice'', 1), (''Bob'', 5), (''Charlie'', 10)]) = ''Bob''"
  using mvcc_snapshot_read [of "[(''Alice'', 1), (''Bob'', 5), (''Charlie'', 10)]" 7]
  by (simp add: snapshot_def INT_MAX_def)

end
