(* ===== verification/Snapshots.thy ===== *)
theory Snapshots
  imports Prelude
begin

text \<open>
  The copy-on-write snapshot managers \<^verbatim>\<open>storage/SnapshotManager.cpp\<close> and \<^verbatim>\<open>storage/RestoreEngine.cpp\<close>: a
  file is a list of immutable blocks, snapshots share blocks, and reference counts decide when a
  block is freed. Following a pointer looked up under an absent block number is undefined behaviour
  in C++ (a null pointer); every operation returns \<^const>\<open>None\<close> there.
\<close>

record Block =
  blk_id :: int
  data :: string
  ref_count :: int

record Snapshot =
  version :: int
  block_ids :: "int list"

record snapman =
  next_block_id :: int
  next_version :: int
  blockStore :: "(int, Block) umap"
  snapshots :: "(int, Snapshot) umap"
  current_blocks :: "int list"

definition block_new :: "int \<Rightarrow> string \<Rightarrow> Block" where
  "block_new i d = \<lparr>blk_id = i, data = d, ref_count = 1\<rparr>"

definition snap_new :: snapman where
  "snap_new = \<lparr>next_block_id = 1, next_version = 1, blockStore = [], snapshots = [], current_blocks = []\<rparr>"

definition snap_write :: "string \<Rightarrow> snapman \<Rightarrow> snapman" where
  "snap_write d s =
     (let b = block_new (next_block_id s) d
      in s\<lparr>next_block_id := next_block_id s + 1,
           blockStore := um_put (blk_id b) b (blockStore s),
           current_blocks := current_blocks s @ [blk_id b]\<rparr>)"

fun read_blocks :: "(int, Block) umap \<Rightarrow> int list \<Rightarrow> string list option" where
  "read_blocks st [] = Some []"
| "read_blocks st (i # is) =
     (case um_find st i of None \<Rightarrow> None | Some b \<Rightarrow> map_option ((#) (data b)) (read_blocks st is))"

definition snap_readCurrentFile :: "snapman \<Rightarrow> string list option" where
  "snap_readCurrentFile s = read_blocks (blockStore s) (current_blocks s)"

fun incrementRefCount :: "int list \<Rightarrow> (int, Block) umap \<Rightarrow> (int, Block) umap option" where
  "incrementRefCount [] st = Some st"
| "incrementRefCount (i # is) st =
     (case um_find st i of
        None \<Rightarrow> None
      | Some b \<Rightarrow> incrementRefCount is (um_put i (b\<lparr>ref_count := ref_count b + 1\<rparr>) st))"

fun decrementRefCount :: "int list \<Rightarrow> (int, Block) umap \<Rightarrow> (int, Block) umap option" where
  "decrementRefCount [] st = Some st"
| "decrementRefCount (i # is) st =
     (case um_find st i of
        None \<Rightarrow> None
      | Some b \<Rightarrow>
          let b' = b\<lparr>ref_count := ref_count b - 1\<rparr>; st' = um_put i b' st
          in decrementRefCount is (if ref_count b' = 0 then um_erase i st' else st'))"

definition snap_createSnapshot :: "snapman \<Rightarrow> (int \<times> snapman) option" where
  "snap_createSnapshot s =
     (let v = next_version s;
          s1 = s\<lparr>next_version := v + 1,
                 snapshots := um_put v \<lparr>version = v, block_ids = current_blocks s\<rparr> (snapshots s)\<rparr>
      in case incrementRefCount (current_blocks s1) (blockStore s1) of
           None \<Rightarrow> None
         | Some st \<Rightarrow> Some (v, s1\<lparr>blockStore := st\<rparr>))"

definition snap_restoreSnapshot :: "int \<Rightarrow> snapman \<Rightarrow> snapman option" where
  "snap_restoreSnapshot v s =
     (case um_find (snapshots s) v of
        None \<Rightarrow> Some s
      | Some sn \<Rightarrow>
          (case decrementRefCount (current_blocks s) (blockStore s) of
             None \<Rightarrow> None
           | Some st \<Rightarrow>
               let cur = block_ids sn
               in case incrementRefCount cur st of
                    None \<Rightarrow> None
                  | Some st' \<Rightarrow> Some (s\<lparr>current_blocks := cur, blockStore := st'\<rparr>)))"

definition snap_deleteSnapshot :: "int \<Rightarrow> snapman \<Rightarrow> snapman option" where
  "snap_deleteSnapshot v s =
     (case um_find (snapshots s) v of
        None \<Rightarrow> Some s
      | Some sn \<Rightarrow>
          (case decrementRefCount (block_ids sn) (blockStore s) of
             None \<Rightarrow> None
           | Some st \<Rightarrow> Some (s\<lparr>blockStore := st, snapshots := um_erase v (snapshots s)\<rparr>)))"

text \<open>Reading a version prints its blocks, or the message when there is no such version.\<close>

definition snap_readSnapshot :: "int \<Rightarrow> snapman \<Rightarrow> (string + string list) option" where
  "snap_readSnapshot v s =
     (case um_find (snapshots s) v of
        None \<Rightarrow> Some (Inl ''Snapshot NOT FOUND'')
      | Some sn \<Rightarrow> map_option Inr (read_blocks (blockStore s) (block_ids sn)))"

definition snap_listSnapshots :: "snapman \<Rightarrow> int list" where
  "snap_listSnapshots s = map fst (snapshots s)"

definition snap_printBlockStore :: "snapman \<Rightarrow> (int \<times> string \<times> int) list" where
  "snap_printBlockStore s = map (\<lambda>(i, b). (i, data b, ref_count b)) (blockStore s)"

text \<open>
  The restore engine repeats the class with a progress report: after the blocks are switched, one
  percentage per restored block is printed.
\<close>

definition restore_progress :: "int list \<Rightarrow> int list" where
  "restore_progress bs = (let total = length bs in map (\<lambda>r. int (r * 100 div total)) [1..<total + 1])"

text \<open>Its other members have the text of the snapshot manager.\<close>

definition re_write :: "string \<Rightarrow> snapman \<Rightarrow> snapman" where
  "re_write = snap_write"

definition re_readCurrentFile :: "snapman \<Rightarrow> string list option" where
  "re_readCurrentFile = snap_readCurrentFile"

definition re_incrementRefCount :: "int list \<Rightarrow> (int, Block) umap \<Rightarrow> (int, Block) umap option" where
  "re_incrementRefCount = incrementRefCount"

definition re_decrementRefCount :: "int list \<Rightarrow> (int, Block) umap \<Rightarrow> (int, Block) umap option" where
  "re_decrementRefCount = decrementRefCount"

definition re_createSnapshot :: "snapman \<Rightarrow> (int \<times> snapman) option" where
  "re_createSnapshot = snap_createSnapshot"

definition re_deleteSnapshot :: "int \<Rightarrow> snapman \<Rightarrow> snapman option" where
  "re_deleteSnapshot = snap_deleteSnapshot"

definition re_readSnapshot :: "int \<Rightarrow> snapman \<Rightarrow> (string + string list) option" where
  "re_readSnapshot = snap_readSnapshot"

definition re_listSnapshots :: "snapman \<Rightarrow> int list" where
  "re_listSnapshots = snap_listSnapshots"

definition re_printBlockStore :: "snapman \<Rightarrow> (int \<times> string \<times> int) list" where
  "re_printBlockStore = snap_printBlockStore"

definition re_restoreSnapshot :: "int \<Rightarrow> snapman \<Rightarrow> (int list \<times> snapman) option" where
  "re_restoreSnapshot v s =
     (case um_find (snapshots s) v of
        None \<Rightarrow> Some ([], s)
      | Some sn \<Rightarrow>
          (case re_decrementRefCount (current_blocks s) (blockStore s) of
             None \<Rightarrow> None
           | Some st \<Rightarrow>
               let cur = block_ids sn
               in case re_incrementRefCount cur st of
                    None \<Rightarrow> None
                  | Some st' \<Rightarrow> Some (restore_progress cur, s\<lparr>current_blocks := cur, blockStore := st'\<rparr>)))"

datatype snap_op = SWrite string | SCreate | SRestore int | SDelete int

fun snap_exec :: "snap_op \<Rightarrow> snapman \<Rightarrow> snapman option" where
  "snap_exec (SWrite d) s = Some (snap_write d s)"
| "snap_exec SCreate s = map_option snd (snap_createSnapshot s)"
| "snap_exec (SRestore v) s = snap_restoreSnapshot v s"
| "snap_exec (SDelete v) s = snap_deleteSnapshot v s"

fun snap_run :: "snap_op list \<Rightarrow> snapman \<Rightarrow> snapman option" where
  "snap_run [] s = Some s"
| "snap_run (p # ps) s = (case snap_exec p s of None \<Rightarrow> None | Some s' \<Rightarrow> snap_run ps s')"

text \<open>The restore engine goes through the same states.\<close>

fun re_exec :: "snap_op \<Rightarrow> snapman \<Rightarrow> snapman option" where
  "re_exec (SWrite d) s = Some (re_write d s)"
| "re_exec SCreate s = map_option snd (re_createSnapshot s)"
| "re_exec (SRestore v) s = map_option snd (re_restoreSnapshot v s)"
| "re_exec (SDelete v) s = re_deleteSnapshot v s"

lemma re_exec_snap: "re_exec p s = snap_exec p s"
  by (cases p) (simp_all add: re_write_def re_createSnapshot_def re_deleteSnapshot_def re_restoreSnapshot_def snap_restoreSnapshot_def
      re_incrementRefCount_def re_decrementRefCount_def Let_def split: option.splits)

section \<open>Reference counting\<close>

text \<open>
  \<open>counts st c\<close>: the store holds exactly the blocks with a positive count, each with that count.
  \<open>keeps st st'\<close>: blocks that survive keep their data.
\<close>

definition counts :: "(int, Block) umap \<Rightarrow> (int \<Rightarrow> nat) \<Rightarrow> bool" where
  "counts st c \<longleftrightarrow>
     (\<forall>i. um_find st i = None \<longrightarrow> c i = 0) \<and>
     (\<forall>i b. um_find st i = Some b \<longrightarrow> 0 < c i \<and> ref_count b = int (c i))"

definition keeps :: "(int, Block) umap \<Rightarrow> (int, Block) umap \<Rightarrow> bool" where
  "keeps st st' \<longleftrightarrow> (\<forall>i b b'. um_find st i = Some b \<longrightarrow> um_find st' i = Some b' \<longrightarrow> data b' = data b)"

lemma counts_Some: "counts st c \<Longrightarrow> 0 < c i \<Longrightarrow> \<exists>b. um_find st i = Some b \<and> ref_count b = int (c i)"
  by (cases "um_find st i") (auto simp: counts_def)

lemma counts_put:
  "counts st c \<Longrightarrow> 0 < n \<Longrightarrow> ref_count b = int n \<Longrightarrow> counts (um_put i b st) (c(i := n))"
  by (auto simp: counts_def cxx_map)

lemma counts_erase: "counts st c \<Longrightarrow> counts (um_erase i st) (c(i := 0))"
  by (auto simp: counts_def cxx_map)

lemma keeps_refl: "keeps st st"
  by (simp add: keeps_def)

lemma keepsD: "keeps st st' \<Longrightarrow> um_find st i = Some b \<Longrightarrow> um_find st' i = Some b' \<Longrightarrow> data b' = data b"
  unfolding keeps_def by blast

lemma keeps_put:
  assumes "keeps (um_put i b' st) st'" "um_find st i = Some b" "data b' = data b"
  shows "keeps st st'"
  unfolding keeps_def
proof (intro allI impI)
  fix j c c'
  assume j: "um_find st j = Some c" "um_find st' j = Some c'"
  show "data c' = data c"
  proof (cases "j = i")
    case True
    then have "um_find (um_put i b' st) j = Some b'" "c = b" using assms(2) j(1) by (simp_all add: cxx_map)
    then show ?thesis using keepsD [OF assms(1) _ j(2)] assms(3) by simp
  next
    case False
    then have "um_find (um_put i b' st) j = Some c" using j by (simp add: cxx_map)
    then show ?thesis by (rule keepsD [OF assms(1) _ j(2)])
  qed
qed

lemma keeps_erase:
  assumes "keeps (um_erase i st) st'" "dom (um_find st') \<subseteq> dom (um_find (um_erase i st))"
  shows "keeps st st'"
  unfolding keeps_def
proof (intro allI impI)
  fix j c c'
  assume j: "um_find st j = Some c" "um_find st' j = Some c'"
  then have "j \<in> dom (um_find (um_erase i st))" using assms(2) by blast
  then have "um_find (um_erase i st) j = Some c" using j by (auto simp: cxx_map split: if_splits)
  then show "data c' = data c" by (rule keepsD [OF assms(1) _ j(2)])
qed

lemma increment_ok:
  assumes "counts st c" "\<forall>i \<in> set is. 0 < c i"
  shows "\<exists>st'. incrementRefCount is st = Some st' \<and> counts st' (\<lambda>i. c i + count_list is i) \<and>
    keeps st st' \<and> dom (um_find st') = dom (um_find st)"
  using assms
proof (induction "is" arbitrary: st c)
  case Nil
  then show ?case by (simp add: keeps_refl)
next
  case (Cons i "is")
  obtain b where b: "um_find st i = Some b" "ref_count b = int (c i)"
    using counts_Some [OF Cons.prems(1)] Cons.prems(2) by auto
  let ?st = "um_put i (b\<lparr>ref_count := ref_count b + 1\<rparr>) st"
  have "counts ?st (c(i := Suc (c i)))"
    using b by (intro counts_put Cons.prems(1)) auto
  moreover have "\<forall>j \<in> set is. 0 < (c(i := Suc (c i))) j" using Cons.prems(2) by simp
  ultimately obtain st' where st': "incrementRefCount is ?st = Some st'"
    "counts st' (\<lambda>j. (c(i := Suc (c i))) j + count_list is j)" "keeps ?st st'" "dom (um_find st') = dom (um_find ?st)"
    using Cons.IH by blast
  have eq: "(\<lambda>j. (c(i := Suc (c i))) j + count_list is j) = (\<lambda>j. c j + count_list (i # is) j)" by auto
  have "keeps st st'" using keeps_put [OF st'(3) b(1)] by simp
  moreover have "dom (um_find st') = dom (um_find st)" using st'(4) b(1) by (simp add: cxx_map insert_absorb domI)
  moreover have "incrementRefCount (i # is) st = Some st'" using st'(1) b by simp
  ultimately show ?case using st'(2) unfolding eq by blast
qed

lemma decrement_ok:
  assumes "counts st c" "\<forall>i. count_list is i \<le> c i"
  shows "\<exists>st'. decrementRefCount is st = Some st' \<and> counts st' (\<lambda>i. c i - count_list is i) \<and>
    keeps st st' \<and> dom (um_find st') \<subseteq> dom (um_find st)"
  using assms
proof (induction "is" arbitrary: st c)
  case Nil
  then show ?case by (simp add: keeps_refl)
next
  case (Cons i "is")
  have pos: "0 < c i" using Cons.prems(2) [rule_format, of i] by simp
  then obtain b where b: "um_find st i = Some b" "ref_count b = int (c i)"
    using counts_Some [OF Cons.prems(1)] by auto
  let ?b = "b\<lparr>ref_count := ref_count b - 1\<rparr>"
  let ?st = "if ref_count ?b = 0 then um_erase i (um_put i ?b st) else um_put i ?b st"
  have c': "counts ?st (c(i := c i - 1))"
  proof (cases "c i = 1")
    case True
    have eq: "um_find (um_erase i (um_put i ?b st)) = um_find (um_erase i st)" by (simp add: cxx_map)
    have "counts (um_erase i (um_put i ?b st)) (c(i := 0))"
      using counts_erase [OF Cons.prems(1), of i] unfolding counts_def eq .
    then show ?thesis using True b by simp
  next
    case False
    then have "counts (um_put i ?b st) (c(i := c i - 1))"
      using b pos by (intro counts_put Cons.prems(1)) auto
    then show ?thesis using False b pos by simp
  qed
  have le: "\<forall>j. count_list is j \<le> (c(i := c i - 1)) j"
  proof
    fix j show "count_list is j \<le> (c(i := c i - 1)) j"
      using Cons.prems(2) [rule_format, of j] by (auto split: if_splits)
  qed
  obtain st' where st': "decrementRefCount is ?st = Some st'"
    "counts st' (\<lambda>j. (c(i := c i - 1)) j - count_list is j)" "keeps ?st st'" "dom (um_find st') \<subseteq> dom (um_find ?st)"
    using Cons.IH [OF c' le] by blast
  have "decrementRefCount (i # is) st = Some st'" using st'(1) b(1) by (simp only: decrementRefCount.simps option.case Let_def)
  moreover have "counts st' (\<lambda>j. c j - count_list (i # is) j)"
  proof -
    have "(\<lambda>j. (c(i := c i - 1)) j - count_list is j) = (\<lambda>j. c j - count_list (i # is) j)" by auto
    then show ?thesis using st'(2) by simp
  qed
  moreover have "keeps st st'"
  proof (cases "ref_count ?b = 0")
    case True
    then have "keeps (um_put i ?b st) st'" using keeps_erase [of i "um_put i ?b st" st'] st'(3,4) by simp
    then show ?thesis by (rule keeps_put [OF _ b(1)]) simp
  next
    case False
    then show ?thesis using keeps_put [of i ?b st st', OF _ b(1)] st'(3) by simp
  qed
  moreover have "dom (um_find ?st) \<subseteq> dom (um_find st)" using b(1) by (simp add: cxx_map domI)
  ultimately show ?case using st'(4) by blast
qed

lemma keeps_trans:
  assumes "keeps st st1" "keeps st1 st2" "dom (um_find st2) = dom (um_find st1)"
  shows "keeps st st2"
  unfolding keeps_def
proof (intro allI impI)
  fix j c c'
  assume j: "um_find st j = Some c" "um_find st2 j = Some c'"
  then obtain d where d: "um_find st1 j = Some d" using assms(3) by blast
  show "data c' = data c" using keepsD [OF assms(1) j(1) d] keepsD [OF assms(2) d j(2)] by simp
qed

lemma read_blocks_keeps:
  assumes "keeps st st'" "set is \<subseteq> dom (um_find st)" "set is \<subseteq> dom (um_find st')"
  shows "read_blocks st' is = read_blocks st is"
  using assms(2,3)
proof (induction "is")
  case (Cons i "is")
  then obtain b b' where b: "um_find st i = Some b" "um_find st' i = Some b'" by auto
  then show ?case using Cons keepsD [OF assms(1) b] by simp
qed simp

lemma read_blocks_total: "set is \<subseteq> dom (um_find st) \<Longrightarrow> \<exists>ds. read_blocks st is = Some ds"
  by (induction "is") auto

section \<open>The invariant: counts are the references held by the file and the snapshots\<close>

definition refs_of :: "(int, Snapshot) umap \<Rightarrow> int \<Rightarrow> nat" where
  "refs_of sns i = um_sum (\<lambda>sn. count_list (block_ids sn) i) sns"

definition refs :: "snapman \<Rightarrow> int \<Rightarrow> nat" where
  "refs s i = count_list (current_blocks s) i + refs_of (snapshots s) i"

definition snap_inv :: "snapman \<Rightarrow> bool" where
  "snap_inv s \<longleftrightarrow> counts (blockStore s) (refs s) \<and> um_ok (snapshots s) \<and>
     (\<forall>v \<in> dom (um_find (snapshots s)). v < next_version s) \<and>
     (\<forall>i \<in> dom (um_find (blockStore s)). i < next_block_id s)"

lemma refs_of_put:
  "um_find sns v = None \<Longrightarrow> refs_of (um_put v sn sns) i = refs_of sns i + count_list (block_ids sn) i"
  by (simp add: refs_of_def um_sum_put_new)

lemma refs_of_erase:
  assumes "um_ok sns" "um_find sns v = Some sn"
  shows "refs_of sns i = count_list (block_ids sn) i + refs_of (um_erase v sns) i"
  unfolding refs_of_def by (rule um_sum_erase [OF assms])

lemma refs_of_le: "um_ok sns \<Longrightarrow> um_find sns v = Some sn \<Longrightarrow> count_list (block_ids sn) i \<le> refs_of sns i"
  using refs_of_erase [of sns v sn i] by simp

lemma counts_dom: "counts st c \<Longrightarrow> i \<in> dom (um_find st) \<longleftrightarrow> 0 < c i"
  using counts_Some [of st c i] by (auto simp: counts_def)

lemma count_list_pos: "0 < count_list xs x \<longleftrightarrow> x \<in> set xs"
  by (metis count_list_0_iff not_gr_zero)

lemma snap_inv_current: "snap_inv s \<Longrightarrow> set (current_blocks s) \<subseteq> dom (um_find (blockStore s))"
  using counts_dom by (fastforce simp: snap_inv_def refs_def count_list_pos)

lemma snap_inv_snapshot:
  assumes "snap_inv s" "um_find (snapshots s) v = Some sn"
  shows "set (block_ids sn) \<subseteq> dom (um_find (blockStore s))"
proof
  fix i assume "i \<in> set (block_ids sn)"
  then have "0 < refs_of (snapshots s) i"
    using refs_of_le [of "snapshots s" v sn i] assms by (simp add: snap_inv_def flip: count_list_pos)
  then show "i \<in> dom (um_find (blockStore s))"
    using assms(1) counts_dom [of "blockStore s" "refs s" i] by (simp add: snap_inv_def refs_def)
qed

lemma snap_inv_new: "snap_inv snap_new"
  by (simp add: snap_inv_def snap_new_def counts_def refs_def refs_of_def um_ok_def)

text \<open>A step keeps the invariant, the data of surviving blocks, and every snapshot it does not delete.\<close>

definition snap_sim :: "snapman \<Rightarrow> snapman \<Rightarrow> int set \<Rightarrow> bool" where
  "snap_sim s s' D \<longleftrightarrow> snap_inv s' \<and> keeps (blockStore s) (blockStore s') \<and>
     (\<forall>v sn. um_find (snapshots s) v = Some sn \<longrightarrow> v \<notin> D \<longrightarrow> um_find (snapshots s') v = Some sn)"

lemma ball_less_add1: "\<forall>i \<in> A. i < n \<Longrightarrow> \<forall>i \<in> A. i < n + (1 :: int)"
  by force

lemma snap_write_ok:
  assumes "snap_inv s"
  shows "snap_sim s (snap_write d s) {}"
proof -
  let ?i = "next_block_id s"
  have fresh: "um_find (blockStore s) ?i = None"
    using assms by (cases "um_find (blockStore s) ?i") (auto simp: snap_inv_def)
  have zero: "refs s ?i = 0" using fresh assms by (simp add: snap_inv_def counts_def)
  have "counts (um_put ?i (block_new ?i d) (blockStore s)) ((refs s)(?i := 1))"
    using assms by (intro counts_put) (simp_all add: snap_inv_def block_new_def)
  moreover have "(refs s)(?i := 1) = refs (snap_write d s)"
    using zero by (auto simp: refs_def snap_write_def block_new_def)
  moreover have "keeps (blockStore s) (um_put ?i (block_new ?i d) (blockStore s))"
    using fresh by (auto simp: keeps_def cxx_map)
  moreover have "\<forall>i \<in> dom (um_find (blockStore s)). i < ?i + 1"
    using assms by (intro ball_less_add1) (simp add: snap_inv_def)
  ultimately show ?thesis
    using assms by (simp add: snap_sim_def snap_inv_def snap_write_def block_new_def cxx_map)
qed

lemma snap_create_ok:
  assumes "snap_inv s"
  shows "\<exists>s'. snap_createSnapshot s = Some (next_version s, s') \<and> snap_sim s s' {} \<and>
    um_find (snapshots s') (next_version s) = Some \<lparr>version = next_version s, block_ids = current_blocks s\<rparr>"
proof -
  let ?v = "next_version s" and ?sn = "\<lparr>version = next_version s, block_ids = current_blocks s\<rparr>"
  have fresh: "um_find (snapshots s) ?v = None"
    using assms by (cases "um_find (snapshots s) ?v") (auto simp: snap_inv_def)
  have c: "counts (blockStore s) (refs s)" using assms by (simp add: snap_inv_def)
  have "\<forall>i \<in> set (current_blocks s). 0 < refs s i" by (simp add: refs_def count_list_pos)
  from increment_ok [OF c this] obtain st where
    st: "incrementRefCount (current_blocks s) (blockStore s) = Some st"
      "counts st (\<lambda>i. refs s i + count_list (current_blocks s) i)"
      "keeps (blockStore s) st" "dom (um_find st) = dom (um_find (blockStore s))" by blast
  let ?s = "s\<lparr>next_version := ?v + 1, snapshots := um_put ?v ?sn (snapshots s), blockStore := st\<rparr>"
  have "refs ?s = (\<lambda>i. refs s i + count_list (current_blocks s) i)"
    using fresh by (auto simp: refs_def refs_of_put)
  moreover have "\<forall>v \<in> dom (um_find (snapshots s)). v < ?v + 1"
    using assms by (intro ball_less_add1) (simp add: snap_inv_def)
  ultimately have "snap_inv ?s"
    using assms st(2,4) by (simp add: snap_inv_def cxx_inv cxx_map)
  moreover have "um_find (snapshots ?s) v = Some sn" if "um_find (snapshots s) v = Some sn" for v sn
    using that fresh by (auto simp: cxx_map)
  ultimately have "snap_sim s ?s {}" using st(3) by (simp add: snap_sim_def)
  moreover have "snap_createSnapshot s = Some (?v, ?s)"
    using st(1) by (simp add: snap_createSnapshot_def Let_def)
  ultimately show ?thesis by (auto simp: cxx_map)
qed

lemma snap_restore_ok:
  assumes "snap_inv s" "um_find (snapshots s) v = Some sn"
  shows "\<exists>s'. snap_restoreSnapshot v s = Some s' \<and> snap_sim s s' {} \<and> current_blocks s' = block_ids sn"
proof -
  have c: "counts (blockStore s) (refs s)" and ok: "um_ok (snapshots s)" using assms by (simp_all add: snap_inv_def)
  have "\<forall>i. count_list (current_blocks s) i \<le> refs s i" by (simp add: refs_def)
  from decrement_ok [OF c this] obtain st where
    st: "decrementRefCount (current_blocks s) (blockStore s) = Some st"
      "counts st (\<lambda>i. refs s i - count_list (current_blocks s) i)"
      "keeps (blockStore s) st" "dom (um_find st) \<subseteq> dom (um_find (blockStore s))" by blast
  have c1: "counts st (refs_of (snapshots s))" using st(2) by (simp add: refs_def [abs_def])
  have "\<forall>i \<in> set (block_ids sn). 0 < refs_of (snapshots s) i"
    using refs_of_le [OF ok assms(2)] by (metis count_list_pos less_le_trans)
  from increment_ok [OF c1 this] obtain st' where
    st': "incrementRefCount (block_ids sn) st = Some st'"
      "counts st' (\<lambda>i. refs_of (snapshots s) i + count_list (block_ids sn) i)"
      "keeps st st'" "dom (um_find st') = dom (um_find st)" by blast
  let ?s = "s\<lparr>current_blocks := block_ids sn, blockStore := st'\<rparr>"
  have "refs ?s = (\<lambda>i. refs_of (snapshots s) i + count_list (block_ids sn) i)" by (auto simp: refs_def)
  moreover have "\<forall>i \<in> dom (um_find st'). i < next_block_id s"
    using assms(1) st(4) st'(4) unfolding snap_inv_def by blast
  ultimately have "snap_inv ?s" using assms(1) st'(2) by (simp add: snap_inv_def)
  moreover have "keeps (blockStore s) st'" using st(3) st'(3,4) by (rule keeps_trans)
  moreover have "snap_restoreSnapshot v s = Some ?s"
    using st(1) st'(1) assms(2) by (simp add: snap_restoreSnapshot_def Let_def)
  ultimately show ?thesis by (simp add: snap_sim_def)
qed

lemma snap_delete_ok:
  assumes "snap_inv s" "um_find (snapshots s) v = Some sn"
  shows "\<exists>s'. snap_deleteSnapshot v s = Some s' \<and> snap_sim s s' {v}"
proof -
  have c: "counts (blockStore s) (refs s)" and ok: "um_ok (snapshots s)" using assms by (simp_all add: snap_inv_def)
  have "\<forall>i. count_list (block_ids sn) i \<le> refs s i"
    using refs_of_le [OF ok assms(2)] by (simp add: refs_def trans_le_add2)
  from decrement_ok [OF c this] obtain st where
    st: "decrementRefCount (block_ids sn) (blockStore s) = Some st"
      "counts st (\<lambda>i. refs s i - count_list (block_ids sn) i)"
      "keeps (blockStore s) st" "dom (um_find st) \<subseteq> dom (um_find (blockStore s))" by blast
  let ?s = "s\<lparr>blockStore := st, snapshots := um_erase v (snapshots s)\<rparr>"
  have "refs ?s = (\<lambda>i. refs s i - count_list (block_ids sn) i)"
    using refs_of_erase [OF ok assms(2)] by (auto simp: refs_def)
  moreover have "\<forall>i \<in> dom (um_find st). i < next_block_id s"
    using assms(1) st(4) unfolding snap_inv_def by blast
  ultimately have "snap_inv ?s" using assms(1) st(2) by (simp add: snap_inv_def cxx_inv cxx_map)
  moreover have "snap_deleteSnapshot v s = Some ?s"
    using st(1) assms(2) by (simp add: snap_deleteSnapshot_def)
  ultimately show ?thesis using st(3) by (auto simp: snap_sim_def cxx_map)
qed

lemma snap_sim_refl: "snap_inv s \<Longrightarrow> snap_sim s s {}"
  by (simp add: snap_sim_def keeps_refl)

lemma snap_exec_ok:
  assumes "snap_inv s"
  shows "\<exists>s'. snap_exec p s = Some s' \<and> snap_sim s s' {v. p = SDelete v}"
proof (cases p)
  case (SWrite d)
  then show ?thesis using snap_write_ok [OF assms] by simp
next
  case SCreate
  then show ?thesis using snap_create_ok [OF assms] by auto
next
  case (SRestore v)
  then show ?thesis
    using snap_restore_ok [OF assms, of v] snap_sim_refl [OF assms]
    by (cases "um_find (snapshots s) v") (auto simp: snap_restoreSnapshot_def)
next
  case (SDelete v)
  then show ?thesis
    using snap_delete_ok [OF assms, of v] snap_sim_refl [OF assms]
    by (cases "um_find (snapshots s) v") (auto simp: snap_deleteSnapshot_def snap_sim_def)
qed

lemma snap_run_ok: "snap_inv s \<Longrightarrow> \<exists>s'. snap_run ps s = Some s' \<and> snap_inv s'"
proof (induction ps arbitrary: s)
  case (Cons p ps)
  obtain s1 where "snap_exec p s = Some s1" "snap_inv s1"
    using snap_exec_ok [OF Cons.prems, of p] by (auto simp: snap_sim_def)
  then show ?case using Cons.IH by auto
qed simp

lemma snap_run_keeps_snapshot:
  assumes "snap_inv s" "um_find (snapshots s) v = Some sn" "SDelete v \<notin> set ps" "snap_run ps s = Some t"
  shows "snap_inv t \<and> um_find (snapshots t) v = Some sn \<and>
    read_blocks (blockStore t) (block_ids sn) = read_blocks (blockStore s) (block_ids sn)"
  using assms
proof (induction ps arbitrary: s)
  case (Cons p ps)
  obtain s1 where s1: "snap_exec p s = Some s1" "snap_sim s s1 {v. p = SDelete v}"
    using snap_exec_ok [OF Cons.prems(1)] by blast
  have inv: "snap_inv s1" and keeps: "keeps (blockStore s) (blockStore s1)"
    and v: "um_find (snapshots s1) v = Some sn"
    using s1(2) Cons.prems(2,3) by (auto simp: snap_sim_def)
  have "read_blocks (blockStore s1) (block_ids sn) = read_blocks (blockStore s) (block_ids sn)"
    using keeps snap_inv_snapshot [OF Cons.prems(1,2)] snap_inv_snapshot [OF inv v] by (rule read_blocks_keeps)
  then show ?case using Cons.IH [OF inv v] Cons.prems(3,4) s1(1) by simp
qed simp

section \<open>Properties\<close>

text \<open>
  C32. Whatever sequence of writes, snapshots, restores and deletions runs on a new manager, no
  operation follows a dangling block number, and the block store holds exactly the blocks that the
  current file or some snapshot refers to, each with its number of references as the count: nothing
  leaks and nothing is freed too early.
\<close>
theorem snap_refcounts:
  "\<exists>s. snap_run ps snap_new = Some s \<and>
     (\<forall>i. let n = count_list (current_blocks s) i + (\<Sum>(v, sn) \<leftarrow> snapshots s. count_list (block_ids sn) i)
          in case um_find (blockStore s) i of None \<Rightarrow> n = 0 | Some b \<Rightarrow> n > 0 \<and> ref_count b = int n)"
proof -
  obtain s where s: "snap_run ps snap_new = Some s" "snap_inv s"
    using snap_run_ok [OF snap_inv_new] by blast
  then have c: "counts (blockStore s) (refs s)" by (simp add: snap_inv_def)
  have "case um_find (blockStore s) i of None \<Rightarrow> refs s i = 0 | Some b \<Rightarrow> refs s i > 0 \<and> ref_count b = int (refs s i)" for i
    using c unfolding counts_def by (cases "um_find (blockStore s) i") (simp_all only: option.case)
  then show ?thesis using s(1) unfolding refs_def refs_of_def um_sum_def Let_def by blast
qed

text \<open>
  C33. A snapshot is immutable: a snapshot taken in any reachable state reads, after any further
  operations that do not delete it, as the file did when it was taken, and restoring it makes the
  file so again; the restore engine reaches the same state and its progress report ends at 100
  percent for a non-empty snapshot.
\<close>
theorem snap_immutable:
  assumes "snap_run ps snap_new = Some s" "snap_createSnapshot s = Some (v, s1)"
    and "snap_run qs s1 = Some s2" "SDelete v \<notin> set qs"
  shows "\<exists>ds s3 pr. snap_readCurrentFile s = Some ds \<and> snap_readSnapshot v s2 = Some (Inr ds) \<and>
    snap_restoreSnapshot v s2 = Some s3 \<and> snap_readCurrentFile s3 = Some ds \<and>
    re_restoreSnapshot v s2 = Some (pr, s3) \<and> (ds \<noteq> [] \<longrightarrow> pr \<noteq> [] \<and> last pr = 100)"
proof -
  have inv: "snap_inv s" using snap_run_ok [OF snap_inv_new, of ps] assms(1) by simp
  let ?sn = "\<lparr>version = v, block_ids = current_blocks s\<rparr>"
  have v: "v = next_version s" and sim: "snap_sim s s1 {}" and sn: "um_find (snapshots s1) v = Some ?sn"
    using snap_create_ok [OF inv] assms(2) by auto
  have inv1: "snap_inv s1" and k: "keeps (blockStore s) (blockStore s1)" using sim by (simp_all add: snap_sim_def)
  obtain ds where ds: "snap_readCurrentFile s = Some ds"
    using read_blocks_total [OF snap_inv_current [OF inv]] by (auto simp: snap_readCurrentFile_def)
  have "read_blocks (blockStore s1) (current_blocks s) = Some ds"
    using read_blocks_keeps [OF k snap_inv_current [OF inv]] snap_inv_snapshot [OF inv1 sn] ds
    by (simp add: snap_readCurrentFile_def)
  then have t: "snap_inv s2" "um_find (snapshots s2) v = Some ?sn" "read_blocks (blockStore s2) (current_blocks s) = Some ds"
    using snap_run_keeps_snapshot [OF inv1 sn assms(4,3)] by simp_all
  obtain s3 where s3: "snap_restoreSnapshot v s2 = Some s3" "snap_sim s2 s3 {}" "current_blocks s3 = current_blocks s"
    using snap_restore_ok [OF t(1,2)] by auto
  have "snap_readCurrentFile s3 = Some ds"
    using read_blocks_keeps [of "blockStore s2" "blockStore s3" "current_blocks s"] s3 t
      snap_inv_snapshot [OF t(1,2)] snap_inv_current [of s3]
    by (simp add: snap_readCurrentFile_def snap_sim_def)
  moreover have "snap_readSnapshot v s2 = Some (Inr ds)" using t by (simp add: snap_readSnapshot_def)
  moreover have "re_restoreSnapshot v s2 = Some (restore_progress (current_blocks s), s3)"
    using s3(1) t(2) by (auto simp: re_restoreSnapshot_def snap_restoreSnapshot_def re_incrementRefCount_def re_decrementRefCount_def Let_def split: option.splits)
  moreover have "ds \<noteq> [] \<Longrightarrow> current_blocks s \<noteq> []" using ds by (auto simp: snap_readCurrentFile_def)
  moreover have "bs \<noteq> [] \<Longrightarrow> restore_progress bs \<noteq> [] \<and> last (restore_progress bs) = 100" for bs
    by (auto simp: restore_progress_def Let_def last_map Suc_le_eq)
  ultimately show ?thesis using ds s3(1) by auto
qed

theorem snap_immutable_witness:
  "\<exists>s s1 s2. snap_run [SWrite ''a''] snap_new = Some s \<and> snap_createSnapshot s = Some (1, s1) \<and>
     snap_run [SWrite ''b'', SCreate, SDelete 2] s1 = Some s2 \<and> snap_readSnapshot 1 s2 = Some (Inr [''a'']) \<and>
     snap_readCurrentFile s2 = Some [''a'', ''b'']"
proof -
  let ?s = "the (snap_run [SWrite ''a''] snap_new)"
  let ?s1 = "snd (the (snap_createSnapshot ?s))"
  let ?s2 = "the (snap_run [SWrite ''b'', SCreate, SDelete 2] ?s1)"
  have "snap_run [SWrite ''a''] snap_new = Some ?s" "snap_createSnapshot ?s = Some (1, ?s1)"
    "snap_run [SWrite ''b'', SCreate, SDelete 2] ?s1 = Some ?s2" "snap_readCurrentFile ?s = Some [''a'']"
    "snap_readCurrentFile ?s2 = Some [''a'', ''b'']"
    by code_simp+
  then show ?thesis
    using snap_immutable [of "[SWrite ''a'']" ?s 1 ?s1 "[SWrite ''b'', SCreate, SDelete 2]" ?s2] by auto
qed

end
