(* ===== verification/Garbage_Collector.thy ===== *)
theory Garbage_Collector
  imports Prelude
begin

text \<open>
  The reference-counting collector \<^verbatim>\<open>storage/GarbageCollector.cpp\<close>: an object whose count drops to
  zero is flagged, and \<^verbatim>\<open>runGC\<close> frees the flagged objects. Every call holds the writer lock for its
  whole body and is one step.
\<close>

record Object =
  object_id :: int
  obj_ref_count :: int
  deleted :: bool

type_synonym object_table = "(int, Object) umap"

definition object_new :: "int \<Rightarrow> Object" where
  "object_new i = \<lparr>object_id = i, obj_ref_count = 1, deleted = False\<rparr>"

definition gc_addObject :: "int \<Rightarrow> object_table \<Rightarrow> object_table" where
  "gc_addObject i t = (if um_find t i \<noteq> None then t else um_put i (object_new i) t)"

definition gc_incrementRefCount :: "int \<Rightarrow> object_table \<Rightarrow> object_table" where
  "gc_incrementRefCount i t =
     (case um_find t i of None \<Rightarrow> t | Some b \<Rightarrow> um_put i (b\<lparr>obj_ref_count := obj_ref_count b + 1\<rparr>) t)"

definition gc_decrementRefCount :: "int \<Rightarrow> object_table \<Rightarrow> object_table" where
  "gc_decrementRefCount i t =
     (case um_find t i of
        None \<Rightarrow> t
      | Some b \<Rightarrow>
          let b1 = b\<lparr>obj_ref_count := obj_ref_count b - 1\<rparr>;
              b2 = (if obj_ref_count b1 = 0 then b1\<lparr>deleted := True\<rparr> else b1)
          in um_put i b2 t)"

fun gc_runGC :: "object_table \<Rightarrow> object_table" where
  "gc_runGC [] = []"
| "gc_runGC ((i, b) # t) = (if deleted b then gc_runGC t else (i, b) # gc_runGC t)"

datatype gc_op = GAdd int | GInc int | GDec int | GRun

fun gc_exec :: "gc_op \<Rightarrow> object_table \<Rightarrow> object_table" where
  "gc_exec (GAdd i) t = gc_addObject i t"
| "gc_exec (GInc i) t = gc_incrementRefCount i t"
| "gc_exec (GDec i) t = gc_decrementRefCount i t"
| "gc_exec GRun t = gc_runGC t"

text \<open>
  A run that never takes a new reference to an object with no references left: the discipline of a
  program that copies references from live ones.
\<close>

fun gc_disciplined :: "gc_op list \<Rightarrow> object_table \<Rightarrow> bool" where
  "gc_disciplined [] t \<longleftrightarrow> True"
| "gc_disciplined (p # ps) t \<longleftrightarrow>
     (case p of
        GInc i \<Rightarrow> (case um_find t i of None \<Rightarrow> True | Some b \<Rightarrow> 0 < obj_ref_count b)
      | _ \<Rightarrow> True) \<and> gc_disciplined ps (gc_exec p t)"

section \<open>The flag says that no reference is left\<close>

definition gc_ok :: "object_table \<Rightarrow> bool" where
  "gc_ok t \<longleftrightarrow> um_ok t \<and> (\<forall>i b. um_find t i = Some b \<longrightarrow> (deleted b \<longleftrightarrow> obj_ref_count b \<le> 0))"

lemma runGC_filter: "gc_runGC t = filter (\<lambda>(i, b). \<not> deleted b) t"
  by (induction t rule: gc_runGC.induct) auto

lemma gc_ok_exec:
  assumes "gc_ok t" "gc_disciplined (p # ps) t"
  shows "gc_ok (gc_exec p t)"
proof (cases p)
  case (GAdd i)
  then show ?thesis
    using assms(1) by (auto simp: gc_ok_def gc_addObject_def object_new_def cxx_inv cxx_map)
next
  case (GInc i)
  then show ?thesis
  proof (cases "um_find t i")
    case None
    then show ?thesis using GInc assms(1) by (simp add: gc_incrementRefCount_def)
  next
    case (Some b)
    then have "\<not> deleted b" using assms GInc by (simp add: gc_ok_def)
    then show ?thesis
      using GInc Some assms by (auto simp: gc_ok_def gc_incrementRefCount_def cxx_inv cxx_map)
  qed
next
  case (GDec i)
  then show ?thesis
    using assms(1) by (cases "um_find t i") (auto simp: gc_ok_def gc_decrementRefCount_def Let_def cxx_inv cxx_map)
next
  case GRun
  then show ?thesis
    using assms(1) by (auto simp: gc_ok_def runGC_filter um_find_filter cxx_inv split: option.splits if_splits)
qed

lemma gc_ok_run: "gc_ok t \<Longrightarrow> gc_disciplined ps t \<Longrightarrow> gc_ok (fold gc_exec ps t)"
proof (induction ps arbitrary: t)
  case (Cons p ps)
  then show ?case using gc_ok_exec [OF Cons.prems] by simp
qed simp

text \<open>
  Safety and completeness of a collection. In a run that never takes a reference to an object
  without references, the collector frees exactly the objects whose count is not positive and
  leaves every other object untouched.
\<close>
theorem gc_exact:
  assumes "gc_disciplined ps []"
  shows "um_find (gc_runGC (fold gc_exec ps [])) i =
    (case um_find (fold gc_exec ps []) i of
       None \<Rightarrow> None
     | Some b \<Rightarrow> if obj_ref_count b \<le> 0 then None else Some b)"
proof -
  have ok: "gc_ok (fold gc_exec ps [])"
    using assms by (intro gc_ok_run) (simp_all add: gc_ok_def um_ok_def)
  then show ?thesis by (auto simp: gc_ok_def runGC_filter um_find_filter split: option.splits)
qed

theorem gc_exact_witness:
  "um_find (gc_runGC (fold gc_exec [GAdd 1, GAdd 2, GInc 1, GDec 1, GDec 2] [])) 2 = None \<and>
   um_find (gc_runGC (fold gc_exec [GAdd 1, GAdd 2, GInc 1, GDec 1, GDec 2] [])) 1 =
     Some \<lparr>object_id = 1, obj_ref_count = 1, deleted = False\<rparr>"
proof -
  let ?ps = "[GAdd 1, GAdd 2, GInc 1, GDec 1, GDec 2]"
  have d: "gc_disciplined ?ps []" by code_simp
  have "um_find (fold gc_exec ?ps []) 1 = Some \<lparr>object_id = 1, obj_ref_count = 1, deleted = False\<rparr>"
    "map_option obj_ref_count (um_find (fold gc_exec ?ps []) 2) = Some 0"
    by code_simp+
  then show ?thesis using gc_exact [OF d, of 1] gc_exact [OF d, of 2] by auto
qed

text \<open>
  Without the discipline the flag is never taken back: a reference taken between the drop to zero
  and the collection does not save the object.
\<close>
theorem gc_frees_referenced:
  "let t = fold gc_exec [GAdd 1, GDec 1, GInc 1] []
   in map_option obj_ref_count (um_find t 1) = Some 1 \<and> um_find (gc_runGC t) 1 = None"
  by code_simp

end
