(* ===== verification/Dedup.thy ===== *)
theory Dedup
  imports Prelude
begin

text \<open>
  The deduplicating stores \<^verbatim>\<open>storage/ChunkStore.cpp\<close> (chunks with replicas) and
  \<^verbatim>\<open>storage/DeduplicationEngine_Block_Chunker.cpp\<close> (files split into chunks). The fingerprint
  \<^verbatim>\<open>to_string(hash<string>{}(chunk))\<close> is an argument \<open>fp\<close> of the operations: the standard leaves the hash
  function open. The theorems assume that it separates the chunks at hand.
\<close>

type_synonym fingerprint = "string \<Rightarrow> string"

section \<open>The chunk storage system\<close>

record cs_meta =
  cs_data :: string
  cs_refs :: int
  replica_addresses :: "nat list"

record chunk_system =
  cs_index :: "(string, cs_meta) umap"
  next_replica_address :: nat

definition cs_new :: chunk_system where
  "cs_new = \<lparr>cs_index = [], next_replica_address = 1\<rparr>"

definition cs_add :: "string \<Rightarrow> string \<Rightarrow> nat \<Rightarrow> (string, cs_meta) umap \<Rightarrow> (string, cs_meta) umap" where
  "cs_add f d a m = um_put f \<lparr>cs_data = d, cs_refs = 1, replica_addresses = [a]\<rparr> m"

definition cs_storeChunk :: "fingerprint \<Rightarrow> string \<Rightarrow> chunk_system \<Rightarrow> chunk_system" where
  "cs_storeChunk fp d s =
     (case um_find (cs_index s) (fp d) of
        Some m \<Rightarrow> s\<lparr>cs_index := um_put (fp d) (m\<lparr>cs_refs := cs_refs m + 1\<rparr>) (cs_index s)\<rparr>
      | None \<Rightarrow> s\<lparr>cs_index := cs_add (fp d) d (next_replica_address s) (cs_index s),
                 next_replica_address := next_replica_address s + 1\<rparr>)"

definition cs_lookupChunk :: "fingerprint \<Rightarrow> string \<Rightarrow> chunk_system \<Rightarrow> string" where
  "cs_lookupChunk fp d s =
     (case um_find (cs_index s) (fp d) of None \<Rightarrow> ''Chunk NOT FOUND'' | Some m \<Rightarrow> cs_data m)"

definition cs_replicateChunk :: "fingerprint \<Rightarrow> string \<Rightarrow> chunk_system \<Rightarrow> chunk_system" where
  "cs_replicateChunk fp d s =
     (case um_find (cs_index s) (fp d) of
        None \<Rightarrow> s
      | Some m \<Rightarrow>
          s\<lparr>cs_index := um_put (fp d)
               (m\<lparr>replica_addresses := replica_addresses m @ [next_replica_address s]\<rparr>) (cs_index s),
            next_replica_address := next_replica_address s + 1\<rparr>)"

definition cs_deleteChunk :: "fingerprint \<Rightarrow> string \<Rightarrow> chunk_system \<Rightarrow> chunk_system" where
  "cs_deleteChunk fp d s =
     (case um_find (cs_index s) (fp d) of
        None \<Rightarrow> s
      | Some m \<Rightarrow>
          let m' = m\<lparr>cs_refs := cs_refs m - 1\<rparr>; i = um_put (fp d) m' (cs_index s)
          in s\<lparr>cs_index := (if cs_refs m' = 0 then um_erase (fp d) i else i)\<rparr>)"

datatype cs_op = CStore string | CReplicate string | CDelete string

fun cs_chunk :: "cs_op \<Rightarrow> string" where
  "cs_chunk (CStore d) = d"
| "cs_chunk (CReplicate d) = d"
| "cs_chunk (CDelete d) = d"

fun cs_exec :: "fingerprint \<Rightarrow> cs_op \<Rightarrow> chunk_system \<Rightarrow> chunk_system" where
  "cs_exec fp (CStore d) s = cs_storeChunk fp d s"
| "cs_exec fp (CReplicate d) s = cs_replicateChunk fp d s"
| "cs_exec fp (CDelete d) s = cs_deleteChunk fp d s"

text \<open>The contract: a multiset of chunks, as a counter per chunk.\<close>

fun cs_spec :: "cs_op \<Rightarrow> (string \<Rightarrow> nat) \<Rightarrow> (string \<Rightarrow> nat)" where
  "cs_spec (CStore d) n = n(d := n d + 1)"
| "cs_spec (CReplicate d) n = n"
| "cs_spec (CDelete d) n = n(d := n d - 1)"

definition cs_rel :: "fingerprint \<Rightarrow> string set \<Rightarrow> (string \<Rightarrow> nat) \<Rightarrow> chunk_system \<Rightarrow> bool" where
  "cs_rel fp W n s \<longleftrightarrow>
     (\<forall>d \<in> W. case um_find (cs_index s) (fp d) of
                None \<Rightarrow> n d = 0
              | Some m \<Rightarrow> n d > 0 \<and> cs_refs m = int (n d) \<and> cs_data m = d)"

lemma cs_rel_exec:
  assumes "cs_rel fp W n s" "inj_on fp W" "cs_chunk p \<in> W"
  shows "cs_rel fp W (cs_spec p n) (cs_exec fp p s)"
  unfolding cs_rel_def
proof
  fix d assume d: "d \<in> W"
  have old: "case um_find (cs_index s) (fp d) of None \<Rightarrow> n d = 0
      | Some m \<Rightarrow> n d > 0 \<and> cs_refs m = int (n d) \<and> cs_data m = d"
    using assms(1) d by (simp add: cs_rel_def)
  show "case um_find (cs_index (cs_exec fp p s)) (fp d) of None \<Rightarrow> cs_spec p n d = 0
      | Some m \<Rightarrow> cs_spec p n d > 0 \<and> cs_refs m = int (cs_spec p n d) \<and> cs_data m = d"
  proof (cases "d = cs_chunk p")
    case True
    then show ?thesis using old
      by (cases p; cases "um_find (cs_index s) (fp d)")
        (simp_all add: cs_storeChunk_def cs_replicateChunk_def cs_deleteChunk_def cs_add_def Let_def cxx_map)
  next
    case False
    then have ne: "fp d \<noteq> fp (cs_chunk p)" using assms(2,3) d by (auto dest: inj_onD)
    then have eq: "um_find (cs_index (cs_exec fp p s)) (fp d) = um_find (cs_index s) (fp d)"
      by (cases p; cases "um_find (cs_index s) (fp (cs_chunk p))")
        (simp_all add: cs_storeChunk_def cs_replicateChunk_def cs_deleteChunk_def cs_add_def Let_def cxx_map)
    have eq': "cs_spec p n d = n d" using False by (cases p) auto
    show ?thesis unfolding eq eq' by (rule old)
  qed
qed

lemma cs_rel_run:
  assumes "inj_on fp W"
  shows "cs_rel fp W n s \<Longrightarrow> cs_chunk ` set ps \<subseteq> W \<Longrightarrow> cs_rel fp W (fold cs_spec ps n) (fold (cs_exec fp) ps s)"
  by (induction ps arbitrary: n s) (simp_all add: cs_rel_exec assms)

text \<open>
  The chunk storage system implements a multiset of chunks: when the fingerprint separates the
  chunks in use, a lookup returns the chunk itself exactly when it has been stored more often than
  deleted (a deletion of an absent chunk being ignored), and the reference count is its
  multiplicity.
\<close>
theorem cs_multiset:
  assumes "inj_on fp W" "cs_chunk ` set ps \<subseteq> W" "d \<in> W"
  shows "cs_lookupChunk fp d (fold (cs_exec fp) ps cs_new) =
      (if fold cs_spec ps (\<lambda>_. 0) d = 0 then ''Chunk NOT FOUND'' else d) \<and>
    map_option cs_refs (um_find (cs_index (fold (cs_exec fp) ps cs_new)) (fp d)) =
      (if fold cs_spec ps (\<lambda>_. 0) d = 0 then None else Some (int (fold cs_spec ps (\<lambda>_. 0) d)))"
proof -
  have "cs_rel fp W (fold cs_spec ps (\<lambda>_. 0)) (fold (cs_exec fp) ps cs_new)"
    using assms(2) by (intro cs_rel_run [OF assms(1)]) (simp_all add: cs_rel_def cs_new_def)
  then show ?thesis
    using assms(3) by (auto simp: cs_rel_def cs_lookupChunk_def split: option.splits dest!: bspec)
qed

theorem cs_multiset_witness:
  "cs_lookupChunk id ''x'' (fold (cs_exec id) [CStore ''x'', CStore ''y'', CStore ''x'', CReplicate ''x'', CDelete ''x''] cs_new) = ''x''"
proof -
  let ?ps = "[CStore ''x'', CStore ''y'', CStore ''x'', CReplicate ''x'', CDelete ''x'']"
  have "fold cs_spec ?ps (\<lambda>_. 0) ''x'' = 1" by code_simp
  then show ?thesis using cs_multiset [of id UNIV ?ps "''x''"] by simp
qed

section \<open>The deduplicating file store\<close>

definition chunk_size :: nat where
  "chunk_size = 8"

function split_loop :: "string \<Rightarrow> nat \<Rightarrow> string list" where
  "split_loop d i =
     (if i < length d
      then take (min chunk_size (length d - i)) (drop i d) # split_loop d (i + chunk_size)
      else [])"
  by auto
termination
  by (relation "measure (\<lambda>(d, i). length d - i)") (auto simp: chunk_size_def)

declare split_loop.simps [simp del]

definition split :: "string \<Rightarrow> string list" where
  "split d = split_loop d 0"

record ChunkMetadata =
  address :: nat
  dd_refs :: int

record dedup =
  next_address :: nat
  storage :: "(nat, string) umap"
  dedupIndex :: "(string, ChunkMetadata) umap"
  file_fp_map :: "(string, string list) umap"

definition dd_new :: dedup where
  "dd_new = \<lparr>next_address = 0, storage = [], dedupIndex = [], file_fp_map = []\<rparr>"

definition no_meta :: ChunkMetadata where
  "no_meta = \<lparr>address = 0, dd_refs = 0\<rparr>"

definition dd_writeChunk :: "string \<Rightarrow> dedup \<Rightarrow> nat \<times> dedup" where
  "dd_writeChunk c s =
     (next_address s, s\<lparr>storage := um_put (next_address s) c (storage s), next_address := next_address s + 1\<rparr>)"

definition dd_incrementRef :: "string \<Rightarrow> dedup \<Rightarrow> dedup" where
  "dd_incrementRef f s =
     (let m = um_at no_meta (dedupIndex s) f
      in s\<lparr>dedupIndex := um_put f (m\<lparr>dd_refs := dd_refs m + 1\<rparr>) (dedupIndex s)\<rparr>)"

definition dd_decrementRef :: "string \<Rightarrow> dedup \<Rightarrow> dedup" where
  "dd_decrementRef f s =
     (let m = um_at no_meta (dedupIndex s) f
      in s\<lparr>dedupIndex := um_put f (m\<lparr>dd_refs := dd_refs m - 1\<rparr>) (dedupIndex s)\<rparr>)"

definition dd_get :: "string \<Rightarrow> dedup \<Rightarrow> ChunkMetadata \<times> dedup" where
  "dd_get f s = (um_at no_meta (dedupIndex s) f, s\<lparr>dedupIndex := um_touch no_meta f (dedupIndex s)\<rparr>)"

definition dd_readChunk :: "nat \<Rightarrow> dedup \<Rightarrow> string \<times> dedup" where
  "dd_readChunk a s = (um_at [] (storage s) a, s\<lparr>storage := um_touch [] a (storage s)\<rparr>)"

definition dd_write_one :: "fingerprint \<Rightarrow> string \<Rightarrow> dedup \<Rightarrow> dedup" where
  "dd_write_one fp c s =
     (if um_find (dedupIndex s) (fp c) \<noteq> None then dd_incrementRef (fp c) s
      else let (a, s1) = dd_writeChunk c s
           in s1\<lparr>dedupIndex := um_put (fp c) \<lparr>address = a, dd_refs = 1\<rparr> (dedupIndex s1)\<rparr>)"

definition dd_writeFile :: "fingerprint \<Rightarrow> string \<Rightarrow> string \<Rightarrow> dedup \<Rightarrow> dedup" where
  "dd_writeFile fp name d s =
     (let s1 = fold (dd_write_one fp) (split d) s
      in s1\<lparr>file_fp_map := um_put name (map fp (split d)) (file_fp_map s1)\<rparr>)"

fun dd_read_loop :: "string list \<Rightarrow> dedup \<Rightarrow> string \<times> dedup" where
  "dd_read_loop [] s = ([], s)"
| "dd_read_loop (f # fs) s =
     (let (m, s1) = dd_get f s; (c, s2) = dd_readChunk (address m) s1; (r, s3) = dd_read_loop fs s2
      in (c @ r, s3))"

definition dd_readFile :: "string \<Rightarrow> dedup \<Rightarrow> string \<times> dedup" where
  "dd_readFile name s =
     dd_read_loop (um_at [] (file_fp_map s) name) (s\<lparr>file_fp_map := um_touch [] name (file_fp_map s)\<rparr>)"

definition dd_delete_one :: "string \<Rightarrow> dedup \<Rightarrow> dedup" where
  "dd_delete_one f s =
     (let (m, s1) = dd_get f (dd_decrementRef f s)
      in if dd_refs m = 0
         then s1\<lparr>storage := um_erase (address m) (storage s1), dedupIndex := um_erase f (dedupIndex s1)\<rparr>
         else s1)"

definition dd_deleteFile :: "string \<Rightarrow> dedup \<Rightarrow> dedup" where
  "dd_deleteFile name s =
     (case um_find (file_fp_map s) name of
        None \<Rightarrow> s
      | Some fs \<Rightarrow>
          let s1 = fold dd_delete_one fs s
          in s1\<lparr>file_fp_map := um_erase name (file_fp_map s1)\<rparr>)"

datatype dd_op = DWrite string string | DRead string | DDelete string

fun dd_exec :: "fingerprint \<Rightarrow> dd_op \<Rightarrow> dedup \<Rightarrow> dedup" where
  "dd_exec fp (DWrite n d) s = dd_writeFile fp n d s"
| "dd_exec fp (DRead n) s = snd (dd_readFile n s)"
| "dd_exec fp (DDelete n) s = dd_deleteFile n s"

fun dd_spec :: "dd_op \<Rightarrow> (string \<rightharpoonup> string) \<Rightarrow> (string \<rightharpoonup> string)" where
  "dd_spec (DWrite n d) m = m(n \<mapsto> d)"
| "dd_spec (DRead n) m = m"
| "dd_spec (DDelete n) m = m(n := None)"

fun dd_chunks :: "dd_op \<Rightarrow> string set" where
  "dd_chunks (DWrite n d) = set (split d)"
| "dd_chunks _ = {}"

subsection \<open>Splitting\<close>

lemma concat_split_loop: "concat (split_loop d i) = drop i d"
proof (induction d i rule: split_loop.induct)
  case (1 d i)
  show ?case
  proof (cases "i < length d")
    case True
    have "take (min chunk_size (length d - i)) (drop i d) = take chunk_size (drop i d)" by (simp add: min_def)
    then have "concat (split_loop d i) = take chunk_size (drop i d) @ drop (i + chunk_size) d"
      using True 1 by (subst split_loop.simps) simp
    also have "drop (i + chunk_size) d = drop chunk_size (drop i d)" by (simp add: add.commute)
    finally show ?thesis by (simp only: append_take_drop_id)
  next
    case False
    then show ?thesis by (subst split_loop.simps) simp
  qed
qed

lemma concat_split: "concat (split d) = d"
  by (simp add: split_def concat_split_loop)

subsection \<open>The index invariant\<close>

definition dd_inv :: "fingerprint \<Rightarrow> string set \<Rightarrow> (string \<Rightarrow> nat) \<Rightarrow> dedup \<Rightarrow> bool" where
  "dd_inv fp W need s \<longleftrightarrow>
     (\<forall>f m. um_find (dedupIndex s) f = Some m \<longrightarrow>
        0 < dd_refs m \<and> int (need f) \<le> dd_refs m \<and> address m < next_address s \<and>
        (\<exists>d \<in> W. um_find (storage s) (address m) = Some d \<and> fp d = f)) \<and>
     (\<forall>f. 0 < need f \<longrightarrow> um_find (dedupIndex s) f \<noteq> None) \<and>
     (\<forall>a d. um_find (storage s) a = Some d \<longrightarrow> (\<exists>m. um_find (dedupIndex s) (fp d) = Some m \<and> address m = a))"

lemma dd_invD:
  assumes "dd_inv fp W need s"
  shows "um_find (dedupIndex s) f = Some m \<Longrightarrow> 0 < dd_refs m"
    and "um_find (dedupIndex s) f = Some m \<Longrightarrow> int (need f) \<le> dd_refs m"
    and "um_find (dedupIndex s) f = Some m \<Longrightarrow> address m < next_address s"
    and "um_find (dedupIndex s) f = Some m \<Longrightarrow> \<exists>d \<in> W. um_find (storage s) (address m) = Some d \<and> fp d = f"
    and "0 < need f \<Longrightarrow> \<exists>m. um_find (dedupIndex s) f = Some m"
    and "um_find (storage s) a = Some d \<Longrightarrow> \<exists>m. um_find (dedupIndex s) (fp d) = Some m \<and> address m = a"
  using assms unfolding dd_inv_def by blast+

lemma dd_invI:
  assumes "\<And>f m. um_find (dedupIndex s) f = Some m \<Longrightarrow> 0 < dd_refs m \<and> int (need f) \<le> dd_refs m \<and> address m < next_address s \<and>
        (\<exists>d \<in> W. um_find (storage s) (address m) = Some d \<and> fp d = f)"
    and "\<And>f. 0 < need f \<Longrightarrow> um_find (dedupIndex s) f \<noteq> None"
    and "\<And>a d. um_find (storage s) a = Some d \<Longrightarrow> \<exists>m. um_find (dedupIndex s) (fp d) = Some m \<and> address m = a"
  shows "dd_inv fp W need s"
  using assms unfolding dd_inv_def by blast

lemma dd_inv_mono:
  assumes "dd_inv fp W need s" "\<And>f. need' f \<le> need f"
  shows "dd_inv fp W need' s"
proof (rule dd_invI, goal_cases)
  case (1 f m)
  then show ?case using dd_invD(1-4) [OF assms(1) 1] assms(2) [of f] by simp
next
  case (2 f)
  then show ?case using dd_invD(5) [OF assms(1), of f] assms(2) [of f] by auto
next
  case (3 a d)
  then show ?case by (rule dd_invD(6) [OF assms(1)])
qed

lemma dd_inv_files: "dd_inv fp W need (s\<lparr>file_fp_map := x\<rparr>) = dd_inv fp W need s"
  by (simp add: dd_inv_def)

lemma dd_inv_write_one:
  assumes "dd_inv fp W need s" "c \<in> W"
  shows "dd_inv fp W (need(fp c := Suc (need (fp c)))) (dd_write_one fp c s)"
proof (cases "um_find (dedupIndex s) (fp c)")
  case (Some m)
  have eq: "dd_write_one fp c s = s\<lparr>dedupIndex := um_put (fp c) (m\<lparr>dd_refs := dd_refs m + 1\<rparr>) (dedupIndex s)\<rparr>"
    using Some by (simp add: dd_write_one_def dd_incrementRef_def um_at_def)
  show ?thesis unfolding eq
  proof (rule dd_invI, goal_cases)
    case (1 f k)
    then show ?case
      using dd_invD(1-4) [OF assms(1) Some] dd_invD(1-4) [OF assms(1), of f k]
      by (cases "f = fp c") (auto simp: cxx_map)
  next
    case (2 f)
    then show ?case using dd_invD(5) [OF assms(1), of f] by (cases "f = fp c") (auto simp: cxx_map)
  next
    case (3 a d)
    then show ?case using Some dd_invD(6) [OF assms(1), of a d] by (cases "fp d = fp c") (auto simp: cxx_map)
  qed
next
  case None
  let ?a = "next_address s"
  have eq: "dd_write_one fp c s = s\<lparr>storage := um_put ?a c (storage s), next_address := ?a + 1,
      dedupIndex := um_put (fp c) \<lparr>address = ?a, dd_refs = 1\<rparr> (dedupIndex s)\<rparr>"
    using None by (simp add: dd_write_one_def dd_writeChunk_def)
  have zero: "need (fp c) = 0" using dd_invD(5) [OF assms(1), of "fp c"] None by auto
  show ?thesis unfolding eq
  proof (rule dd_invI, goal_cases)
    case (1 f m)
    then show ?case
      using zero assms(2) dd_invD(1-4) [OF assms(1), of f m] by (cases "f = fp c") (auto simp: cxx_map)
  next
    case (2 f)
    then show ?case using dd_invD(5) [OF assms(1), of f] by (cases "f = fp c") (auto simp: cxx_map)
  next
    case (3 a d)
    show ?case
    proof (cases "a = ?a")
      case True
      then show ?thesis using 3 by (simp add: cxx_map)
    next
      case False
      then obtain m where m: "um_find (dedupIndex s) (fp d) = Some m" "address m = a"
        using 3 dd_invD(6) [OF assms(1), of a d] by (auto simp: cxx_map)
      then have "fp d \<noteq> fp c" using None by auto
      then show ?thesis using m by (simp add: cxx_map)
    qed
  qed
qed

lemma dd_inv_write_chunks:
  "dd_inv fp W need s \<Longrightarrow> set cs \<subseteq> W \<Longrightarrow>
   dd_inv fp W (\<lambda>f. need f + count_list (map fp cs) f) (fold (dd_write_one fp) cs s) \<and>
   file_fp_map (fold (dd_write_one fp) cs s) = file_fp_map s"
proof (induction cs arbitrary: need s)
  case (Cons c cs)
  have "(\<lambda>f. need f + count_list (map fp (c # cs)) f) = (\<lambda>f. (need(fp c := Suc (need (fp c)))) f + count_list (map fp cs) f)"
    by auto
  moreover have "file_fp_map (dd_write_one fp c s) = file_fp_map s"
    by (simp add: dd_write_one_def dd_incrementRef_def dd_writeChunk_def Let_def)
  ultimately show ?case
    using Cons.IH [OF dd_inv_write_one [OF Cons.prems(1), of c]] Cons.prems(2) by simp
qed simp

lemma dd_inv_delete_one:
  assumes "dd_inv fp W need s" "0 < need f"
  shows "dd_inv fp W (need(f := need f - 1)) (dd_delete_one f s)"
proof -
  obtain m where m: "um_find (dedupIndex s) f = Some m" using dd_invD(5) [OF assms] by blast
  note D = dd_invD(1-4) [OF assms(1) m]
  let ?m = "m\<lparr>dd_refs := dd_refs m - 1\<rparr>"
  have s1: "dd_get f (dd_decrementRef f s) = (?m, s\<lparr>dedupIndex := um_put f ?m (dedupIndex s)\<rparr>)"
    using m by (simp add: dd_get_def dd_decrementRef_def um_at_def um_touch_def cxx_map)
  show ?thesis
  proof (cases "dd_refs m = 1")
    case False
    then have eq: "dd_delete_one f s = s\<lparr>dedupIndex := um_put f ?m (dedupIndex s)\<rparr>"
      by (simp add: dd_delete_one_def s1)
    show ?thesis unfolding eq
    proof (rule dd_invI, goal_cases)
      case (1 g k)
      then show ?case
        using False D assms(2) dd_invD(1-4) [OF assms(1), of g k] by (cases "g = f") (auto simp: cxx_map)
    next
      case (2 g)
      then show ?case using dd_invD(5) [OF assms(1), of g] by (cases "g = f") (auto simp: cxx_map)
    next
      case (3 a d)
      then show ?case using m dd_invD(6) [OF assms(1), of a d] by (cases "fp d = f") (auto simp: cxx_map)
    qed
  next
    case True
    then have eq: "dd_delete_one f s = s\<lparr>storage := um_erase (address m) (storage s),
        dedupIndex := um_erase f (um_put f ?m (dedupIndex s))\<rparr>"
      by (simp add: dd_delete_one_def s1)
    obtain d0 where d0: "um_find (storage s) (address m) = Some d0" "fp d0 = f" using D(4) by blast
    have one: "need f = 1" using True D(2) assms(2) by simp
    show ?thesis unfolding eq
    proof (rule dd_invI, goal_cases)
      case (1 g k)
      then have g: "g \<noteq> f" "um_find (dedupIndex s) g = Some k" by (auto simp: cxx_map split: if_splits)
      then have "address k \<noteq> address m" using dd_invD(4) [OF assms(1) g(2)] d0 by auto
      then show ?case using g dd_invD(1-4) [OF assms(1) g(2)] by (auto simp: cxx_map)
    next
      case (2 g)
      then show ?case using one dd_invD(5) [OF assms(1), of g] by (cases "g = f") (auto simp: cxx_map)
    next
      case (3 a d)
      then have "a \<noteq> address m" "um_find (storage s) a = Some d" by (auto simp: cxx_map split: if_splits)
      then show ?case using m dd_invD(6) [OF assms(1), of a d] by (cases "fp d = f") (auto simp: cxx_map)
    qed
  qed
qed

lemma dd_delete_one_files: "file_fp_map (dd_delete_one f s) = file_fp_map s"
  by (simp add: dd_delete_one_def dd_get_def dd_decrementRef_def Let_def)

lemma dd_inv_delete_chunks:
  "dd_inv fp W need s \<Longrightarrow> (\<And>f. count_list fs f \<le> need f) \<Longrightarrow>
   dd_inv fp W (\<lambda>f. need f - count_list fs f) (fold dd_delete_one fs s) \<and>
   file_fp_map (fold dd_delete_one fs s) = file_fp_map s"
proof (induction fs arbitrary: need s)
  case (Cons f fs)
  have pos: "0 < need f" using Cons.prems(2) [of f] by simp
  have le: "count_list fs g \<le> (need(f := need f - 1)) g" for g
    using Cons.prems(2) [of g] by (cases "g = f") auto
  have "(\<lambda>g. need g - count_list (f # fs) g) = (\<lambda>g. (need(f := need f - 1)) g - count_list fs g)" by auto
  then show ?case
    using Cons.IH [OF dd_inv_delete_one [OF Cons.prems(1) pos] le] by (simp add: dd_delete_one_files)
qed simp

lemma dd_read_loop_id:
  assumes "dd_inv fp W need s" "inj_on fp W" "set cs \<subseteq> W" "\<And>f. count_list (map fp cs) f \<le> need f"
  shows "dd_read_loop (map fp cs) s = (concat cs, s)"
  using assms(3,4)
proof (induction cs)
  case (Cons c cs)
  have "0 < need (fp c)" using Cons.prems(2) [of "fp c"] by simp
  then obtain m where m: "um_find (dedupIndex s) (fp c) = Some m" using dd_invD(5) [OF assms(1)] by blast
  then obtain d where d: "d \<in> W" "um_find (storage s) (address m) = Some d" "fp d = fp c"
    using dd_invD(4) [OF assms(1) m] by blast
  then have "d = c" using assms(2) Cons.prems(1) by (auto dest: inj_onD)
  moreover have "count_list (map fp cs) f \<le> need f" for f using Cons.prems(2) [of f] by (simp split: if_splits)
  ultimately show ?case
    using Cons m d by (simp add: dd_get_def dd_readChunk_def um_at_def um_touch_def)
qed simp

subsection \<open>Files\<close>

definition need_of :: "(string, string list) umap \<Rightarrow> string \<Rightarrow> nat" where
  "need_of fm f = um_sum (\<lambda>fs. count_list fs f) fm"

definition dd_rel :: "fingerprint \<Rightarrow> string set \<Rightarrow> (string \<rightharpoonup> string) \<Rightarrow> dedup \<Rightarrow> bool" where
  "dd_rel fp W m s \<longleftrightarrow> um_ok (file_fp_map s) \<and> dd_inv fp W (need_of (file_fp_map s)) s \<and>
     (\<forall>n. m n = None \<longrightarrow> um_at [] (file_fp_map s) n = []) \<and>
     (\<forall>n d. m n = Some d \<longrightarrow> um_find (file_fp_map s) n = Some (map fp (split d)) \<and> set (split d) \<subseteq> W)"

lemma need_of_touch: "need_of (um_touch [] n fm) f = need_of fm f"
  by (auto simp: need_of_def um_touch_def um_sum_put_new split: option.splits)

lemma dd_readFile_rel:
  assumes "dd_rel fp W m s" "inj_on fp W"
  shows "dd_readFile n s = ((case m n of None \<Rightarrow> [] | Some d \<Rightarrow> d), s\<lparr>file_fp_map := um_touch [] n (file_fp_map s)\<rparr>)"
proof (cases "m n")
  case None
  then show ?thesis using assms(1) by (simp add: dd_readFile_def dd_rel_def)
next
  case (Some d)
  then have f: "um_find (file_fp_map s) n = Some (map fp (split d))" "set (split d) \<subseteq> W"
    and ok: "um_ok (file_fp_map s)" and inv: "dd_inv fp W (need_of (file_fp_map s)) s"
    using assms(1) by (auto simp: dd_rel_def)
  let ?s = "s\<lparr>file_fp_map := um_touch [] n (file_fp_map s)\<rparr>"
  have "dd_inv fp W (need_of (file_fp_map s)) ?s" using inv by (simp add: dd_inv_files)
  moreover have "count_list (map fp (split d)) g \<le> need_of (file_fp_map s) g" for g
    unfolding need_of_def by (rule um_sum_le [OF ok f(1)])
  ultimately have "dd_read_loop (map fp (split d)) ?s = (concat (split d), ?s)"
    using assms(2) f(2) by (intro dd_read_loop_id)
  then show ?thesis using Some f(1) by (simp add: dd_readFile_def um_at_def concat_split)
qed

lemma dd_rel_exec:
  assumes "dd_rel fp W m s" "inj_on fp W" "dd_chunks p \<subseteq> W"
  shows "dd_rel fp W (dd_spec p m) (dd_exec fp p s)"
proof (cases p)
  case (DWrite n d)
  let ?s = "fold (dd_write_one fp) (split d) s" and ?fm = "um_put n (map fp (split d)) (file_fp_map s)"
  have W: "set (split d) \<subseteq> W" using assms(3) DWrite by simp
  have inv: "dd_inv fp W (\<lambda>f. need_of (file_fp_map s) f + count_list (map fp (split d)) f) ?s"
    and fm: "file_fp_map ?s = file_fp_map s"
    using dd_inv_write_chunks [OF _ W] assms(1) by (auto simp: dd_rel_def)
  have "need_of ?fm f \<le> need_of (file_fp_map s) f + count_list (map fp (split d)) f" for f
    using assms(1) um_sum_erase [of "file_fp_map s" n _ "\<lambda>fs. count_list fs f"]
    by (cases "um_find (file_fp_map s) n")
      (auto simp: need_of_def dd_rel_def um_sum_put um_erase_absent)
  with inv have "dd_inv fp W (need_of ?fm) ?s" by (rule dd_inv_mono)
  then show ?thesis
    using assms(1) W DWrite by (auto simp: dd_rel_def dd_writeFile_def Let_def fm dd_inv_files cxx_inv cxx_map um_at_def)
next
  case (DRead n)
  have "dd_rel fp W m (s\<lparr>file_fp_map := um_touch [] n (file_fp_map s)\<rparr>)"
    using assms(1) by (auto simp: dd_rel_def dd_inv_files need_of_touch [abs_def] cxx_inv um_at_def um_find_touch)
  then show ?thesis using DRead dd_readFile_rel [OF assms(1,2)] by simp
next
  case (DDelete n)
  show ?thesis
  proof (cases "um_find (file_fp_map s) n")
    case None
    then show ?thesis using DDelete assms(1) by (auto simp: dd_rel_def dd_deleteFile_def um_at_def)
  next
    case (Some fs)
    let ?s = "fold dd_delete_one fs s"
    have ok: "um_ok (file_fp_map s)" using assms(1) by (simp add: dd_rel_def)
    have need: "need_of (file_fp_map s) f = count_list fs f + need_of (um_erase n (file_fp_map s)) f" for f
      unfolding need_of_def by (rule um_sum_erase [OF ok Some])
    have "dd_inv fp W (\<lambda>f. need_of (file_fp_map s) f - count_list fs f) ?s"
      and fm: "file_fp_map ?s = file_fp_map s"
      using dd_inv_delete_chunks [of fp W "need_of (file_fp_map s)" s fs] assms(1) by (auto simp: dd_rel_def need)
    then have "dd_inv fp W (need_of (um_erase n (file_fp_map s))) ?s" by (simp add: need)
    then show ?thesis
      using assms(1) DDelete Some
      by (auto simp: dd_rel_def dd_deleteFile_def Let_def fm dd_inv_files cxx_inv cxx_map um_at_def)
  qed
qed

lemma dd_rel_run:
  assumes "inj_on fp W"
  shows "dd_rel fp W m s \<Longrightarrow> (\<Union>p \<in> set ps. dd_chunks p) \<subseteq> W \<Longrightarrow> dd_rel fp W (fold dd_spec ps m) (fold (dd_exec fp) ps s)"
  by (induction ps arbitrary: m s) (simp_all add: dd_rel_exec assms)

text \<open>
  C26. The deduplicating store implements a map from names to contents, and stores no chunk twice. After
  any writes (of new names or over old ones), reads and deletions whose chunks the fingerprint
  separates, a read returns the data written last under the name, and two addresses never hold the
  same chunk.
\<close>
theorem dd_files:
  assumes "inj_on fp W" "(\<Union>p \<in> set ps. dd_chunks p) \<subseteq> W"
  shows "fst (dd_readFile n (fold (dd_exec fp) ps dd_new)) =
      (case fold dd_spec ps Map.empty n of None \<Rightarrow> [] | Some d \<Rightarrow> d) \<and>
    inj_on (um_find (storage (fold (dd_exec fp) ps dd_new))) (dom (um_find (storage (fold (dd_exec fp) ps dd_new))))"
proof -
  let ?s = "fold (dd_exec fp) ps dd_new"
  have "dd_rel fp W Map.empty dd_new"
    by (simp add: dd_rel_def dd_new_def dd_inv_def need_of_def um_ok_def um_at_def)
  then have rel: "dd_rel fp W (fold dd_spec ps Map.empty) ?s" using assms(2) by (rule dd_rel_run [OF assms(1)])
  then have inv: "dd_inv fp W (need_of (file_fp_map ?s)) ?s" by (simp add: dd_rel_def)
  have "a = b" if "um_find (storage ?s) a = Some d" "um_find (storage ?s) b = Some d" for a b d
    using dd_invD(6) [OF inv that(1)] dd_invD(6) [OF inv that(2)] by auto
  then have "inj_on (um_find (storage ?s)) (dom (um_find (storage ?s)))"
    by (intro inj_onI) (metis domD)
  then show ?thesis using dd_readFile_rel [OF rel assms(1)] by simp
qed

theorem dd_files_witness:
  "fst (dd_readFile ''f'' (fold (dd_exec id)
     [DWrite ''f'' ''aaaaaaaabbbbbbbbaaaaaaaacc'', DWrite ''g'' ''bbbbbbbb'', DDelete ''g''] dd_new)) = ''aaaaaaaabbbbbbbbaaaaaaaacc''"
proof -
  let ?ps = "[DWrite ''f'' ''aaaaaaaabbbbbbbbaaaaaaaacc'', DWrite ''g'' ''bbbbbbbb'', DDelete ''g'']"
  have "fold dd_spec ?ps Map.empty ''f'' = Some ''aaaaaaaabbbbbbbbaaaaaaaacc''" by simp
  then show ?thesis using dd_files [of id UNIV ?ps "''f''"] by simp
qed

text \<open>
  Overwriting a file never releases the chunks of its old contents: the chunk stays stored with no
  file referring to it, also after the file is deleted.
\<close>
theorem dd_overwrite_leaks:
  "let s = fold (dd_exec id) [DWrite ''f'' ''old'', DWrite ''f'' ''new'', DDelete ''f''] dd_new
   in file_fp_map s = [] \<and> storage s = [(0, ''old'')]"
  by code_simp

end
