(* ===== verification/Indexed_List.thy ===== *)
theory Indexed_List
  imports Prelude "HOL-Library.Monad_Syntax"
begin

text \<open>
  The data structure shared by the caches: a \<^verbatim>\<open>std::list\<close> of keyed nodes and an \<^verbatim>\<open>unordered_map\<close> from
  keys to list iterators. An iterator is the address of its node and stays valid while the node is
  in the list; using one whose node has been erased, or taking the back of an empty list, is
  undefined behaviour, the value \<^const>\<open>None\<close>. The lemmas show that, as long as list and map agree,
  the structure is an association list in recency order.
\<close>

record ('k, 'v) ilist =
  nodes :: "(nat \<times> 'k \<times> 'v) list"
  mm :: "('k, nat) umap"
  fresh :: nat

definition il_new :: "('k, 'v) ilist" where
  "il_new = \<lparr>nodes = [], mm = [], fresh = 0\<rparr>"

definition entries :: "('k, 'v) ilist \<Rightarrow> ('k \<times> 'v) list" where
  "entries s = map snd (nodes s)"

text \<open>Dereferencing an iterator, \<^verbatim>\<open>splice\<close> to the front, assignment through an iterator, \<^verbatim>\<open>erase\<close>.\<close>

definition il_at :: "nat \<Rightarrow> ('k, 'v) ilist \<Rightarrow> ('k \<times> 'v) option" where
  "il_at a s = map_of (nodes s) a"

definition il_splice :: "nat \<Rightarrow> ('k, 'v) ilist \<Rightarrow> ('k, 'v) ilist option" where
  "il_splice a s = do { e \<leftarrow> il_at a s; Some (s\<lparr>nodes := (a, e) # AList.delete a (nodes s)\<rparr>) }"

definition il_assign :: "nat \<Rightarrow> 'v \<Rightarrow> ('k, 'v) ilist \<Rightarrow> ('k, 'v) ilist option" where
  "il_assign a v s = do { _ \<leftarrow> il_at a s;
     Some (s\<lparr>nodes := map (\<lambda>(b, k, x). (b, k, if b = a then v else x)) (nodes s)\<rparr>) }"

definition il_erase :: "nat \<Rightarrow> ('k, 'v) ilist \<Rightarrow> ('k, 'v) ilist option" where
  "il_erase a s = do { _ \<leftarrow> il_at a s; Some (s\<lparr>nodes := AList.delete a (nodes s)\<rparr>) }"

text \<open>\<^verbatim>\<open>back\<close>, \<^verbatim>\<open>pop_back\<close>, \<^verbatim>\<open>push_front\<close>, and the key map.\<close>

definition il_back :: "('k, 'v) ilist \<Rightarrow> ('k \<times> 'v) option" where
  "il_back s = (if nodes s = [] then None else Some (snd (last (nodes s))))"

definition il_pop_back :: "('k, 'v) ilist \<Rightarrow> ('k, 'v) ilist option" where
  "il_pop_back s = (if nodes s = [] then None else Some (s\<lparr>nodes := butlast (nodes s)\<rparr>))"

definition il_push_front :: "'k \<Rightarrow> 'v \<Rightarrow> ('k, 'v) ilist \<Rightarrow> ('k, 'v) ilist" where
  "il_push_front k v s = s\<lparr>nodes := (fresh s, k, v) # nodes s, fresh := fresh s + 1\<rparr>"

definition il_begin :: "('k, 'v) ilist \<Rightarrow> nat" where
  "il_begin s = (case nodes s of [] \<Rightarrow> fresh s | (a, _) # _ \<Rightarrow> a)"

definition mm_put :: "'k \<Rightarrow> nat \<Rightarrow> ('k, 'v) ilist \<Rightarrow> ('k, 'v) ilist" where
  "mm_put k a s = s\<lparr>mm := um_put k a (mm s)\<rparr>"

definition mm_erase :: "'k \<Rightarrow> ('k, 'v) ilist \<Rightarrow> ('k, 'v) ilist" where
  "mm_erase k s = s\<lparr>mm := um_erase k (mm s)\<rparr>"

text \<open>The three compound steps every cache is made of.\<close>

definition il_insert :: "'k \<Rightarrow> 'v \<Rightarrow> ('k, 'v) ilist \<Rightarrow> ('k, 'v) ilist" where
  "il_insert k v s = (let s1 = il_push_front k v s in mm_put k (il_begin s1) s1)"

definition il_evict :: "('k, 'v) ilist \<Rightarrow> (('k \<times> 'v) \<times> ('k, 'v) ilist) option" where
  "il_evict s = do { e \<leftarrow> il_back s; s1 \<leftarrow> il_pop_back s; Some (e, mm_erase (fst e) s1) }"

definition il_remove :: "'k \<Rightarrow> nat \<Rightarrow> ('k, 'v) ilist \<Rightarrow> ('k, 'v) ilist option" where
  "il_remove k a s = do { s1 \<leftarrow> il_erase a s; Some (mm_erase k s1) }"

text \<open>
  The body of a least-recently-used lookup (find the node, read it, move it to the front) and of the
  matching insertion: an existing node is moved to the front and assigned, a new one is pushed after
  making room when the cache is full.
\<close>

definition il_access :: "'k \<Rightarrow> ('k, 'v) ilist \<Rightarrow> ('v option \<times> ('k, 'v) ilist) option" where
  "il_access k c =
     (case um_find (mm c) k of
        None \<Rightarrow> Some (None, c)
      | Some a \<Rightarrow> do { (_, v) \<leftarrow> il_at a c; c' \<leftarrow> il_splice a c; Some (Some v, c') })"

definition il_store :: "bool \<Rightarrow> 'k \<Rightarrow> 'v \<Rightarrow> ('k, 'v) ilist \<Rightarrow> ('k, 'v) ilist option" where
  "il_store full k v c =
     (case um_find (mm c) k of
        Some a \<Rightarrow> do { c1 \<leftarrow> il_splice a c; il_assign a v c1 }
      | None \<Rightarrow> do { c1 \<leftarrow> (if full then map_option snd (il_evict c) else Some c); Some (il_insert k v c1) })"

section \<open>List and map agree\<close>

definition il_ok :: "('k, 'v) ilist \<Rightarrow> bool" where
  "il_ok s \<longleftrightarrow> distinct (map fst (nodes s)) \<and> distinct (map fst (entries s)) \<and> um_ok (mm s) \<and>
     (\<forall>n \<in> set (nodes s). fst n < fresh s) \<and>
     (\<forall>k a. um_find (mm s) k = Some a \<longleftrightarrow> (\<exists>v. (a, k, v) \<in> set (nodes s)))"

lemma il_ok_new: "il_ok il_new" and entries_new: "entries il_new = []"
  by (simp_all add: il_ok_def il_new_def entries_def um_ok_def)

lemma il_ok_distinct: "il_ok s \<Longrightarrow> distinct (map fst (entries s))"
  by (simp add: il_ok_def)

lemma il_ok_find:
  assumes "il_ok s"
  shows "um_find (mm s) k = None \<longleftrightarrow> map_of (entries s) k = None"
    and "um_find (mm s) k = Some a \<Longrightarrow> \<exists>v. il_at a s = Some (k, v) \<and> map_of (entries s) k = Some v"
proof -
  have iff: "um_find (mm s) k = Some a \<longleftrightarrow> (\<exists>v. (a, k, v) \<in> set (nodes s))" for a
    using assms by (simp add: il_ok_def)
  have d: "distinct (map fst (entries s))" "distinct (map fst (nodes s))" using assms by (simp_all add: il_ok_def)
  have "map_of (entries s) k = Some v" if "(a, k, v) \<in> set (nodes s)" for a v
    using d(1) that by (force simp: entries_def)
  then show "um_find (mm s) k = Some a \<Longrightarrow> \<exists>v. il_at a s = Some (k, v) \<and> map_of (entries s) k = Some v"
    using d(2) by (auto simp: iff il_at_def)
  show "um_find (mm s) k = None \<longleftrightarrow> map_of (entries s) k = None"
  proof
    assume n: "um_find (mm s) k = None"
    show "map_of (entries s) k = None"
    proof (rule ccontr)
      assume "map_of (entries s) k \<noteq> None"
      then obtain v where "(k, v) \<in> set (entries s)" by (metis map_of_SomeD not_None_eq)
      then obtain a where "(a, k, v) \<in> set (nodes s)" by (auto simp: entries_def)
      then show False using iff n by auto
    qed
  next
    assume n: "map_of (entries s) k = None"
    show "um_find (mm s) k = None"
    proof (rule ccontr)
      assume "um_find (mm s) k \<noteq> None"
      then obtain a v where "(a, k, v) \<in> set (nodes s)" using iff by blast
      then have "k \<in> fst ` set (entries s)" by (force simp: entries_def)
      then show False using n by (simp add: map_of_eq_None_iff)
    qed
  qed
qed

lemma il_ok_size: "il_ok s \<Longrightarrow> um_size (mm s) = length (nodes s)"
proof -
  assume ok: "il_ok s"
  have "set (map fst (mm s)) = set (map fst (entries s))"
    using il_ok_find(1) [OF ok] by (metis map_of_eq_None_keys subset_antisym subset_iff)
  moreover have "distinct (map fst (mm s))" "distinct (map fst (entries s))"
    using ok by (simp_all add: il_ok_def um_ok_def)
  ultimately have "length (map fst (mm s)) = length (map fst (entries s))" by (metis distinct_card)
  then show ?thesis by (simp add: entries_def)
qed

lemma il_ok_same:
  assumes "il_ok s" "(a, k, v) \<in> set (nodes s)" "(b, j, x) \<in> set (nodes s)"
  shows "b = a \<longleftrightarrow> j = k"
proof
  assume "b = a"
  then have "(k, v) = (j, x)" using assms by (auto simp: il_ok_def dest: eq_key_imp_eq_value)
  then show "j = k" by simp
next
  assume "j = k"
  then have "um_find (mm s) k = Some b" "um_find (mm s) k = Some a"
    using assms unfolding il_ok_def by blast+
  then show "b = a" by simp
qed

lemma nodes_delete:
  assumes "il_ok s" "(a, k, v) \<in> set (nodes s)"
  shows "map snd (AList.delete a (nodes s)) = AList.delete k (entries s)"
proof -
  have "(fst n = a) = (fst (snd n) = k)" if "n \<in> set (nodes s)" for n
    using il_ok_same [OF assms, of "fst n" "fst (snd n)" "snd (snd n)"] that by simp
  then have "filter (\<lambda>n. a \<noteq> fst n) (nodes s) = filter (\<lambda>n. k \<noteq> fst (snd n)) (nodes s)"
    by (intro filter_cong) auto
  then show ?thesis
    by (simp add: AList.delete_eq entries_def filter_map comp_def case_prod_unfold)
qed

lemma il_ok_node:
  assumes "il_ok s" "um_find (mm s) k = Some a"
  obtains v where "(a, k, v) \<in> set (nodes s)" "il_at a s = Some (k, v)" "map_of (entries s) k = Some v"
  using il_ok_find(2) [OF assms] by (metis il_at_def map_of_SomeD)

lemma il_splice_ok:
  assumes "il_ok s" "um_find (mm s) k = Some a"
  shows "\<exists>v s'. il_at a s = Some (k, v) \<and> map_of (entries s) k = Some v \<and> il_splice a s = Some s' \<and> il_ok s' \<and>
    entries s' = (k, v) # AList.delete k (entries s) \<and> mm s' = mm s"
proof -
  obtain v where v: "(a, k, v) \<in> set (nodes s)" "il_at a s = Some (k, v)" "map_of (entries s) k = Some v"
    using il_ok_node [OF assms] .
  let ?s = "s\<lparr>nodes := (a, k, v) # AList.delete a (nodes s)\<rparr>"
  have e: "entries ?s = (k, v) # AList.delete k (entries s)"
    using nodes_delete [OF assms(1) v(1)] by (simp add: entries_def)
  have set_eq: "set (nodes ?s) = set (nodes s)"
    using v(1) assms(1) by (auto simp: set_alist_delete il_ok_def dest: eq_key_imp_eq_value)
  have "distinct (map fst (nodes ?s))" "distinct (map fst (entries ?s))"
    using assms(1) by (simp_all add: e il_ok_def distinct_removeAll delete_keys)
  then have "il_ok ?s" using assms(1) set_eq by (simp add: il_ok_def)
  then show ?thesis using v e by (simp add: il_splice_def)
qed

lemma il_remove_ok:
  assumes "il_ok s" "um_find (mm s) k = Some a"
  shows "\<exists>s'. il_remove k a s = Some s' \<and> il_ok s' \<and> entries s' = AList.delete k (entries s)"
proof -
  obtain v where v: "(a, k, v) \<in> set (nodes s)" "il_at a s = Some (k, v)" using il_ok_node [OF assms] .
  let ?s = "s\<lparr>nodes := AList.delete a (nodes s), mm := um_erase k (mm s)\<rparr>"
  have e: "entries ?s = AList.delete k (entries s)"
    using nodes_delete [OF assms(1) v(1)] by (simp add: entries_def)
  have iff: "um_find (mm s) j = Some b \<longleftrightarrow> (\<exists>w. (b, j, w) \<in> set (nodes s))" for j b
    using assms(1) by (simp add: il_ok_def)
  have "um_find (mm ?s) j = Some b \<longleftrightarrow> (\<exists>w. (b, j, w) \<in> set (nodes ?s))" for j b
  proof (cases "j = k")
    case True
    have "b = a" if "(b, k, w) \<in> set (nodes s)" for w using iff [of k b] iff [of k a] that v(1) by auto
    then show ?thesis using True by (auto simp: cxx_map set_alist_delete)
  next
    case False
    then have "b \<noteq> a" if "(b, j, w) \<in> set (nodes s)" for w
      using that v(1) assms(1) by (auto simp: il_ok_def dest: eq_key_imp_eq_value)
    then show ?thesis using False by (auto simp: cxx_map set_alist_delete iff)
  qed
  moreover have "distinct (map fst (entries ?s))" using assms(1) unfolding e by (simp add: il_ok_def distinct_delete)
  ultimately have "il_ok ?s"
    using assms(1) by (simp add: il_ok_def distinct_delete cxx_inv set_alist_delete)
  then show ?thesis using v e by (simp add: il_remove_def il_erase_def mm_erase_def)
qed

lemma il_insert_ok:
  assumes "il_ok s" "map_of (entries s) k = None"
  shows "il_ok (il_insert k v s)" "entries (il_insert k v s) = (k, v) # entries s"
proof -
  let ?s = "s\<lparr>nodes := (fresh s, k, v) # nodes s, fresh := fresh s + 1, mm := um_put k (fresh s) (mm s)\<rparr>"
  have eq: "il_insert k v s = ?s"
    by (simp add: il_insert_def il_push_front_def mm_put_def il_begin_def)
  show e: "entries (il_insert k v s) = (k, v) # entries s" by (simp add: eq entries_def)
  have iff: "um_find (mm s) j = Some b \<longleftrightarrow> (\<exists>w. (b, j, w) \<in> set (nodes s))" for j b
    using assms(1) by (simp add: il_ok_def)
  have none: "um_find (mm s) k = None" using il_ok_find(1) [OF assms(1)] assms(2) by simp
  have lt: "fst n < fresh s" if "n \<in> set (nodes s)" for n using assms(1) that by (simp add: il_ok_def)
  have "(um_find (mm ?s) j = Some b) = (\<exists>w. (b, j, w) \<in> set (nodes ?s))" for j b
    using none iff [of j b] iff [of k b] by (auto simp: cxx_map)
  moreover have "fresh s \<notin> fst ` set (nodes s)" using lt by fastforce
  then have "distinct (map fst (nodes ?s))" using assms(1) by (simp add: il_ok_def)
  moreover have "distinct (map fst (entries ?s))"
    using assms by (auto simp: entries_def il_ok_def map_of_eq_None_iff)
  moreover have "\<forall>n \<in> set (nodes ?s). fst n < fresh ?s" using lt by (auto intro: less_SucI)
  ultimately show "il_ok (il_insert k v s)"
    using assms(1) unfolding eq il_ok_def by (simp add: cxx_inv)
qed

lemma il_evict_ok:
  assumes "il_ok s" "entries s \<noteq> []"
  shows "\<exists>s'. il_evict s = Some (last (entries s), s') \<and> il_ok s' \<and> entries s' = butlast (entries s)"
proof -
  have ne: "nodes s \<noteq> []" using assms(2) by (simp add: entries_def)
  obtain a k v where l: "last (nodes s) = (a, k, v)" by (cases "last (nodes s)") auto
  have inn: "(a, k, v) \<in> set (nodes s)" using l ne last_in_set by metis
  then have k: "um_find (mm s) k = Some a" using assms(1) by (auto simp: il_ok_def)
  have "AList.delete a (nodes s) = butlast (nodes s)"
    using alist_delete_last [of "nodes s"] ne l assms(1) by (simp add: il_ok_def)
  moreover have at: "il_at a s = Some (k, v)" using inn assms(1) by (simp add: il_at_def il_ok_def)
  ultimately have "il_evict s = map_option (Pair (k, v)) (il_remove k a s)"
    using ne l by (simp add: il_evict_def il_back_def il_pop_back_def il_remove_def il_erase_def mm_erase_def)
  moreover have "last (entries s) = (k, v)" using l ne by (simp add: entries_def last_map)
  moreover have "AList.delete k (entries s) = butlast (entries s)"
    using alist_delete_last [of "entries s"] assms calculation(2) by (simp add: il_ok_def)
  ultimately show ?thesis using il_remove_ok [OF assms(1) k] by auto
qed

definition assign_entry :: "'k \<Rightarrow> 'v \<Rightarrow> ('k \<times> 'v) list \<Rightarrow> ('k \<times> 'v) list" where
  "assign_entry k w es = map (\<lambda>(j, x). (j, if j = k then w else x)) es"

lemma assign_entry_keys [simp]: "map fst (assign_entry k w es) = map fst es"
  by (simp add: assign_entry_def case_prod_unfold)

lemma assign_entry_length [simp]: "length (assign_entry k w es) = length es"
  by (simp add: assign_entry_def)

lemma assign_entry_find:
  "map_of (assign_entry k w es) j = (if j = k then map_option (\<lambda>_. w) (map_of es j) else map_of es j)"
  by (induction es) (auto simp: assign_entry_def)

lemma assign_entry_front:
  "assign_entry k w ((k, v) # AList.delete k es) = (k, w) # AList.delete k es"
  by (auto simp: assign_entry_def set_alist_delete intro!: map_idI)

lemma il_assign_ok:
  assumes "il_ok s" "um_find (mm s) k = Some a"
  shows "\<exists>s'. il_assign a w s = Some s' \<and> il_ok s' \<and> entries s' = assign_entry k w (entries s) \<and> mm s' = mm s"
proof -
  obtain v where v: "(a, k, v) \<in> set (nodes s)" "il_at a s = Some (k, v)" using il_ok_node [OF assms] .
  have iff: "um_find (mm s) j = Some b \<longleftrightarrow> (\<exists>x. (b, j, x) \<in> set (nodes s))" for j b
    using assms(1) by (simp add: il_ok_def)
  let ?f = "\<lambda>(b, j, x). (b, j, if b = a then w else x)"
  let ?s = "s\<lparr>nodes := map ?f (nodes s)\<rparr>"
  have "b = a \<longleftrightarrow> j = k" if "(b, j, x) \<in> set (nodes s)" for b j x
    using il_ok_same [OF assms(1) v(1) that] .
  then have e: "entries ?s = assign_entry k w (entries s)"
    by (auto simp: entries_def assign_entry_def)
  have keys: "map fst (nodes ?s) = map fst (nodes s)" by (simp add: case_prod_unfold)
  have "(\<exists>x. (b, j, x) \<in> set (nodes ?s)) = (\<exists>x. (b, j, x) \<in> set (nodes s))" for b j
    by (force simp: image_iff)
  moreover have "\<forall>n \<in> set (nodes ?s). fst n < fresh ?s"
    using assms(1) by (auto simp: il_ok_def)
  moreover have "distinct (map fst (nodes ?s))" "distinct (map fst (entries ?s))"
    using assms(1) unfolding keys e by (simp_all add: il_ok_def)
  ultimately have "il_ok ?s" using assms(1) unfolding il_ok_def by (simp add: iff)
  then show ?thesis using v e by (simp add: il_assign_def)
qed

lemma il_access_miss: "il_ok c \<Longrightarrow> map_of (entries c) k = None \<Longrightarrow> il_access k c = Some (None, c)"
  using il_ok_find(1) [of c k] by (simp add: il_access_def)

lemma il_hit_address: "il_ok c \<Longrightarrow> map_of (entries c) k = Some v \<Longrightarrow> \<exists>a. um_find (mm c) k = Some a"
  using il_ok_find(1) [of c k] by auto

lemma il_access_hit:
  assumes "il_ok c" "map_of (entries c) k = Some v"
  shows "\<exists>c'. il_access k c = Some (Some v, c') \<and> il_ok c' \<and> entries c' = (k, v) # AList.delete k (entries c)"
proof -
  obtain a where a: "um_find (mm c) k = Some a" using il_hit_address [OF assms] by blast
  then show ?thesis using il_splice_ok [OF assms(1) a] assms(2) by (auto simp: il_access_def)
qed

lemma il_store_hit:
  assumes "il_ok c" "map_of (entries c) k = Some w"
  shows "\<exists>c'. il_store full k v c = Some c' \<and> il_ok c' \<and> entries c' = (k, v) # AList.delete k (entries c)"
proof -
  obtain a where a: "um_find (mm c) k = Some a" using il_hit_address [OF assms] by blast
  obtain x c1 where c1: "il_splice a c = Some c1" "il_ok c1" "entries c1 = (k, x) # AList.delete k (entries c)" "mm c1 = mm c"
    using il_splice_ok [OF assms(1) a] by blast
  then show ?thesis
    using il_assign_ok [OF c1(2), of k a v] a by (auto simp: il_store_def assign_entry_front)
qed

lemma il_store_miss:
  assumes "il_ok c" "map_of (entries c) k = None" "full \<Longrightarrow> entries c \<noteq> []"
  shows "\<exists>c'. il_store full k v c = Some c' \<and> il_ok c' \<and>
    entries c' = (k, v) # (if full then butlast (entries c) else entries c)"
proof (cases full)
  case True
  then obtain c1 where c1: "il_evict c = Some (last (entries c), c1)" "il_ok c1" "entries c1 = butlast (entries c)"
    using il_evict_ok [OF assms(1)] assms(3) by blast
  then have "map_of (entries c1) k = None"
    using assms(2) by (metis in_set_butlastD map_butlast map_of_eq_None_keys)
  then show ?thesis
    using True c1 il_insert_ok [OF c1(2), of k v] il_ok_find(1) [OF assms(1), of k] assms(2)
    by (simp add: il_store_def)
next
  case False
  then show ?thesis
    using il_insert_ok [OF assms(1,2), of v] il_ok_find(1) [OF assms(1), of k] assms(2)
    by (simp add: il_store_def)
qed

end
