(* ===== verification/LRU_Cache.thy ===== *)
theory LRU_Cache
  imports Indexed_List
begin

text \<open>
  The least-recently-used caches: \<^verbatim>\<open>caching/LRUcache_multiThreaded.cpp\<close>, its sharded form
  \<^verbatim>\<open>caching/LRUcache_multiThreaded_sharded.cpp\<close> and the policy of
  \<^verbatim>\<open>oop-framework/GenericEviction_Cache.cpp\<close>. One interface states what an LRU cache promises; each
  class is shown to satisfy it.
\<close>

section \<open>What an LRU cache promises\<close>

datatype ('k, 'v) cache_op = CGet 'k | CPut 'k 'v

text \<open>
  The keys in order of last use, unbounded; a lookup counts as a use only when it hits, that is when
  the key is among the first \<open>n\<close>.
\<close>

fun recency :: "nat \<Rightarrow> ('k, 'v) cache_op \<Rightarrow> 'k list \<Rightarrow> 'k list" where
  "recency n (CGet k) r = (if k \<in> set (take n r) then k # removeAll k r else r)"
| "recency n (CPut k v) r = k # removeAll k r"

fun last_put :: "('k, 'v) cache_op \<Rightarrow> ('k \<rightharpoonup> 'v) \<Rightarrow> ('k \<rightharpoonup> 'v)" where
  "last_put (CGet k) m = m"
| "last_put (CPut k v) m = m(k \<mapsto> v)"

fun cache_run ::
  "('k \<Rightarrow> 's \<Rightarrow> ('r \<times> 's) option) \<Rightarrow> ('k \<Rightarrow> 'v \<Rightarrow> 's \<Rightarrow> 's option) \<Rightarrow> ('k, 'v) cache_op list \<Rightarrow> 's \<Rightarrow> 's option" where
  "cache_run get put [] s = Some s"
| "cache_run get put (CGet k # ps) s = do { (_, s') \<leftarrow> get k s; cache_run get put ps s' }"
| "cache_run get put (CPut k v # ps) s = do { s' \<leftarrow> put k v s; cache_run get put ps s' }"

lemma take_removeAll_hit:
  assumes "distinct r" "k \<in> set (take n r)"
  shows "take n (k # removeAll k r) = k # removeAll k (take n r)"
  using assms
proof (induction r arbitrary: n)
  case (Cons x r)
  then obtain m where n: "n = Suc m" by (cases n) auto
  show ?case
  proof (cases "x = k")
    case True
    then have "k \<notin> set r" using Cons.prems(1) by simp
    then have "k \<notin> set (take m r)" by (meson in_set_takeD)
    then show ?thesis using True n \<open>k \<notin> set r\<close> by simp
  next
    case False
    then have k: "k \<in> set (take m r)" using Cons.prems n by simp
    then obtain l where m: "m = Suc l" by (cases m) auto
    show ?thesis using Cons.IH [OF _ k] Cons.prems(1) False n m by simp
  qed
qed simp

lemma take_removeAll_miss:
  assumes "k \<notin> set (take n r)" "0 < n"
  shows "take n (k # removeAll k r) = k # (if length (take n r) = n then butlast (take n r) else take n r)"
proof (cases "n \<le> length r")
  case True
  obtain m where m: "n = Suc m" using assms(2) by (cases n) auto
  have "removeAll k r = take n r @ removeAll k (drop n r)"
    using assms(1) by (metis append_take_drop_id removeAll_append removeAll_id)
  then have "take m (removeAll k r) = take m (take n r)" using True m by simp
  then show ?thesis using True m by (simp add: butlast_take)
next
  case False
  then have "k \<notin> set r" using assms(1) by simp
  then show ?thesis using False assms(2) by (cases n) auto
qed

locale lru_cache =
  fixes get :: "'k \<Rightarrow> 's \<Rightarrow> ('r \<times> 's) option" and put :: "'k \<Rightarrow> 'v \<Rightarrow> 's \<Rightarrow> 's option"
    and ret :: "'v option \<Rightarrow> 'r" and ok :: "'s \<Rightarrow> bool" and ents :: "'s \<Rightarrow> ('k \<times> 'v) list" and cap :: "'s \<Rightarrow> nat"
  assumes cap_pos: "ok s \<Longrightarrow> 0 < cap s"
    and get_miss: "ok s \<Longrightarrow> map_of (ents s) k = None \<Longrightarrow> get k s = Some (ret None, s)"
    and get_hit: "ok s \<Longrightarrow> map_of (ents s) k = Some v \<Longrightarrow>
      \<exists>s'. get k s = Some (ret (Some v), s') \<and> ok s' \<and> cap s' = cap s \<and> ents s' = (k, v) # AList.delete k (ents s)"
    and put_hit: "ok s \<Longrightarrow> map_of (ents s) k = Some w \<Longrightarrow>
      \<exists>s'. put k v s = Some s' \<and> ok s' \<and> cap s' = cap s \<and> ents s' = (k, v) # AList.delete k (ents s)"
    and put_miss: "ok s \<Longrightarrow> map_of (ents s) k = None \<Longrightarrow>
      \<exists>s'. put k v s = Some s' \<and> ok s' \<and> cap s' = cap s \<and>
        ents s' = (k, v) # (if length (ents s) = cap s then butlast (ents s) else ents s)"
begin

lemma put_ok: "ok s \<Longrightarrow> \<exists>s'. put k v s = Some s' \<and> ok s' \<and> cap s' = cap s"
  using put_miss [of s k v] put_hit [of s k _ v] by (cases "map_of (ents s) k") blast+

lemma get_ok: "ok s \<Longrightarrow> \<exists>x s'. get k s = Some (x, s') \<and> ok s' \<and> cap s' = cap s"
  using get_miss [of s k] get_hit [of s k] by (cases "map_of (ents s) k") blast+

definition tracks :: "'k list \<Rightarrow> ('k \<rightharpoonup> 'v) \<Rightarrow> 's \<Rightarrow> bool" where
  "tracks r m s \<longleftrightarrow> ok s \<and> distinct r \<and> map fst (ents s) = take (cap s) r \<and>
     (\<forall>k v. map_of (ents s) k = Some v \<longrightarrow> m k = Some v)"

lemma tracks_hit:
  assumes "tracks r m s" "map_of (ents s) k = Some w" "ok s'" "cap s' = cap s"
    and "ents s' = (k, v) # AList.delete k (ents s)" "m' k = Some v" "\<And>j. j \<noteq> k \<Longrightarrow> m' j = m j"
  shows "tracks (k # removeAll k r) m' s'"
proof -
  have k: "k \<in> set (take (cap s) r)"
    using assms(1,2) by (metis tracks_def map_of_SomeD_key)
  have "map fst (ents s') = k # removeAll k (take (cap s) r)"
    using assms(1,5) by (simp add: tracks_def delete_keys)
  also have "\<dots> = take (cap s') (k # removeAll k r)"
    using take_removeAll_hit [OF _ k] assms(1,4) by (simp add: tracks_def)
  finally show ?thesis
    using assms by (auto simp: tracks_def distinct_removeAll delete_conv')
qed

lemma tracks_miss:
  assumes "tracks r m s" "map_of (ents s) k = None" "ok s'" "cap s' = cap s"
    and "ents s' = (k, v) # (if length (ents s) = cap s then butlast (ents s) else ents s)"
  shows "tracks (k # removeAll k r) (m(k \<mapsto> v)) s'"
proof -
  have keys: "map fst (ents s) = take (cap s) r" using assms(1) by (simp add: tracks_def)
  have k: "k \<notin> set (take (cap s) r)"
    using assms(2) keys by (metis map_of_eq_None_keys)
  have len: "length (ents s) = length (take (cap s) r)" by (metis keys length_map)
  have "map fst (ents s') = take (cap s') (k # removeAll k r)"
    using take_removeAll_miss [OF k cap_pos] assms keys len by (simp add: tracks_def map_butlast)
  moreover have "distinct (map fst (ents s))" using assms(1) keys by (simp add: tracks_def)
  ultimately show ?thesis
    using assms by (auto simp: tracks_def distinct_removeAll split: if_splits dest!: map_of_SomeD dest: in_set_butlastD)
qed

lemma run_tracks:
  "tracks r m s \<Longrightarrow>
   \<exists>s'. cache_run get put ps s = Some s' \<and> cap s' = cap s \<and> tracks (fold (recency (cap s)) ps r) (fold last_put ps m) s'"
proof (induction ps arbitrary: r m s)
  case (Cons p ps)
  have ok: "ok s" using Cons.prems by (simp add: tracks_def)
  have keys: "k \<in> set (take (cap s) r) \<longleftrightarrow> map_of (ents s) k \<noteq> None" for k
    using Cons.prems by (metis tracks_def map_of_eq_None_keys)
  show ?case
  proof (cases p)
    case (CGet k)
    show ?thesis
    proof (cases "map_of (ents s) k")
      case None
      then show ?thesis using Cons CGet get_miss [OF ok None] keys by simp
    next
      case (Some v)
      obtain s' where s': "get k s = Some (ret (Some v), s')" "ok s'" "cap s' = cap s" "ents s' = (k, v) # AList.delete k (ents s)"
        using get_hit [OF ok Some] by blast
      have "m k = Some v" using Cons.prems Some by (simp add: tracks_def)
      then have "tracks (k # removeAll k r) m s'" using tracks_hit [OF Cons.prems Some s'(2-4)] by simp
      then show ?thesis using Cons.IH [of "k # removeAll k r" m s'] CGet s' keys [of k] Some by simp
    qed
  next
    case (CPut k v)
    have "\<exists>s'. put k v s = Some s' \<and> cap s' = cap s \<and> tracks (k # removeAll k r) (m(k \<mapsto> v)) s'"
    proof (cases "map_of (ents s) k")
      case None
      then show ?thesis using put_miss [OF ok None] tracks_miss [OF Cons.prems None] by blast
    next
      case (Some w)
      then show ?thesis using put_hit [OF ok Some, of v] tracks_hit [OF Cons.prems Some, of _ v "m(k \<mapsto> v)"] by fastforce
    qed
    then show ?thesis using Cons.IH CPut by fastforce
  qed
qed auto

lemma lookup:
  assumes "ok s" "ents s = []"
  shows "\<exists>t t'. cache_run get put ps s = Some t \<and>
    map fst (ents t) = take (cap s) (fold (recency (cap s)) ps []) \<and>
    get k t = Some (ret (if k \<in> set (take (cap s) (fold (recency (cap s)) ps [])) then fold last_put ps Map.empty k else None), t')"
proof -
  have "tracks [] Map.empty s" using assms by (simp add: tracks_def)
  then obtain t where t: "cache_run get put ps s = Some t" "cap t = cap s"
    "tracks (fold (recency (cap s)) ps []) (fold last_put ps Map.empty) t"
    using run_tracks by blast
  then have ok: "ok t" and keys: "map fst (ents t) = take (cap s) (fold (recency (cap s)) ps [])"
    and v: "map_of (ents t) k = Some v \<Longrightarrow> fold last_put ps Map.empty k = Some v" for v
    by (auto simp: tracks_def)
  have iff: "k \<in> set (take (cap s) (fold (recency (cap s)) ps [])) \<longleftrightarrow> map_of (ents t) k \<noteq> None"
    using keys by (metis map_of_eq_None_keys)
  show ?thesis
  proof (cases "map_of (ents t) k")
    case None
    then show ?thesis using t keys iff get_miss [OF ok None] by auto
  next
    case (Some w)
    then show ?thesis using t keys iff get_hit [OF ok Some] v [OF Some] by fastforce
  qed
qed

end

section \<open>The multi-threaded cache\<close>

text \<open>
  \<^verbatim>\<open>get\<close> has two critical sections: the lookup under the reader lock, and the move to the front under
  the writer lock with the iterator found before.
\<close>

record lru =
  Tcapacity :: int
  cache :: "(int, int) ilist"

definition lru_new :: "int \<Rightarrow> lru" where
  "lru_new n = \<lparr>Tcapacity = n, cache = il_new\<rparr>"

definition lru_get_read :: "int \<Rightarrow> lru \<Rightarrow> (nat \<times> int) option option" where
  "lru_get_read k s =
     (case um_find (mm (cache s)) k of
        None \<Rightarrow> Some None
      | Some a \<Rightarrow> do { (_, v) \<leftarrow> il_at a (cache s); Some (Some (a, v)) })"

definition lru_get_write :: "nat \<Rightarrow> lru \<Rightarrow> lru option" where
  "lru_get_write a s = do { c \<leftarrow> il_splice a (cache s); Some (s\<lparr>cache := c\<rparr>) }"

definition lru_get :: "int \<Rightarrow> lru \<Rightarrow> (int \<times> lru) option" where
  "lru_get k s = do {
     r \<leftarrow> lru_get_read k s;
     (case r of
        None \<Rightarrow> Some (-1, s)
      | Some (a, v) \<Rightarrow> do { s' \<leftarrow> lru_get_write a s; Some (v, s') }) }"

definition lru_put :: "int \<Rightarrow> int \<Rightarrow> lru \<Rightarrow> lru option" where
  "lru_put k v s = do {
     c \<leftarrow> il_store (int (um_size (mm (cache s))) = size_t (Tcapacity s)) k v (cache s);
     Some (s\<lparr>cache := c\<rparr>) }"

definition or_minus_1 :: "int option \<Rightarrow> int" where
  "or_minus_1 v = (case v of None \<Rightarrow> -1 | Some x \<Rightarrow> x)"

definition lru_ok :: "lru \<Rightarrow> bool" where
  "lru_ok s \<longleftrightarrow> 0 < Tcapacity s \<and> Tcapacity s < 2 ^ 31 \<and> il_ok (cache s)"

lemma il_full_iff:
  "il_ok c \<Longrightarrow> 0 < n \<Longrightarrow> n < 2 ^ 31 \<Longrightarrow> (int (um_size (mm c)) = size_t n) = (length (entries c) = nat n)"
  by (auto simp: il_ok_size entries_def size_t_pos)

lemma lru_get_access:
  "lru_get k s = do { (v, c) \<leftarrow> il_access k (cache s); Some (or_minus_1 v, s\<lparr>cache := c\<rparr>) }"
  by (auto simp: lru_get_def lru_get_read_def lru_get_write_def il_access_def or_minus_1_def il_splice_def
      split: option.splits bind_splits)

interpretation lru: lru_cache lru_get lru_put or_minus_1 lru_ok "\<lambda>s. entries (cache s)" "\<lambda>s. nat (Tcapacity s)"
proof (unfold_locales, goal_cases)
  case (1 s)
  then show ?case by (simp add: lru_ok_def)
next
  case (2 s k)
  then show ?case using il_access_miss [of "cache s" k] by (simp add: lru_get_access lru_ok_def)
next
  case (3 s k v)
  then show ?case using il_access_hit [of "cache s" k v] by (auto simp: lru_get_access lru_ok_def or_minus_1_def)
next
  case (4 s k w v)
  then show ?case using il_store_hit [of "cache s" k w "int (um_size (mm (cache s))) = size_t (Tcapacity s)" v]
    by (auto simp: lru_put_def lru_ok_def)
next
  case (5 s k v)
  then have ok: "il_ok (cache s)" "0 < Tcapacity s" "Tcapacity s < 2 ^ 31" by (simp_all add: lru_ok_def)
  have "length (entries (cache s)) = nat (Tcapacity s) \<Longrightarrow> entries (cache s) \<noteq> []" using ok by auto
  then show ?case
    using il_store_miss [OF ok(1) 5(2), of "length (entries (cache s)) = nat (Tcapacity s)" v] ok 5(1)
    by (auto simp: lru_put_def lru_ok_def il_full_iff)
qed

text \<open>
  C16. An LRU cache keeps exactly the most recently used keys with their last values. From an empty
  cache with positive capacity, no sequence of calls has undefined behaviour; the keys held are the
  first \<open>capacity\<close> keys in order of last use, most recent first; and a lookup returns the value last
  put for a key held and -1 for any other.
\<close>
theorem lru_recency:
  assumes "0 < n" "n < 2 ^ 31"
  shows "\<exists>t t'. cache_run lru_get lru_put ps (lru_new n) = Some t \<and>
    map fst (entries (cache t)) = take (nat n) (fold (recency (nat n)) ps []) \<and>
    lru_get k t = Some (or_minus_1 (if k \<in> set (take (nat n) (fold (recency (nat n)) ps []))
      then fold last_put ps Map.empty k else None), t')"
  using lru.lookup [of "lru_new n" ps k] assms
  by (simp add: lru_new_def lru_ok_def il_ok_new entries_new)

theorem lru_recency_witness:
  "\<exists>t t'. cache_run lru_get lru_put [CPut 1 10, CPut 2 20, CGet 1, CPut 3 30] (lru_new 2) = Some t \<and>
     map fst (entries (cache t)) = [3, 1] \<and> lru_get 2 t = Some (-1, t')"
  using lru_recency [of 2 "[CPut 1 10, CPut 2 20, CGet 1, CPut 3 30]" 2]
  by (simp add: or_minus_1_def)

text \<open>
  Between the two critical sections of \<^verbatim>\<open>get\<close> another thread may evict the node: the iterator then
  dangles and the splice is undefined behaviour.
\<close>
theorem lru_get_race:
  "\<exists>s a v t. lru_ok s \<and> lru_get_read 1 s = Some (Some (a, v)) \<and> lru_put 2 20 s = Some t \<and> lru_get_write a t = None"
proof -
  let ?s = "the (lru_put 1 10 (lru_new 1))"
  have "lru_ok (lru_new 1)" by (simp add: lru_new_def lru_ok_def il_ok_new)
  then have "lru_ok ?s" using lru.put_miss [of "lru_new 1" 1 10] by (auto simp: lru_new_def entries_new)
  moreover have "lru_get_read 1 ?s = Some (Some (0, 10))" "lru_put 2 20 ?s = Some (the (lru_put 2 20 ?s))"
    "lru_get_write 0 (the (lru_put 2 20 ?s)) = None"
    by code_simp+
  ultimately show ?thesis by blast
qed

section \<open>The sharded cache\<close>

text \<open>
  Eight buckets chosen by \<^verbatim>\<open>key % 8\<close>, each an LRU cache. The remainder is negative for most negative
  keys, and \<^verbatim>\<open>buckets[negative]\<close> is out of bounds: undefined behaviour.
\<close>

record sharded =
  buckets :: "(int, int) ilist list"
  per_bucket_capacity :: int

definition N_BUCKETS :: int where
  "N_BUCKETS = 8"

definition sh_new :: "int \<Rightarrow> sharded" where
  "sh_new n = \<lparr>buckets = replicate (nat N_BUCKETS) il_new,
     per_bucket_capacity = max 1 (if 0 \<le> n then n div N_BUCKETS else - ((- n) div N_BUCKETS))\<rparr>"

definition sh_getBucket :: "int \<Rightarrow> nat option" where
  "sh_getBucket k = (let r = cxx_rem k N_BUCKETS in if r < 0 then None else Some (nat r))"

definition sh_get :: "int \<Rightarrow> sharded \<Rightarrow> (int \<times> sharded) option" where
  "sh_get k s = do {
     i \<leftarrow> sh_getBucket k;
     (v, c) \<leftarrow> il_access k (buckets s ! i);
     Some (or_minus_1 v, s\<lparr>buckets := (buckets s)[i := c]\<rparr>) }"

definition sh_put :: "int \<Rightarrow> int \<Rightarrow> sharded \<Rightarrow> sharded option" where
  "sh_put k v s = do {
     i \<leftarrow> sh_getBucket k;
     let b = buckets s ! i;
     c \<leftarrow> il_store (int (um_size (mm b)) = size_t (per_bucket_capacity s)) k v b;
     Some (s\<lparr>buckets := (buckets s)[i := c]\<rparr>) }"

definition sh_view :: "nat \<Rightarrow> sharded \<Rightarrow> lru" where
  "sh_view i s = \<lparr>Tcapacity = per_bucket_capacity s, cache = buckets s ! i\<rparr>"

definition sh_ok :: "sharded \<Rightarrow> bool" where
  "sh_ok s \<longleftrightarrow> length (buckets s) = 8 \<and> (\<forall>i < 8. lru_ok (sh_view i s))"

fun op_key :: "('k, 'v) cache_op \<Rightarrow> 'k" where
  "op_key (CGet k) = k"
| "op_key (CPut k v) = k"

lemma sh_getBucket_nonneg: "0 \<le> k \<Longrightarrow> sh_getBucket k = Some (nat k mod 8)"
  by (auto simp: sh_getBucket_def cxx_rem_def N_BUCKETS_def Let_def nat_mod_distrib)

lemma sh_set_ok:
  assumes "sh_ok s" "i < 8" "lru_ok t" "Tcapacity t = per_bucket_capacity s"
  shows "sh_ok (s\<lparr>buckets := (buckets s)[i := cache t]\<rparr>)" "sh_view i (s\<lparr>buckets := (buckets s)[i := cache t]\<rparr>) = t"
    and "\<forall>j. i \<noteq> j \<longrightarrow> sh_view j (s\<lparr>buckets := (buckets s)[i := cache t]\<rparr>) = sh_view j s"
proof -
  let ?s = "s\<lparr>buckets := (buckets s)[i := cache t]\<rparr>"
  show v: "sh_view i ?s = t" using assms by (simp add: sh_view_def sh_ok_def)
  show n: "\<forall>j. i \<noteq> j \<longrightarrow> sh_view j ?s = sh_view j s" by (simp add: sh_view_def)
  have "lru_ok (sh_view j ?s)" if "j < 8" for j
    using v n that assms by (cases "i = j") (auto simp: sh_ok_def)
  then show "sh_ok ?s" using assms(1) by (simp add: sh_ok_def)
qed

lemma sh_put_view:
  assumes "sh_ok s" "0 \<le> k"
  shows "\<exists>s' t. sh_put k v s = Some s' \<and> sh_ok s' \<and> per_bucket_capacity s' = per_bucket_capacity s \<and>
    lru_put k v (sh_view (nat k mod 8) s) = Some t \<and> sh_view (nat k mod 8) s' = t \<and>
    (\<forall>i. nat k mod 8 \<noteq> i \<longrightarrow> sh_view i s' = sh_view i s)"
proof -
  let ?i = "nat k mod 8"
  have i: "?i < 8" by simp
  then have "lru_ok (sh_view ?i s)" using assms(1) unfolding sh_ok_def by blast
  then obtain t where t: "lru_put k v (sh_view ?i s) = Some t" "lru_ok t" using lru.put_ok by blast
  have cap: "Tcapacity t = per_bucket_capacity s"
    using t(1) by (auto simp: lru_put_def sh_view_def split: bind_splits)
  let ?s = "s\<lparr>buckets := (buckets s)[?i := cache t]\<rparr>"
  have "sh_put k v s = Some ?s"
    using t(1) assms(2) by (auto simp: sh_put_def lru_put_def sh_view_def sh_getBucket_nonneg Let_def split: bind_splits)
  then show ?thesis using t(1) sh_set_ok [OF assms(1) i t(2) cap] by auto
qed

lemma sh_get_view:
  assumes "sh_ok s" "0 \<le> k"
  shows "\<exists>s' t x. sh_get k s = Some (x, s') \<and> sh_ok s' \<and> per_bucket_capacity s' = per_bucket_capacity s \<and>
    lru_get k (sh_view (nat k mod 8) s) = Some (x, t) \<and> sh_view (nat k mod 8) s' = t \<and>
    (\<forall>i. nat k mod 8 \<noteq> i \<longrightarrow> sh_view i s' = sh_view i s)"
proof -
  let ?i = "nat k mod 8"
  have i: "?i < 8" by simp
  then have "lru_ok (sh_view ?i s)" using assms(1) unfolding sh_ok_def by blast
  then obtain x t where t: "lru_get k (sh_view ?i s) = Some (x, t)" "lru_ok t" using lru.get_ok by blast
  have cap: "Tcapacity t = per_bucket_capacity s"
    using t(1) by (auto simp: lru_get_access sh_view_def split: bind_splits)
  let ?s = "s\<lparr>buckets := (buckets s)[?i := cache t]\<rparr>"
  have "sh_get k s = Some (x, ?s)"
    using t(1) assms(2) by (auto simp: sh_get_def lru_get_access sh_view_def sh_getBucket_nonneg split: bind_splits)
  then show ?thesis using t(1) sh_set_ok [OF assms(1) i t(2) cap] by auto
qed

lemma sh_run_view:
  assumes "sh_ok s" "\<forall>p \<in> set ps. 0 \<le> op_key p"
  shows "\<exists>s'. cache_run sh_get sh_put ps s = Some s' \<and>
    (\<forall>i < 8. cache_run lru_get lru_put (filter (\<lambda>p. nat (op_key p) mod 8 = i) ps) (sh_view i s) = Some (sh_view i s'))"
  using assms
proof (induction ps arbitrary: s)
  case (Cons p ps)
  show ?case
  proof (cases p)
    case (CGet k)
    obtain s1 x where s1: "sh_get k s = Some (x, s1)" "sh_ok s1"
      "lru_get k (sh_view (nat k mod 8) s) = Some (x, sh_view (nat k mod 8) s1)"
      "\<forall>i. nat k mod 8 \<noteq> i \<longrightarrow> sh_view i s1 = sh_view i s"
      using sh_get_view [OF Cons.prems(1), of k] Cons.prems(2) CGet by auto
    then have "cache_run lru_get lru_put (filter (\<lambda>p. nat (op_key p) mod 8 = i) (p # ps)) (sh_view i s) =
        cache_run lru_get lru_put (filter (\<lambda>p. nat (op_key p) mod 8 = i) ps) (sh_view i s1)" for i
      using CGet by (cases "nat k mod 8 = i") auto
    then show ?thesis using Cons.IH [OF s1(2)] Cons.prems(2) CGet s1(1) by simp
  next
    case (CPut k v)
    obtain s1 where s1: "sh_put k v s = Some s1" "sh_ok s1"
      "lru_put k v (sh_view (nat k mod 8) s) = Some (sh_view (nat k mod 8) s1)"
      "\<forall>i. nat k mod 8 \<noteq> i \<longrightarrow> sh_view i s1 = sh_view i s"
      using sh_put_view [OF Cons.prems(1), of k v] Cons.prems(2) CPut by auto
    then have "cache_run lru_get lru_put (filter (\<lambda>p. nat (op_key p) mod 8 = i) (p # ps)) (sh_view i s) =
        cache_run lru_get lru_put (filter (\<lambda>p. nat (op_key p) mod 8 = i) ps) (sh_view i s1)" for i
      using CPut by (cases "nat k mod 8 = i") auto
    then show ?thesis using Cons.IH [OF s1(2)] Cons.prems(2) CPut s1(1) by simp
  qed
qed simp

text \<open>
  Sharding: with non-negative keys the sharded cache is eight independent LRU caches. Every bucket
  holds the most recently used keys among the operations that hash to it, up to the capacity of a
  bucket, and nothing is undefined behaviour whatever the total capacity.
\<close>
theorem sharded_recency:
  assumes "\<forall>p \<in> set ps. 0 \<le> op_key p" "n < 2 ^ 31"
  shows "\<exists>s. cache_run sh_get sh_put ps (sh_new n) = Some s \<and>
    (\<forall>i < 8. map fst (entries (buckets s ! i)) =
      take (max 1 (nat n div 8))
        (fold (recency (max 1 (nat n div 8))) (filter (\<lambda>p. nat (op_key p) mod 8 = i) ps) []))"
proof -
  let ?c = "max 1 (nat n div 8)"
  have new: "sh_view i (sh_new n) = lru_new (int ?c)" if "i < 8" for i
    using that by (auto simp: sh_view_def sh_new_def lru_new_def N_BUCKETS_def max_def zdiv_int)
  have pos: "0 < int ?c" "int ?c < 2 ^ 31" using assms(2) by auto
  then have "sh_ok (sh_new n)"
    unfolding sh_ok_def by (auto simp: new lru_new_def lru_ok_def il_ok_new) (simp add: sh_new_def N_BUCKETS_def)
  then obtain s where s: "cache_run sh_get sh_put ps (sh_new n) = Some s"
    "\<forall>i < 8. cache_run lru_get lru_put (filter (\<lambda>p. nat (op_key p) mod 8 = i) ps) (sh_view i (sh_new n)) = Some (sh_view i s)"
    using sh_run_view [OF _ assms(1)] by blast
  have "map fst (entries (buckets s ! i)) = take ?c (fold (recency ?c) (filter (\<lambda>p. nat (op_key p) mod 8 = i) ps) [])"
    if i: "i < 8" for i
  proof -
    let ?ps = "filter (\<lambda>p. nat (op_key p) mod 8 = i) ps"
    have "lru_ok (lru_new (int ?c))" using pos by (simp add: lru_new_def lru_ok_def il_ok_new)
    then obtain t where t: "cache_run lru_get lru_put ?ps (lru_new (int ?c)) = Some t"
      "map fst (entries (cache t)) = take (nat (Tcapacity (lru_new (int ?c)))) (fold (recency (nat (Tcapacity (lru_new (int ?c))))) ?ps [])"
      using lru.lookup [of "lru_new (int ?c)" ?ps] by (auto simp: lru_new_def entries_new)
    have "t = sh_view i s" using t(1) s(2) i new [OF i] by auto
    then show ?thesis using t(2) by (simp add: sh_view_def lru_new_def del: of_nat_max)
  qed
  then show ?thesis using s(1) by blast
qed

theorem sharded_recency_witness:
  "\<exists>s. cache_run sh_get sh_put [CPut 1 10, CPut 9 90, CPut 17 5, CGet 9, CPut 2 7] (sh_new 16) = Some s \<and>
     map fst (entries (buckets s ! 1)) = [9, 17]"
proof -
  let ?ps = "[CPut 1 10, CPut 9 90, CPut 17 5, CGet 9, CPut 2 7] :: (int, int) cache_op list"
  obtain s where s: "cache_run sh_get sh_put ?ps (sh_new 16) = Some s"
    "\<forall>i < 8. map fst (entries (buckets s ! i)) =
       take (max 1 (nat 16 div 8)) (fold (recency (max 1 (nat 16 div 8))) (filter (\<lambda>p. nat (op_key p) mod 8 = i) ?ps) [])"
    using sharded_recency [of ?ps 16] by auto
  have "take (max 1 (nat 16 div 8)) (fold (recency (max 1 (nat 16 div 8))) (filter (\<lambda>p. nat (op_key p) mod 8 = 1) ?ps) []) = [9, 17]"
    by code_simp
  then show ?thesis using s by (auto dest!: spec [of _ 1])
qed

section \<open>The eviction policy framework\<close>

text \<open>
  \<^verbatim>\<open>oop-framework/GenericEviction_Cache.cpp\<close>: the cache delegates to a policy object; its one policy
  is LRU, with the size of the list as the fullness test and the eviction a method of its own.
\<close>

record LRUPolicy =
  pol_capacity :: int
  pol_cache :: "(int, int) ilist"

definition policy_new :: "int \<Rightarrow> LRUPolicy" where
  "policy_new n = \<lparr>pol_capacity = n, pol_cache = il_new\<rparr>"

definition policy_get :: "int \<Rightarrow> LRUPolicy \<Rightarrow> (int \<times> LRUPolicy) option" where
  "policy_get k s = do { (v, c) \<leftarrow> il_access k (pol_cache s); Some (or_minus_1 v, s\<lparr>pol_cache := c\<rparr>) }"

definition policy_evict :: "LRUPolicy \<Rightarrow> (int \<times> LRUPolicy) option" where
  "policy_evict s = do { (e, c) \<leftarrow> il_evict (pol_cache s); Some (fst e, s\<lparr>pol_cache := c\<rparr>) }"

definition policy_put :: "int \<Rightarrow> int \<Rightarrow> LRUPolicy \<Rightarrow> LRUPolicy option" where
  "policy_put k v s =
     (case um_find (mm (pol_cache s)) k of
        Some a \<Rightarrow> do { c1 \<leftarrow> il_splice a (pol_cache s); c2 \<leftarrow> il_assign a v c1; Some (s\<lparr>pol_cache := c2\<rparr>) }
      | None \<Rightarrow> do {
          s1 \<leftarrow> (if int (length (nodes (pol_cache s))) = size_t (pol_capacity s)
                 then map_option snd (policy_evict s) else Some s);
          Some (s1\<lparr>pol_cache := il_insert k v (pol_cache s1)\<rparr>) })"

definition policy_ok :: "LRUPolicy \<Rightarrow> bool" where
  "policy_ok s \<longleftrightarrow> 0 < pol_capacity s \<and> pol_capacity s < 2 ^ 31 \<and> il_ok (pol_cache s)"

lemma policy_put_store:
  "policy_put k v s = do {
     c \<leftarrow> il_store (int (length (nodes (pol_cache s))) = size_t (pol_capacity s)) k v (pol_cache s);
     Some (s\<lparr>pol_cache := c\<rparr>) }"
  by (auto simp: policy_put_def il_store_def policy_evict_def split: option.splits bind_splits)

interpretation policy: lru_cache policy_get policy_put or_minus_1 policy_ok "\<lambda>s. entries (pol_cache s)" "\<lambda>s. nat (pol_capacity s)"
proof (unfold_locales, goal_cases)
  case (1 s)
  then show ?case by (simp add: policy_ok_def)
next
  case (2 s k)
  then show ?case using il_access_miss [of "pol_cache s" k] by (simp add: policy_get_def policy_ok_def or_minus_1_def)
next
  case (3 s k v)
  then show ?case using il_access_hit [of "pol_cache s" k v] by (auto simp: policy_get_def policy_ok_def or_minus_1_def)
next
  case (4 s k w v)
  then show ?case
    using il_store_hit [of "pol_cache s" k w "int (length (nodes (pol_cache s))) = size_t (pol_capacity s)" v]
    by (auto simp: policy_put_store policy_ok_def)
next
  case (5 s k v)
  then have ok: "il_ok (pol_cache s)" "0 < pol_capacity s" "pol_capacity s < 2 ^ 31" by (simp_all add: policy_ok_def)
  have "length (entries (pol_cache s)) = nat (pol_capacity s) \<Longrightarrow> entries (pol_cache s) \<noteq> []" using ok by auto
  then show ?case
    using il_store_miss [OF ok(1) 5(2), of "length (entries (pol_cache s)) = nat (pol_capacity s)" v] ok 5(1)
      il_full_iff [OF ok]
    by (auto simp: policy_put_store policy_ok_def il_ok_size)
qed

end
