(* ===== verification/Metadata_Service.thy ===== *)
theory Metadata_Service
  imports LRU_Cache
begin

text \<open>
  The metadata service \<^verbatim>\<open>storage/Metadata_Store.cpp\<close>: an LRU cache written through to a store, and
  filled from it on a miss. A call is one step; the cache is the provider of the LRU interface.
\<close>

record Metadata =
  inode_number :: int
  file_size :: nat

definition no_metadata :: Metadata where
  "no_metadata = \<lparr>inode_number = -1, file_size = 0\<rparr>"

record md_cache =
  md_capacity :: int
  md_list :: "(string, Metadata) ilist"

definition or_no_metadata :: "Metadata option \<Rightarrow> Metadata" where
  "or_no_metadata v = (case v of None \<Rightarrow> no_metadata | Some x \<Rightarrow> x)"

definition mdc_get :: "string \<Rightarrow> md_cache \<Rightarrow> (Metadata \<times> md_cache) option" where
  "mdc_get k s = do { (v, c) \<leftarrow> il_access k (md_list s); Some (or_no_metadata v, s\<lparr>md_list := c\<rparr>) }"

definition mdc_put :: "string \<Rightarrow> Metadata \<Rightarrow> md_cache \<Rightarrow> md_cache option" where
  "mdc_put k v s = do {
     c \<leftarrow> il_store (int (um_size (mm (md_list s))) = size_t (md_capacity s)) k v (md_list s);
     Some (s\<lparr>md_list := c\<rparr>) }"

definition mdc_erase :: "string \<Rightarrow> md_cache \<Rightarrow> md_cache option" where
  "mdc_erase k s =
     (case um_find (mm (md_list s)) k of
        None \<Rightarrow> Some s
      | Some a \<Rightarrow> do { c \<leftarrow> il_remove k a (md_list s); Some (s\<lparr>md_list := c\<rparr>) })"

record md_service =
  md_cache_of :: md_cache
  metadata_store :: "(string, Metadata) umap"

definition mds_new :: "int \<Rightarrow> md_service" where
  "mds_new n = \<lparr>md_cache_of = \<lparr>md_capacity = n, md_list = il_new\<rparr>, metadata_store = []\<rparr>"

definition mds_remove :: "string \<Rightarrow> md_service \<Rightarrow> md_service option" where
  "mds_remove p s = do {
     c \<leftarrow> mdc_erase p (md_cache_of s);
     Some (s\<lparr>metadata_store := um_erase p (metadata_store s), md_cache_of := c\<rparr>) }"

definition mds_put :: "string \<Rightarrow> int \<Rightarrow> nat \<Rightarrow> md_service \<Rightarrow> md_service option" where
  "mds_put p i n s = do {
     let m = \<lparr>inode_number = i, file_size = n\<rparr>;
     c \<leftarrow> mdc_put p m (md_cache_of s);
     Some (s\<lparr>metadata_store := um_put p m (metadata_store s), md_cache_of := c\<rparr>) }"

definition mds_get :: "string \<Rightarrow> md_service \<Rightarrow> (Metadata \<times> md_service) option" where
  "mds_get p s = do {
     (m, c) \<leftarrow> mdc_get p (md_cache_of s);
     if inode_number m \<noteq> -1 then Some (m, s\<lparr>md_cache_of := c\<rparr>)
     else (case um_find (metadata_store s) p of
             None \<Rightarrow> Some (no_metadata, s\<lparr>md_cache_of := c\<rparr>)
           | Some m' \<Rightarrow> do { c' \<leftarrow> mdc_put p m' c; Some (m', s\<lparr>md_cache_of := c'\<rparr>) }) }"

definition mds_searchByPrefix :: "string \<Rightarrow> md_service \<Rightarrow> string list" where
  "mds_searchByPrefix pre s =
     filter (\<lambda>p. take (length pre) p = pre) (map fst (metadata_store s))"

datatype md_op = MPut string int nat | MRemove string | MGet string

fun mds_exec :: "md_op \<Rightarrow> md_service \<Rightarrow> md_service option" where
  "mds_exec (MPut p i n) s = mds_put p i n s"
| "mds_exec (MRemove p) s = mds_remove p s"
| "mds_exec (MGet p) s = map_option snd (mds_get p s)"

fun mds_run :: "md_op list \<Rightarrow> md_service \<Rightarrow> md_service option" where
  "mds_run [] s = Some s"
| "mds_run (p # ps) s = do { s' \<leftarrow> mds_exec p s; mds_run ps s' }"

fun md_spec :: "md_op \<Rightarrow> (string \<rightharpoonup> Metadata) \<Rightarrow> (string \<rightharpoonup> Metadata)" where
  "md_spec (MPut p i n) m = m(p \<mapsto> \<lparr>inode_number = i, file_size = n\<rparr>)"
| "md_spec (MRemove p) m = m(p := None)"
| "md_spec (MGet p) m = m"

definition mdc_ok :: "md_cache \<Rightarrow> bool" where
  "mdc_ok s \<longleftrightarrow> 0 < md_capacity s \<and> md_capacity s < 2 ^ 31 \<and> il_ok (md_list s)"

interpretation mdc: lru_cache mdc_get mdc_put or_no_metadata mdc_ok "\<lambda>s. entries (md_list s)" "\<lambda>s. nat (md_capacity s)"
proof (unfold_locales, goal_cases)
  case (1 s)
  then show ?case by (simp add: mdc_ok_def)
next
  case (2 s k)
  then show ?case using il_access_miss [of "md_list s" k] by (simp add: mdc_get_def mdc_ok_def)
next
  case (3 s k v)
  then show ?case using il_access_hit [of "md_list s" k v] by (auto simp: mdc_get_def mdc_ok_def)
next
  case (4 s k w v)
  then show ?case
    using il_store_hit [of "md_list s" k w "int (um_size (mm (md_list s))) = size_t (md_capacity s)" v]
    by (auto simp: mdc_put_def mdc_ok_def)
next
  case (5 s k v)
  then have ok: "il_ok (md_list s)" "0 < md_capacity s" "md_capacity s < 2 ^ 31" by (simp_all add: mdc_ok_def)
  have "length (entries (md_list s)) = nat (md_capacity s) \<Longrightarrow> entries (md_list s) \<noteq> []" using ok by auto
  then show ?case
    using il_store_miss [OF ok(1) 5(2), of "length (entries (md_list s)) = nat (md_capacity s)" v] ok 5(1)
    by (auto simp: mdc_put_def mdc_ok_def il_full_iff)
qed

text \<open>The cache holds nothing that the store does not hold.\<close>

definition mds_ok :: "(string \<rightharpoonup> Metadata) \<Rightarrow> md_service \<Rightarrow> bool" where
  "mds_ok m s \<longleftrightarrow> mdc_ok (md_cache_of s) \<and> um_find (metadata_store s) = m \<and>
     (\<forall>k v. map_of (entries (md_list (md_cache_of s))) k = Some v \<longrightarrow> m k = Some v)"

lemma mdc_put_sub:
  assumes "mdc_ok c" "\<forall>k v. map_of (entries (md_list c)) k = Some v \<longrightarrow> m k = Some v" "m' p = Some x"
    and "\<forall>k. k \<noteq> p \<longrightarrow> m' k = m k"
  shows "\<exists>c'. mdc_put p x c = Some c' \<and> mdc_ok c' \<and>
    (\<forall>k v. map_of (entries (md_list c')) k = Some v \<longrightarrow> m' k = Some v)"
proof (cases "map_of (entries (md_list c)) p")
  case None
  have d: "distinct (map fst (entries (md_list c)))" using assms(1) by (simp add: mdc_ok_def il_ok_def)
  have bl: "map_of (butlast (entries (md_list c))) k = Some v \<Longrightarrow> map_of (entries (md_list c)) k = Some v" for k v
    using d by (auto dest: map_of_SomeD in_set_butlastD)
  obtain c' where c': "mdc_put p x c = Some c'" "mdc_ok c'" and e: "entries (md_list c') = (p, x) #
      (if length (entries (md_list c)) = nat (md_capacity c) then butlast (entries (md_list c)) else entries (md_list c))"
    using mdc.put_miss [OF assms(1) None] by blast
  have "m' k = Some v" if "map_of (entries (md_list c')) k = Some v" for k v
    using that assms(2-4) bl [of k v] unfolding e by (cases "k = p") (simp_all split: if_splits)
  then show ?thesis using c' by blast
next
  case (Some w)
  then show ?thesis
    using mdc.put_hit [OF assms(1) Some, of x] assms(2-4) by (fastforce simp: delete_conv')
qed

lemma mds_get_ok:
  assumes "mds_ok m s"
  shows "\<exists>s'. mds_get p s = Some (or_no_metadata (m p), s') \<and> mds_ok m s'"
proof -
  let ?c = "md_cache_of s" and ?e = "\<lambda>c. entries (md_list c)"
  have ok: "mdc_ok ?c" and st: "um_find (metadata_store s) = m"
    and sub: "\<forall>k v. map_of (?e ?c) k = Some v \<longrightarrow> m k = Some v"
    using assms by (auto simp: mds_ok_def)
  obtain c where c: "mdc_get p ?c = Some (or_no_metadata (map_of (?e ?c) p), c)" "mdc_ok c"
    "\<forall>k v. map_of (?e c) k = Some v \<longrightarrow> m k = Some v"
  proof (cases "map_of (?e ?c) p")
    case None
    then show ?thesis using that mdc.get_miss [OF ok None] ok sub by simp
  next
    case (Some v)
    obtain c' where c': "mdc_get p ?c = Some (or_no_metadata (Some v), c')" "mdc_ok c'" "?e c' = (p, v) # AList.delete p (?e ?c)"
      using mdc.get_hit [OF ok Some] by blast
    have "\<forall>k v. map_of (?e c') k = Some v \<longrightarrow> m k = Some v" using sub Some unfolding c'(3) by (simp add: delete_conv')
    then show ?thesis using that c' Some by simp
  qed
  show ?thesis
  proof (cases "inode_number (or_no_metadata (map_of (?e ?c) p)) = -1")
    case True
    show ?thesis
    proof (cases "m p")
      case None
      then show ?thesis using True c st by (simp add: mds_get_def mds_ok_def or_no_metadata_def)
    next
      case (Some x)
      then show ?thesis
        using True c st mdc_put_sub [OF c(2,3), of m p x] by (auto simp: mds_get_def mds_ok_def or_no_metadata_def)
    qed
  next
    case False
    then obtain v where "map_of (?e ?c) p = Some v" by (cases "map_of (?e ?c) p") (auto simp: or_no_metadata_def no_metadata_def)
    then show ?thesis using False c st sub by (simp add: mds_get_def mds_ok_def or_no_metadata_def)
  qed
qed

lemma mds_exec_ok:
  assumes "mds_ok m s"
  shows "\<exists>s'. mds_exec p s = Some s' \<and> mds_ok (md_spec p m) s'"
proof (cases p)
  case (MPut q i n)
  let ?x = "\<lparr>inode_number = i, file_size = n\<rparr>"
  have "mdc_ok (md_cache_of s)" "\<forall>k v. map_of (entries (md_list (md_cache_of s))) k = Some v \<longrightarrow> m k = Some v"
    using assms by (auto simp: mds_ok_def)
  then obtain c where "mdc_put q ?x (md_cache_of s) = Some c" "mdc_ok c"
    "\<forall>k v. map_of (entries (md_list c)) k = Some v \<longrightarrow> (m(q \<mapsto> ?x)) k = Some v"
    using mdc_put_sub [of "md_cache_of s" m "m(q \<mapsto> ?x)" q ?x] by auto
  then show ?thesis using MPut assms by (auto simp: mds_put_def mds_ok_def cxx_map Let_def)
next
  case (MRemove q)
  let ?c = "md_cache_of s"
  have ok: "il_ok (md_list ?c)" using assms by (simp add: mds_ok_def mdc_ok_def)
  have "\<exists>c. mdc_erase q ?c = Some c \<and> mdc_ok c \<and> map_of (entries (md_list c)) = (map_of (entries (md_list ?c)))(q := None)"
  proof (cases "um_find (mm (md_list ?c)) q")
    case None
    then show ?thesis using il_ok_find(1) [OF ok, of q] assms by (auto simp: mdc_erase_def mds_ok_def)
  next
    case (Some a)
    then show ?thesis using il_remove_ok [OF ok Some] assms by (auto simp: mdc_erase_def mds_ok_def mdc_ok_def delete_conv')
  qed
  then show ?thesis using MRemove assms by (auto simp: mds_remove_def mds_ok_def cxx_map)
next
  case (MGet q)
  then show ?thesis using mds_get_ok [OF assms, of q] by auto
qed

text \<open>
  C35. Cache coherence of the metadata service: with a positive cache size, whatever puts, removals and
  lookups have run (with inode number -1 too, which the code also uses as its miss marker), a lookup
  returns the metadata last put under the path, or the pair (-1, 0) when there is none, and nothing
  is undefined behaviour.
\<close>
theorem mds_coherent:
  assumes "0 < n" "n < 2 ^ 31"
  shows "\<exists>s s'. mds_run ps (mds_new n) = Some s \<and>
    mds_get p s = Some (case fold md_spec ps Map.empty p of None \<Rightarrow> no_metadata | Some x \<Rightarrow> x, s')"
proof -
  have run: "mds_ok m s \<Longrightarrow> \<exists>t. mds_run ps s = Some t \<and> mds_ok (fold md_spec ps m) t" for m s
  proof (induction ps arbitrary: m s)
    case (Cons p ps)
    then show ?case using mds_exec_ok [OF Cons.prems, of p] by fastforce
  qed simp
  have "mds_ok Map.empty (mds_new n)" using assms by (auto simp: mds_ok_def mds_new_def mdc_ok_def il_ok_new entries_new)
  then show ?thesis using run [of Map.empty "mds_new n"] mds_get_ok by (fastforce simp: or_no_metadata_def)
qed

theorem mds_coherent_witness:
  "\<exists>s s'. mds_run [MPut ''/a'' 1 10, MPut ''/b'' 2 20, MGet ''/a'', MRemove ''/b''] (mds_new 1) = Some s \<and>
     mds_get ''/a'' s = Some (\<lparr>inode_number = 1, file_size = 10\<rparr>, s')"
  using mds_coherent [of 1 "[MPut ''/a'' 1 10, MPut ''/b'' 2 20, MGet ''/a'', MRemove ''/b'']" "''/a''"] by simp

end
