(* ===== verification/Buffer_Pool.thy ===== *)
theory Buffer_Pool
  imports Indexed_List
begin

text \<open>
  The page cache \<^verbatim>\<open>storage/BufferPool_PageCache.cpp\<close>: pages in recency order with pin counts and dirty
  flags. The disk is outside the program; the pages handed to \<^verbatim>\<open>flush_page\<close> are recorded in order in
  \<open>flushed\<close>. Changes a caller makes to a fetched page through the returned pointer are not modelled.
\<close>

record Page =
  page_data :: string
  dirty :: bool
  pin_count :: int

record BufferPool =
  bp_capacity :: int
  bp_cache :: "(int, Page) ilist"
  flushed :: "(int \<times> string) list"

definition bp_new :: "int \<Rightarrow> BufferPool" where
  "bp_new n = \<lparr>bp_capacity = n, bp_cache = il_new, flushed = []\<rparr>"

definition flush_page :: "nat \<Rightarrow> BufferPool \<Rightarrow> BufferPool option" where
  "flush_page a s = do {
     (p, g) \<leftarrow> il_at a (bp_cache s);
     c \<leftarrow> il_assign a (g\<lparr>dirty := False\<rparr>) (bp_cache s);
     Some (s\<lparr>bp_cache := c, flushed := flushed s @ [(p, page_data g)]\<rparr>) }"

text \<open>The search from the least recently used end; the argument is the reversed list.\<close>

fun find_victim :: "(nat \<times> int \<times> Page) list \<Rightarrow> (nat \<times> int \<times> Page) option" where
  "find_victim [] = None"
| "find_victim (n # ns) = (if pin_count (snd (snd n)) = 0 then Some n else find_victim ns)"

definition evict_page :: "BufferPool \<Rightarrow> (bool \<times> BufferPool) option" where
  "evict_page s =
     (if nodes (bp_cache s) = [] then None
      else case find_victim (rev (nodes (bp_cache s))) of
             None \<Rightarrow> Some (False, s)
           | Some (a, p, g) \<Rightarrow> do {
               s1 \<leftarrow> (if dirty g then flush_page a s else Some s);
               c \<leftarrow> il_erase a (mm_erase p (bp_cache s1));
               Some (True, s1\<lparr>bp_cache := c\<rparr>) })"

definition bp_fetchPage :: "int \<Rightarrow> BufferPool \<Rightarrow> (Page option \<times> BufferPool) option" where
  "bp_fetchPage p s =
     (case um_find (mm (bp_cache s)) p of
        None \<Rightarrow> Some (None, s)
      | Some a \<Rightarrow> do {
          (_, g) \<leftarrow> il_at a (bp_cache s);
          let g' = g\<lparr>pin_count := pin_count g + 1\<rparr>;
          c1 \<leftarrow> il_assign a g' (bp_cache s);
          c2 \<leftarrow> il_splice a c1;
          Some (Some g', s\<lparr>bp_cache := c2\<rparr>) })"

definition bp_unpinPage :: "int \<Rightarrow> BufferPool \<Rightarrow> BufferPool option" where
  "bp_unpinPage p s =
     (case um_find (mm (bp_cache s)) p of
        None \<Rightarrow> Some s
      | Some a \<Rightarrow> do {
          (_, g) \<leftarrow> il_at a (bp_cache s);
          if pin_count g > 0
          then do { c \<leftarrow> il_assign a (g\<lparr>pin_count := pin_count g - 1\<rparr>) (bp_cache s); Some (s\<lparr>bp_cache := c\<rparr>) }
          else Some s })"

text \<open>\<^verbatim>\<open>put\<close> returns nothing; the boolean says whether it stored the page or printed that the pool is full.\<close>

definition bp_put :: "int \<Rightarrow> string \<Rightarrow> BufferPool \<Rightarrow> (bool \<times> BufferPool) option" where
  "bp_put p v s =
     (case um_find (mm (bp_cache s)) p of
        Some a \<Rightarrow> do {
          (_, g) \<leftarrow> il_at a (bp_cache s);
          c1 \<leftarrow> il_assign a (g\<lparr>page_data := v, dirty := True\<rparr>) (bp_cache s);
          c2 \<leftarrow> il_splice a c1;
          Some (True, s\<lparr>bp_cache := c2\<rparr>) }
      | None \<Rightarrow> do {
          (ok, s1) \<leftarrow> (if int (length (nodes (bp_cache s))) \<ge> size_t (bp_capacity s) then evict_page s else Some (True, s));
          if \<not> ok then Some (False, s1)
          else Some (True, s1\<lparr>bp_cache := il_insert p \<lparr>page_data = v, dirty = True, pin_count = 0\<rparr> (bp_cache s1)\<rparr>) })"

datatype bp_op = BFetch int | BUnpin int | BPut int string

fun bp_exec :: "bp_op \<Rightarrow> BufferPool \<Rightarrow> (bool \<times> BufferPool) option" where
  "bp_exec (BFetch p) s = do { (_, s') \<leftarrow> bp_fetchPage p s; Some (True, s') }"
| "bp_exec (BUnpin p) s = do { s' \<leftarrow> bp_unpinPage p s; Some (True, s') }"
| "bp_exec (BPut p v) s = bp_put p v s"

text \<open>A run, with the value of the last accepted \<^verbatim>\<open>put\<close> of every page.\<close>

fun bp_run :: "bp_op list \<Rightarrow> (int \<rightharpoonup> string) \<Rightarrow> BufferPool \<Rightarrow> ((int \<rightharpoonup> string) \<times> BufferPool) option" where
  "bp_run [] m s = Some (m, s)"
| "bp_run (x # xs) m s = do {
     (acc, s') \<leftarrow> bp_exec x s;
     bp_run xs (case x of BPut p v \<Rightarrow> if acc then m(p \<mapsto> v) else m | _ \<Rightarrow> m) s' }"

section \<open>Pages in the pool\<close>

abbreviation pages :: "BufferPool \<Rightarrow> (int \<times> Page) list" where
  "pages s \<equiv> entries (bp_cache s)"

abbreviation page :: "BufferPool \<Rightarrow> int \<Rightarrow> Page option" where
  "page s \<equiv> map_of (pages s)"

definition bp_ok :: "int \<Rightarrow> (int \<rightharpoonup> string) \<Rightarrow> BufferPool \<Rightarrow> bool" where
  "bp_ok n m s \<longleftrightarrow> bp_capacity s = n \<and> 0 < n \<and> n < 2 ^ 31 \<and> il_ok (bp_cache s) \<and>
     int (length (pages s)) \<le> n \<and>
     (\<forall>p g. page s p = Some g \<longrightarrow> dirty g \<and> m p = Some (page_data g)) \<and>
     (\<forall>p. page s p = None \<longrightarrow> map_of (rev (flushed s)) p = m p)"

lemma find_victim_Some: "find_victim ns = Some n \<Longrightarrow> n \<in> set ns \<and> pin_count (snd (snd n)) = 0"
  by (induction ns) (auto split: if_splits)

lemma find_victim_None: "find_victim ns = None \<Longrightarrow> n \<in> set ns \<Longrightarrow> pin_count (snd (snd n)) \<noteq> 0"
  by (induction ns) (auto split: if_splits)

lemma evict_page_ok:
  assumes "bp_ok n m s" "pages s \<noteq> []"
  shows "(evict_page s = Some (False, s) \<and> (\<forall>p g. page s p = Some g \<longrightarrow> pin_count g \<noteq> 0)) \<or>
    (\<exists>p g s'. evict_page s = Some (True, s') \<and> page s p = Some g \<and> pin_count g = 0 \<and> il_ok (bp_cache s') \<and>
       pages s' = AList.delete p (pages s) \<and> flushed s' = flushed s @ [(p, page_data g)] \<and> bp_capacity s' = bp_capacity s)"
proof (cases "find_victim (rev (nodes (bp_cache s)))")
  case None
  have "pin_count g \<noteq> 0" if "page s p = Some g" for p g
    using map_of_SomeD [OF that] find_victim_None [OF None] by (force simp: entries_def)
  then show ?thesis using None assms(2) by (simp add: evict_page_def entries_def)
next
  case (Some n)
  obtain a p g where n: "n = (a, p, g)" by (cases n) auto
  have ok: "il_ok (bp_cache s)" using assms(1) by (simp add: bp_ok_def)
  have inn: "(a, p, g) \<in> set (nodes (bp_cache s))" and pin: "pin_count g = 0"
    using find_victim_Some [OF Some] n by auto
  then have a: "um_find (mm (bp_cache s)) p = Some a" using ok by (auto simp: il_ok_def)
  have at: "il_at a (bp_cache s) = Some (p, g)" and pg: "page s p = Some g"
    using il_ok_find(2) [OF ok a] inn ok by (auto simp: il_at_def il_ok_def)
  then have d: "dirty g" using assms(1) by (simp add: bp_ok_def)
  obtain c1 where c1: "il_assign a (g\<lparr>dirty := False\<rparr>) (bp_cache s) = Some c1" "il_ok c1"
    "entries c1 = assign_entry p (g\<lparr>dirty := False\<rparr>) (pages s)" "mm c1 = mm (bp_cache s)"
    using il_assign_ok [OF ok a] by blast
  have "um_find (mm c1) p = Some a" using a c1(4) by simp
  from il_remove_ok [OF c1(2) this] obtain c where
    c: "il_remove p a c1 = Some c" "il_ok c" "entries c = AList.delete p (entries c1)" by blast
  have comm: "il_erase a (mm_erase p c1) = il_remove p a c1"
    by (auto simp: il_remove_def il_erase_def mm_erase_def il_at_def split: bind_splits)
  have "AList.delete p (assign_entry p x es) = AList.delete p es" for x :: Page and es
    by (induction es) (auto simp: assign_entry_def)
  then have "evict_page s = Some (True, s\<lparr>bp_cache := c, flushed := flushed s @ [(p, page_data g)]\<rparr>)"
    "entries c = AList.delete p (pages s)"
    using Some n d at c1 c assms(2) comm by (auto simp: evict_page_def flush_page_def entries_def)
  then show ?thesis using pg pin c(2) by auto
qed

text \<open>What a step does to the pages: keep the pinned ones, and the bookkeeping of the last values.\<close>

definition bp_keeps :: "BufferPool \<Rightarrow> BufferPool \<Rightarrow> bool" where
  "bp_keeps s s' \<longleftrightarrow> (\<forall>p g. page s p = Some g \<longrightarrow> 0 < pin_count g \<longrightarrow> (\<exists>g'. page s' p = Some g' \<and> pin_count g \<le> pin_count g'))"

lemma bp_use:
  assumes "bp_ok n m s" "um_find (mm (bp_cache s)) p = Some a" "page s p = Some g" "dirty g'" "m' p = Some (page_data g')"
    and "\<And>q. q \<noteq> p \<Longrightarrow> m' q = m q" and "pin_count g \<le> pin_count g'"
  shows "\<exists>c1 c2. il_assign a g' (bp_cache s) = Some c1 \<and> il_splice a c1 = Some c2 \<and>
    bp_ok n m' (s\<lparr>bp_cache := c2\<rparr>) \<and> bp_keeps s (s\<lparr>bp_cache := c2\<rparr>)"
proof -
  have ok: "il_ok (bp_cache s)" using assms(1) by (simp add: bp_ok_def)
  obtain c1 where c1: "il_assign a g' (bp_cache s) = Some c1" "il_ok c1"
    "entries c1 = assign_entry p g' (pages s)" "mm c1 = mm (bp_cache s)"
    using il_assign_ok [OF ok assms(2)] by blast
  have a1: "um_find (mm c1) p = Some a" using assms(2) c1(4) by simp
  have p1: "map_of (entries c1) p = Some g'" using assms(3) by (simp add: c1(3) assign_entry_find)
  obtain c2 where c2: "il_splice a c1 = Some c2" "il_ok c2" "entries c2 = (p, g') # AList.delete p (entries c1)"
    using il_splice_ok [OF c1(2) a1] p1 by auto
  have page: "map_of (entries c2) = (page s)(p \<mapsto> g')"
    by (auto simp: c2(3) c1(3) delete_conv' assign_entry_find)
  have len: "length (entries c2) = length (pages s)"
    using length_alist_delete [OF il_ok_distinct [OF c1(2)] p1] by (simp add: c2(3) c1(3))
  have "bp_ok n m' (s\<lparr>bp_cache := c2\<rparr>)"
    using assms c2(2) len by (auto simp: bp_ok_def page)
  moreover have "bp_keeps s (s\<lparr>bp_cache := c2\<rparr>)" using assms(3,7) by (auto simp: bp_keeps_def page)
  ultimately show ?thesis using c1(1) c2(1) by blast
qed

lemma bp_page_dirty: "bp_ok n m s \<Longrightarrow> page s p = Some g \<Longrightarrow> dirty g \<and> m p = Some (page_data g)"
  by (simp add: bp_ok_def)

lemma bp_fetch_ok:
  assumes "bp_ok n m s"
  shows "\<exists>r s'. bp_fetchPage p s = Some (r, s') \<and> bp_ok n m s' \<and> bp_keeps s s'"
proof (cases "um_find (mm (bp_cache s)) p")
  case None
  then show ?thesis using assms by (auto simp: bp_fetchPage_def bp_keeps_def)
next
  case (Some a)
  have ok: "il_ok (bp_cache s)" using assms by (simp add: bp_ok_def)
  obtain g where g: "il_at a (bp_cache s) = Some (p, g)" "page s p = Some g" using il_ok_find(2) [OF ok Some] by blast
  show ?thesis
    using bp_use [OF assms Some g(2), of "g\<lparr>pin_count := pin_count g + 1\<rparr>" m] bp_page_dirty [OF assms g(2)] Some g(1)
    by (auto simp: bp_fetchPage_def Let_def)
qed

lemma bp_unpin_ok:
  assumes "bp_ok n m s"
  shows "\<exists>s'. bp_unpinPage p s = Some s' \<and> bp_ok n m s' \<and> (\<forall>q. q \<noteq> p \<longrightarrow> page s' q = page s q)"
proof (cases "um_find (mm (bp_cache s)) p")
  case None
  then show ?thesis using assms by (auto simp: bp_unpinPage_def)
next
  case (Some a)
  have ok: "il_ok (bp_cache s)" using assms by (simp add: bp_ok_def)
  obtain g where g: "il_at a (bp_cache s) = Some (p, g)" "page s p = Some g" using il_ok_find(2) [OF ok Some] by blast
  let ?g = "g\<lparr>pin_count := pin_count g - 1\<rparr>"
  obtain c where c: "il_assign a ?g (bp_cache s) = Some c" "il_ok c" "entries c = assign_entry p ?g (pages s)"
    using il_assign_ok [OF ok Some] by blast
  have page: "map_of (entries c) = (page s)(p \<mapsto> ?g)" using g(2) by (auto simp: c(3) assign_entry_find)
  have "bp_ok n m (s\<lparr>bp_cache := c\<rparr>)"
    using assms c(2) bp_page_dirty [OF assms g(2)] by (auto simp: bp_ok_def page) (simp add: c(3))
  then show ?thesis using Some g(1) c(1) assms page by (auto simp: bp_unpinPage_def)
qed

lemma bp_insert_ok:
  assumes "bp_ok n m s" "page s p = None" "int (length (pages s)) < bp_capacity s"
  shows "bp_ok n (m(p \<mapsto> v)) (s\<lparr>bp_cache := il_insert p \<lparr>page_data = v, dirty = True, pin_count = 0\<rparr> (bp_cache s)\<rparr>)"
proof -
  have ok: "il_ok (bp_cache s)" using assms(1) by (simp add: bp_ok_def)
  show ?thesis
    using assms(1,3) il_insert_ok [OF ok assms(2)] by (auto simp: bp_ok_def split: if_splits)
qed

lemma bp_put_ok:
  assumes "bp_ok n m s"
  shows "\<exists>acc s'. bp_put p v s = Some (acc, s') \<and> bp_ok n (if acc then m(p \<mapsto> v) else m) s' \<and> bp_keeps s s'"
proof (cases "um_find (mm (bp_cache s)) p")
  case (Some a)
  have ok: "il_ok (bp_cache s)" using assms by (simp add: bp_ok_def)
  obtain g where g: "il_at a (bp_cache s) = Some (p, g)" "page s p = Some g" using il_ok_find(2) [OF ok Some] by blast
  show ?thesis
    using bp_use [OF assms Some g(2), of "g\<lparr>page_data := v, dirty := True\<rparr>" "m(p \<mapsto> v)"] Some g(1)
    by (auto simp: bp_put_def)
next
  case None
  let ?new = "\<lparr>page_data = v, dirty = True, pin_count = 0\<rparr>"
  have ok: "il_ok (bp_cache s)" and cap: "0 < bp_capacity s" "bp_capacity s < 2 ^ 31"
    and len: "int (length (pages s)) \<le> bp_capacity s"
    using assms by (simp_all add: bp_ok_def)
  have pN: "page s p = None" using il_ok_find(1) [OF ok, of p] None by simp
  have full: "int (length (nodes (bp_cache s))) \<ge> size_t (bp_capacity s) \<longleftrightarrow> int (length (pages s)) \<ge> bp_capacity s"
    using cap by (simp add: size_t_pos entries_def)
  show ?thesis
  proof (cases "int (length (pages s)) \<ge> bp_capacity s")
    case False
    have page: "map_of (entries (il_insert p ?new (bp_cache s))) = (page s)(p \<mapsto> ?new)"
      using il_insert_ok(2) [OF ok pN] by simp
    have "bp_keeps s (s\<lparr>bp_cache := il_insert p ?new (bp_cache s)\<rparr>)" using pN by (auto simp: bp_keeps_def page)
    then show ?thesis using False None full bp_insert_ok [OF assms pN] by (auto simp: bp_put_def)
  next
    case True
    then have ne: "pages s \<noteq> []" using cap by auto
    from evict_page_ok [OF assms ne] show ?thesis
    proof (elim disjE exE conjE)
      assume "evict_page s = Some (False, s)"
      then show ?thesis using True None full assms by (auto simp: bp_put_def bp_keeps_def)
    next
      fix q g s1
      assume e: "evict_page s = Some (True, s1)" "page s q = Some g" "pin_count g = 0" "il_ok (bp_cache s1)"
        "pages s1 = AList.delete q (pages s)" "flushed s1 = flushed s @ [(q, page_data g)]" "bp_capacity s1 = bp_capacity s"
      have page1: "page s1 = (page s)(q := None)" using e(5) by (simp add: delete_conv')
      have "Suc (length (pages s1)) = length (pages s)"
        unfolding e(5) by (rule length_alist_delete [OF il_ok_distinct [OF ok] e(2)])
      then have ok1: "bp_ok n m s1" "int (length (pages s1)) < bp_capacity s1"
        using assms e bp_page_dirty [OF assms e(2)] len by (auto simp: bp_ok_def delete_conv' split: if_splits)
      have p1: "page s1 p = None" using pN page1 by simp
      have "map_of (entries (il_insert p ?new (bp_cache s1))) = (page s1)(p \<mapsto> ?new)"
        using il_insert_ok(2) [OF e(4) p1] by simp
      then have "bp_keeps s (s1\<lparr>bp_cache := il_insert p ?new (bp_cache s1)\<rparr>)"
        using pN e(2,3) by (auto simp: bp_keeps_def page1)
      then show ?thesis using True None full e(1) bp_insert_ok [OF ok1(1) p1 ok1(2)] by (auto simp: bp_put_def)
    qed
  qed
qed

lemma bp_run_ok: "bp_ok n m s \<Longrightarrow> \<exists>m' s'. bp_run xs m s = Some (m', s') \<and> bp_ok n m' s'"
proof (induction xs arbitrary: m s)
  case (Cons x xs)
  show ?case
  proof (cases x)
    case (BFetch p)
    obtain r s1 where "bp_fetchPage p s = Some (r, s1)" "bp_ok n m s1" using bp_fetch_ok [OF Cons.prems] by blast
    then show ?thesis using Cons.IH BFetch by simp
  next
    case (BUnpin p)
    obtain s1 where "bp_unpinPage p s = Some s1" "bp_ok n m s1" using bp_unpin_ok [OF Cons.prems] by blast
    then show ?thesis using Cons.IH BUnpin by simp
  next
    case (BPut p v)
    obtain acc s1 where "bp_put p v s = Some (acc, s1)" "bp_ok n (if acc then m(p \<mapsto> v) else m) s1"
      using bp_put_ok [OF Cons.prems] by blast
    then show ?thesis using Cons.IH BPut by simp
  qed
qed simp

lemma bp_new_ok: "0 < n \<Longrightarrow> n < 2 ^ 31 \<Longrightarrow> bp_ok n Map.empty (bp_new n)"
  by (simp add: bp_ok_def bp_new_def il_ok_new entries_new)

text \<open>
  C34. The buffer pool loses no accepted write and evicts no pinned page. From an empty pool of positive
  capacity, any sequence of calls runs without undefined behaviour and leaves at most \<open>capacity\<close>
  pages; the last accepted value of a page is in the pool or, after its eviction, is the last value
  flushed for it; and no further \<^verbatim>\<open>put\<close> removes a page whose pin count is positive.
\<close>
theorem bp_safe:
  assumes "0 < n" "n < 2 ^ 31"
  shows "\<exists>m s. bp_run xs Map.empty (bp_new n) = Some (m, s) \<and> length (pages s) \<le> nat n \<and>
    (\<forall>p. case page s p of Some g \<Rightarrow> m p = Some (page_data g) | None \<Rightarrow> map_of (rev (flushed s)) p = m p) \<and>
    (\<forall>p g q v. page s p = Some g \<and> 0 < pin_count g \<longrightarrow>
       (\<exists>acc s' g'. bp_put q v s = Some (acc, s') \<and> page s' p = Some g' \<and> pin_count g \<le> pin_count g'))"
proof -
  obtain m s where s: "bp_run xs Map.empty (bp_new n) = Some (m, s)" "bp_ok n m s"
    using bp_run_ok [OF bp_new_ok [OF assms]] by blast
  have "case page s p of Some g \<Rightarrow> m p = Some (page_data g) | None \<Rightarrow> map_of (rev (flushed s)) p = m p" for p
    using s(2) by (cases "page s p") (simp_all add: bp_ok_def)
  moreover have "\<exists>acc s' g'. bp_put q v s = Some (acc, s') \<and> page s' p = Some g' \<and> pin_count g \<le> pin_count g'"
    if "page s p = Some g" "0 < pin_count g" for p g q v
    using bp_put_ok [OF s(2), of q v] that unfolding bp_keeps_def by blast
  moreover have "length (pages s) \<le> nat n" using s(2) by (auto simp: bp_ok_def)
  ultimately show ?thesis using s(1) by blast
qed

theorem bp_safe_witness:
  "\<exists>m s. bp_run [BPut 1 ''a'', BFetch 1, BPut 2 ''b'', BPut 3 ''c''] Map.empty (bp_new 2) = Some (m, s) \<and>
     map_option page_data (page s 1) = Some ''a'' \<and> flushed s = [(2, ''b'')] \<and> length (pages s) \<le> 2"
proof -
  let ?xs = "[BPut 1 ''a'', BFetch 1, BPut 2 ''b'', BPut 3 ''c'']"
  obtain m s where s: "bp_run ?xs Map.empty (bp_new 2) = Some (m, s)" "length (pages s) \<le> nat 2"
    using bp_safe [of 2 ?xs] by auto
  have "map_option (\<lambda>(m, s). (map_option page_data (page s 1), flushed s)) (bp_run ?xs Map.empty (bp_new 2)) =
      Some (Some ''a'', [(2, ''b'')])"
    by code_simp
  then show ?thesis using s by auto
qed

end
