(* ===== verification/Tiered_Cache.thy ===== *)
theory Tiered_Cache
  imports LRU_Cache
begin

text \<open>
  The multi-tier cache \<^verbatim>\<open>caching/LRUcache_multi-tier_RAM-SSD-HDD.cpp\<close>: a stack of LRU lists, hottest
  first. New and looked-up keys enter the first tier, and each full tier pushes its least recently
  used entry down. The result: the tiers together are one LRU cache of the summed capacity.
\<close>

record tier =
  tier_capacity :: int
  tier_cache :: "(int, int) ilist"

record MultiTierCache =
  tiers :: "tier list"
  key_to_tier :: "(int, nat) umap"

definition tier_new :: "int \<Rightarrow> tier" where
  "tier_new n = \<lparr>tier_capacity = n, tier_cache = il_new\<rparr>"

definition tier_full :: "tier \<Rightarrow> bool" where
  "tier_full t \<longleftrightarrow> int (um_size (mm (tier_cache t))) \<ge> size_t (tier_capacity t)"

definition tier_insert :: "int \<Rightarrow> int \<Rightarrow> tier \<Rightarrow> tier" where
  "tier_insert k v t = t\<lparr>tier_cache := il_insert k v (tier_cache t)\<rparr>"

definition tier_erase :: "int \<Rightarrow> tier \<Rightarrow> tier option" where
  "tier_erase k t =
     (case um_find (mm (tier_cache t)) k of
        None \<Rightarrow> Some t
      | Some a \<Rightarrow> do { c \<leftarrow> il_remove k a (tier_cache t); Some (t\<lparr>tier_cache := c\<rparr>) })"

definition tier_evictLRU :: "tier \<Rightarrow> ((int \<times> int) \<times> tier) option" where
  "tier_evictLRU t = do { (e, c) \<leftarrow> il_evict (tier_cache t); Some (e, t\<lparr>tier_cache := c\<rparr>) }"

definition remove_and_extract_value :: "int \<Rightarrow> tier \<Rightarrow> (int option \<times> tier) option" where
  "remove_and_extract_value k t =
     (case um_find (mm (tier_cache t)) k of
        None \<Rightarrow> Some (None, t)
      | Some a \<Rightarrow> do {
          (_, v) \<leftarrow> il_at a (tier_cache t);
          c \<leftarrow> il_remove k a (tier_cache t);
          Some (Some v, t\<lparr>tier_cache := c\<rparr>) })"

function insert_into_tier :: "nat \<Rightarrow> int \<Rightarrow> int \<Rightarrow> MultiTierCache \<Rightarrow> MultiTierCache option" where
  "insert_into_tier l k v s =
     (if l \<ge> length (tiers s) then Some (s\<lparr>key_to_tier := um_erase k (key_to_tier s)\<rparr>)
      else if \<not> tier_full (tiers s ! l)
      then Some (s\<lparr>tiers := (tiers s)[l := tier_insert k v (tiers s ! l)],
                   key_to_tier := um_put k l (key_to_tier s)\<rparr>)
      else case tier_evictLRU (tiers s ! l) of
             None \<Rightarrow> None
           | Some (e, t) \<Rightarrow>
               insert_into_tier (l + 1) (fst e) (snd e)
                 (s\<lparr>tiers := (tiers s)[l := tier_insert k v t],
                    key_to_tier := um_put k l (um_erase (fst e) (key_to_tier s))\<rparr>))"
  by auto
termination
  by (relation "measure (\<lambda>(l, k, v, s). length (tiers s) - l)") auto

declare insert_into_tier.simps [simp del]

definition mt_new :: "int list \<Rightarrow> MultiTierCache" where
  "mt_new caps = \<lparr>tiers = map tier_new caps, key_to_tier = []\<rparr>"

definition mt_put :: "int \<Rightarrow> int \<Rightarrow> MultiTierCache \<Rightarrow> MultiTierCache option" where
  "mt_put k v s = do {
     s1 \<leftarrow> (case um_find (key_to_tier s) k of
              None \<Rightarrow> Some s
            | Some l \<Rightarrow> do {
                t \<leftarrow> tier_erase k (tiers s ! l);
                Some (s\<lparr>tiers := (tiers s)[l := t], key_to_tier := um_erase k (key_to_tier s)\<rparr>) });
     insert_into_tier 0 k v s1 }"

definition mt_get :: "int \<Rightarrow> MultiTierCache \<Rightarrow> (int \<times> MultiTierCache) option" where
  "mt_get k s =
     (case um_find (key_to_tier s) k of
        None \<Rightarrow> Some (-1, s)
      | Some l \<Rightarrow> do {
          (x, t) \<leftarrow> remove_and_extract_value k (tiers s ! l);
          let s1 = s\<lparr>tiers := (tiers s)[l := t]\<rparr>;
          (case x of
             None \<Rightarrow> Some (-1, s1)
           | Some v \<Rightarrow> do {
               s2 \<leftarrow> insert_into_tier 0 k v (s1\<lparr>key_to_tier := um_erase k (key_to_tier s1)\<rparr>);
               Some (v, s2) }) })"

section \<open>Tiers as lists of entries\<close>

type_synonym tier_view = "nat \<times> (int \<times> int) list"

fun push_down :: "int \<times> int \<Rightarrow> tier_view list \<Rightarrow> tier_view list" where
  "push_down e [] = []"
| "push_down e ((n, es) # ts) =
     (if length es < n then (n, e # es) # ts else (n, e # butlast es) # push_down (last es) ts)"

definition all_entries :: "tier_view list \<Rightarrow> (int \<times> int) list" where
  "all_entries ts = concat (map snd ts)"

definition total :: "tier_view list \<Rightarrow> nat" where
  "total ts = sum_list (map fst ts)"

text \<open>A tier is used only when all tiers before it are full.\<close>

fun filled :: "tier_view list \<Rightarrow> bool" where
  "filled [] \<longleftrightarrow> True"
| "filled ((n, es) # ts) \<longleftrightarrow> 0 < n \<and> length es \<le> n \<and> (length es < n \<longrightarrow> all_entries ts = []) \<and> filled ts"

definition drop_key :: "int \<Rightarrow> tier_view list \<Rightarrow> tier_view list" where
  "drop_key k ts = map (\<lambda>(n, es). (n, AList.delete k es)) ts"

lemma all_entries_simps [simp]:
  "all_entries [] = []" "all_entries ((n, es) # ts) = es @ all_entries ts"
  by (simp_all add: all_entries_def)

lemma total_simps [simp]: "total [] = 0" "total ((n, es) # ts) = n + total ts"
  by (simp_all add: total_def)

lemma drop_key_simps [simp]: "drop_key k [] = []" "drop_key k ((n, es) # ts) = (n, AList.delete k es) # drop_key k ts"
  by (simp_all add: drop_key_def)

lemma all_entries_drop_key: "all_entries (drop_key k ts) = AList.delete k (all_entries ts)"
  by (induction ts) (auto simp: AList.delete_eq)

lemma filled_length: "filled ts \<Longrightarrow> length (all_entries ts) \<le> total ts"
  by (induction ts rule: filled.induct) auto

lemma total_push_down [simp]: "total (push_down e ts) = total ts"
  by (induction e ts rule: push_down.induct) auto

lemma push_down_empty: "filled ts \<Longrightarrow> all_entries ts = [] \<Longrightarrow> ts \<noteq> [] \<Longrightarrow> all_entries (push_down e ts) = [e]"
  by (cases ts) auto

lemma push_down_entries: "filled ts \<Longrightarrow> all_entries (push_down e ts) = take (total ts) (e # all_entries ts)"
proof (induction e ts rule: push_down.induct)
  case (2 e n es ts)
  show ?case
  proof (cases "length es < n")
    case True
    then show ?thesis using 2(2) by (cases n) auto
  next
    case False
    then have len: "length es = n" "0 < n" using 2(2) by auto
    then have es: "es = butlast es @ [last es]" by (metis append_butlast_last_id length_greater_0_conv)
    have "all_entries (push_down (last es) ts) = take (total ts) (last es # all_entries ts)"
      using 2 False by simp
    moreover have "take (n + total ts) (e # es @ xs) = e # butlast es @ take (total ts) (last es # xs)" for xs
      using len by (subst es, cases n) simp_all
    ultimately show ?thesis using False by simp
  qed
qed simp

lemma push_down_filled: "filled ts \<Longrightarrow> filled (push_down e ts)"
proof (induction e ts rule: push_down.induct)
  case (2 e n es ts)
  then show ?case by (cases "length es < n") (auto simp: Suc_le_eq)
qed simp

lemma delete_absent: "k \<notin> fst ` set es \<Longrightarrow> AList.delete k es = es"
  by (rule delete_id)

lemma drop_key_absent: "k \<notin> fst ` set (all_entries ts) \<Longrightarrow> drop_key k ts = ts"
  by (induction ts) (auto simp: delete_absent image_Un)

lemma push_down_drop:
  assumes "filled ts" "distinct (map fst (all_entries ts))" "k \<in> fst ` set (all_entries ts)"
  shows "all_entries (push_down e (drop_key k ts)) = e # AList.delete k (all_entries ts) \<and>
    filled (push_down e (drop_key k ts))"
  using assms
proof (induction ts arbitrary: e)
  case (Cons t ts)
  obtain n es where t: "t = (n, es)" by (cases t)
  show ?case
  proof (cases "k \<in> fst ` set es")
    case True
    then have abs: "k \<notin> fst ` set (all_entries ts)" using Cons.prems(2) t by auto
    obtain v where v: "map_of es k = Some v" using True by (metis map_of_eq_None_iff option.exhaust)
    have len: "Suc (length (AList.delete k es)) = length es"
      using length_alist_delete [OF _ v] Cons.prems(2) t by simp
    then have lt: "length (AList.delete k es) < n" using Cons.prems(1) t by simp
    have "AList.delete k (all_entries (t # ts)) = AList.delete k es @ all_entries ts"
      using t delete_absent [OF abs] by (simp add: AList.delete_eq)
    then show ?thesis using t lt len Cons.prems(1) drop_key_absent [OF abs] by auto
  next
    case False
    then have k: "k \<in> fst ` set (all_entries ts)" using Cons.prems(3) t by auto
    then have "all_entries ts \<noteq> []" by auto
    then have full: "length es = n" "0 < n" using Cons.prems(1) t by auto
    then have es: "butlast es @ [last es] = es" by (metis append_butlast_last_id length_greater_0_conv)
    have IH: "all_entries (push_down (last es) (drop_key k ts)) = last es # AList.delete k (all_entries ts)"
      "filled (push_down (last es) (drop_key k ts))"
      using Cons.IH [of "last es"] Cons.prems t k by auto
    have "AList.delete k (all_entries (t # ts)) = es @ AList.delete k (all_entries ts)"
      using t delete_absent [OF False] by (simp add: AList.delete_eq)
    moreover have "butlast es @ last es # xs = es @ xs" for xs using es by (metis append.assoc append_Cons append_Nil)
    ultimately show ?thesis using t full IH delete_absent [OF False] by simp
  qed
qed simp

section \<open>The concrete tiers\<close>

definition view :: "tier \<Rightarrow> tier_view" where
  "view t = (nat (tier_capacity t), entries (tier_cache t))"

abbreviation views :: "MultiTierCache \<Rightarrow> tier_view list" where
  "views s \<equiv> map view (tiers s)"

definition tier_ok :: "tier \<Rightarrow> bool" where
  "tier_ok t \<longleftrightarrow> 0 < tier_capacity t \<and> tier_capacity t < 2 ^ 31 \<and> il_ok (tier_cache t) \<and>
     int (length (entries (tier_cache t))) \<le> tier_capacity t"

text \<open>The directory says for every key in which tier it is; so a key is in one tier at most.\<close>

definition located :: "MultiTierCache \<Rightarrow> bool" where
  "located s \<longleftrightarrow> (\<forall>t \<in> set (tiers s). tier_ok t) \<and>
     (\<forall>k l. um_find (key_to_tier s) k = Some l \<longleftrightarrow>
        l < length (tiers s) \<and> k \<in> fst ` set (entries (tier_cache (tiers s ! l))))"

lemma located_tier: "located s \<Longrightarrow> l < length (tiers s) \<Longrightarrow> tier_ok (tiers s ! l)"
  by (simp add: located_def)

lemma located_iff:
  "located s \<Longrightarrow> um_find (key_to_tier s) k = Some l \<longleftrightarrow>
     l < length (tiers s) \<and> k \<in> fst ` set (entries (tier_cache (tiers s ! l)))"
  unfolding located_def by blast

lemma tier_full_iff: "tier_ok t \<Longrightarrow> tier_full t \<longleftrightarrow> \<not> length (entries (tier_cache t)) < nat (tier_capacity t)"
  by (auto simp: tier_full_def tier_ok_def il_ok_size entries_def size_t_pos)

text \<open>Replacing one tier: what the tier gains and loses is what the directory gains and loses.\<close>

lemma located_update:
  assumes "located s" "l < length (tiers s)" "tier_ok t" "fst ` set (entries (tier_cache t)) = K"
    and "\<And>j. um_find m j = (if j \<in> K then Some l
            else if um_find (key_to_tier s) j = Some l then None else um_find (key_to_tier s) j)"
    and "\<And>j i. j \<in> K \<Longrightarrow> i \<noteq> l \<Longrightarrow> um_find (key_to_tier s) j \<noteq> Some i"
  shows "located (s\<lparr>tiers := (tiers s)[l := t], key_to_tier := m\<rparr>)"
proof -
  have "(um_find m j = Some i) = (i < length (tiers s) \<and> j \<in> fst ` set (entries (tier_cache ((tiers s)[l := t] ! i))))" for j i
  proof (cases "i = l")
    case True
    then show ?thesis using assms(2,4,5) by auto
  next
    case False
    then show ?thesis using assms(2,6) located_iff [OF assms(1), of j i] by (auto simp: assms(5))
  qed
  moreover have "\<forall>x \<in> set ((tiers s)[l := t]). tier_ok x"
    using assms(1,3) set_update_subset_insert [of "tiers s" l t] by (auto simp: located_def)
  ultimately show ?thesis by (simp add: located_def)
qed

lemma view_update: "l < length ts \<Longrightarrow> map view (ts[l := t]) = take l (map view ts) @ view t # drop (Suc l) (map view ts)"
  by (simp add: map_update upd_conv_take_nth_drop take_map drop_map)

lemma tier_insert_capacity [simp]: "tier_capacity (tier_insert k v t) = tier_capacity t"
  by (simp add: tier_insert_def)

lemma insert_into_tier_ok:
  assumes "located s" "um_find (key_to_tier s) k = None"
  shows "\<exists>s'. insert_into_tier l k v s = Some s' \<and> located s' \<and>
    views s' = take l (views s) @ push_down (k, v) (drop l (views s))"
  using assms
proof (induction "length (tiers s) - l" arbitrary: l k v s rule: less_induct)
  case less
  show ?case
  proof (cases "l < length (tiers s)")
    case False
    have "um_find (um_erase k (key_to_tier s)) = um_find (key_to_tier s)" using less.prems(2) by (auto simp: cxx_map)
    then show ?thesis using False less.prems(1) by (subst insert_into_tier.simps) (auto simp: located_def)
  next
    case True
    let ?t = "tiers s ! l" and ?es = "entries (tier_cache (tiers s ! l))"
    have ok: "tier_ok ?t" using located_tier [OF less.prems(1) True] .
    then have il: "il_ok (tier_cache ?t)" by (simp add: tier_ok_def)
    have new: "k \<notin> fst ` set ?es" using located_iff [OF less.prems(1), of k l] less.prems(2) True by simp
    then have new': "map_of ?es k = None" by (simp add: map_of_eq_None_iff)
    have here: "fst ` set ?es = {j. um_find (key_to_tier s) j = Some l}"
      using located_iff [OF less.prems(1), of _ l] True by auto
    have dr: "drop l (views s) = view ?t # drop (Suc l) (views s)" using True by (metis Cons_nth_drop_Suc length_map nth_map)
    show ?thesis
    proof (cases "tier_full ?t")
      case False
      let ?t' = "tier_insert k v ?t"
      let ?s = "s\<lparr>tiers := (tiers s)[l := ?t'], key_to_tier := um_put k l (key_to_tier s)\<rparr>"
      have e: "entries (tier_cache ?t') = (k, v) # ?es" "il_ok (tier_cache ?t')"
        using il_insert_ok [OF il new', of v] by (simp_all add: tier_insert_def)
      have short: "length ?es < nat (tier_capacity ?t)" using False tier_full_iff [OF ok] by simp
      have "tier_ok ?t'" using ok e short by (auto simp: tier_ok_def tier_insert_def)
      moreover have "fst ` set (entries (tier_cache ?t')) = insert k {j. um_find (key_to_tier s) j = Some l}"
        by (simp add: e here)
      ultimately have "located ?s"
      proof (rule located_update [OF less.prems(1) True], goal_cases)
        case (1 j)
        then show ?case by (simp add: cxx_map)
      next
        case (2 j i)
        then show ?case using less.prems(2) by (cases "j = k") simp_all
      qed
      moreover have "views ?s = take l (views s) @ push_down (k, v) (drop l (views s))"
        using short True by (simp add: view_update dr) (simp add: view_def e)
      ultimately show ?thesis using True False by (subst insert_into_tier.simps) simp
    next
      case full: True
      then have len: "length ?es = nat (tier_capacity ?t)" "?es \<noteq> []"
        using tier_full_iff [OF ok] ok by (auto simp: tier_ok_def)
      obtain c where c: "il_evict (tier_cache ?t) = Some (last ?es, c)" "il_ok c" "entries c = butlast ?es"
        using il_evict_ok [OF il len(2)] by blast
      let ?t1 = "?t\<lparr>tier_cache := c\<rparr>" and ?e = "last ?es"
      have e: "entries (tier_cache (tier_insert k v ?t1)) = (k, v) # butlast ?es"
        "il_ok (tier_cache (tier_insert k v ?t1))"
      proof -
        have "map_of (entries c) k = None"
          using new by (auto simp: c(3) map_of_eq_None_iff dest: in_set_butlastD)
        then show "entries (tier_cache (tier_insert k v ?t1)) = (k, v) # butlast ?es"
          "il_ok (tier_cache (tier_insert k v ?t1))"
          using il_insert_ok [OF c(2), of k v] c(3) by (simp_all add: tier_insert_def)
      qed
      let ?m = "um_put k l (um_erase (fst ?e) (key_to_tier s))"
      let ?s = "s\<lparr>tiers := (tiers s)[l := tier_insert k v ?t1], key_to_tier := ?m\<rparr>"
      have d: "distinct (map fst ?es)" using il by (simp add: il_ok_def)
      have split: "?es = butlast ?es @ [?e]" using len(2) by simp
      have keys: "fst ` set ?es = insert (fst ?e) (fst ` set (butlast ?es))"
        by (subst split) auto
      have out: "fst ?e \<notin> fst ` set (butlast ?es)"
      proof -
        have "distinct (map fst (butlast ?es @ [?e]))" using d split by metis
        then show ?thesis by auto
      qed
      have ne: "fst ?e \<noteq> k" using new keys by auto
      have was: "um_find (key_to_tier s) (fst ?e) = Some l" using keys here by auto
      have keys': "fst ` set (butlast ?es) = {j. um_find (key_to_tier s) j = Some l} - {fst ?e}"
        using keys out here by auto
      have "tier_ok (tier_insert k v ?t1)" using ok e len by (auto simp: tier_ok_def tier_insert_def)
      moreover have "fst ` set (entries (tier_cache (tier_insert k v ?t1))) = insert k ({j. um_find (key_to_tier s) j = Some l} - {fst ?e})"
        by (simp add: e(1) keys')
      ultimately have loc: "located ?s"
      proof (rule located_update [OF less.prems(1) True], goal_cases)
        case (1 j)
        then show ?case using was by (simp add: cxx_map)
      next
        case (2 j i)
        then show ?case using less.prems(2) by (cases "j = k") simp_all
      qed
      have dec: "length (tiers ?s) - (l + 1) < length (tiers s) - l" using True by simp
      have gone: "um_find (key_to_tier ?s) (fst ?e) = None" using ne by (simp add: cxx_map)
      obtain s' where
        s': "insert_into_tier (l + 1) (fst ?e) (snd ?e) ?s = Some s'" "located s'"
          "views s' = take (l + 1) (views ?s) @ push_down ?e (drop (l + 1) (views ?s))"
        using less.hyps [OF dec loc gone, of "snd ?e"] by auto
      have "views ?s = take l (views s) @ view (tier_insert k v ?t1) # drop (Suc l) (views s)"
        using True by (simp add: view_update)
      then have "views s' = take l (views s) @ push_down (k, v) (drop l (views s))"
        using s'(3) len True by (simp add: dr min_def) (simp add: view_def e)
      then show ?thesis using True full c(1) s' by (subst insert_into_tier.simps) (simp add: tier_evictLRU_def)
    qed
  qed
qed

text \<open>Taking a key out of its tier.\<close>

lemma take_out_ok:
  assumes "located s" "um_find (key_to_tier s) k = Some l"
  shows "\<exists>a v c. um_find (mm (tier_cache (tiers s ! l))) k = Some a \<and> il_at a (tier_cache (tiers s ! l)) = Some (k, v) \<and>
    il_remove k a (tier_cache (tiers s ! l)) = Some c \<and> map_of (entries (tier_cache (tiers s ! l))) k = Some v \<and>
    located (s\<lparr>tiers := (tiers s)[l := (tiers s ! l)\<lparr>tier_cache := c\<rparr>], key_to_tier := um_erase k (key_to_tier s)\<rparr>) \<and>
    map view ((tiers s)[l := (tiers s ! l)\<lparr>tier_cache := c\<rparr>]) = drop_key k (views s)"
proof -
  let ?t = "tiers s ! l"
  have l: "l < length (tiers s)" and k: "k \<in> fst ` set (entries (tier_cache ?t))"
    using located_iff [OF assms(1)] assms(2) by auto
  have ok: "tier_ok ?t" using located_tier [OF assms(1) l] .
  then have il: "il_ok (tier_cache ?t)" by (simp add: tier_ok_def)
  obtain v where v: "map_of (entries (tier_cache ?t)) k = Some v" using k by (metis map_of_eq_None_iff option.exhaust)
  obtain a where a: "um_find (mm (tier_cache ?t)) k = Some a" using il_hit_address [OF il v] by blast
  obtain c where c: "il_remove k a (tier_cache ?t) = Some c" "il_ok c" "entries c = AList.delete k (entries (tier_cache ?t))"
    using il_remove_ok [OF il a] by blast
  have at: "il_at a (tier_cache ?t) = Some (k, v)" using il_ok_find(2) [OF il a] v by auto
  have here: "fst ` set (entries (tier_cache ?t)) = {j. um_find (key_to_tier s) j = Some l}"
    using located_iff [OF assms(1), of _ l] l by auto
  have "length (entries c) \<le> length (entries (tier_cache ?t))" unfolding c(3) by (rule length_delete_le)
  then have "tier_ok (?t\<lparr>tier_cache := c\<rparr>)" using ok c(2) by (auto simp: tier_ok_def)
  moreover have "fst ` set (entries c) = fst ` set (entries (tier_cache ?t)) - {k}"
    by (auto simp: c(3) set_alist_delete image_iff)
  then have "fst ` set (entries (tier_cache (?t\<lparr>tier_cache := c\<rparr>))) = {j. um_find (key_to_tier s) j = Some l} - {k}"
    by (simp add: here)
  ultimately have loc: "located (s\<lparr>tiers := (tiers s)[l := ?t\<lparr>tier_cache := c\<rparr>], key_to_tier := um_erase k (key_to_tier s)\<rparr>)"
    by (rule located_update [OF assms(1) l]) (simp_all add: cxx_map assms(2))
  have "map view ((tiers s)[l := ?t\<lparr>tier_cache := c\<rparr>]) = drop_key k (views s)"
  proof (rule nth_equalityI)
    fix i assume i: "i < length (map view ((tiers s)[l := ?t\<lparr>tier_cache := c\<rparr>]))"
    show "map view ((tiers s)[l := ?t\<lparr>tier_cache := c\<rparr>]) ! i = drop_key k (views s) ! i"
    proof (cases "i = l")
      case True
      then show ?thesis using l c(3) by (simp add: drop_key_def view_def)
    next
      case False
      then have "k \<notin> fst ` set (entries (tier_cache (tiers s ! i)))"
        using located_iff [OF assms(1), of k i] assms(2) i by auto
      then show ?thesis using False i by (simp add: drop_key_def view_def delete_absent)
    qed
  qed (simp add: drop_key_def)
  then show ?thesis using a at c(1) v loc by blast
qed

section \<open>The tiers together are one LRU cache\<close>

definition mt_ok :: "MultiTierCache \<Rightarrow> bool" where
  "mt_ok s \<longleftrightarrow> located s \<and> filled (views s) \<and> tiers s \<noteq> []"

abbreviation mt_entries :: "MultiTierCache \<Rightarrow> (int \<times> int) list" where
  "mt_entries s \<equiv> all_entries (views s)"

abbreviation mt_total :: "MultiTierCache \<Rightarrow> nat" where
  "mt_total s \<equiv> total (views s)"

lemma all_entries_keys: "fst ` set (mt_entries s) = (\<Union>t \<in> set (tiers s). fst ` set (entries (tier_cache t)))"
  by (auto simp: all_entries_def view_def image_iff)

lemma located_find: "located s \<Longrightarrow> um_find (key_to_tier s) k = None \<longleftrightarrow> map_of (mt_entries s) k = None"
proof -
  assume s: "located s"
  have "um_find (key_to_tier s) k = None \<longleftrightarrow> (\<forall>l. um_find (key_to_tier s) k \<noteq> Some l)" by auto
  also have "\<dots> \<longleftrightarrow> k \<notin> fst ` set (mt_entries s)"
    unfolding all_entries_keys located_iff [OF s]
    using all_set_conv_all_nth [of "tiers s" "\<lambda>t. k \<notin> fst ` set (entries (tier_cache t))"] by blast
  finally show ?thesis by (simp add: map_of_eq_None_iff)
qed

lemma located_distinct:
  assumes "located s"
  shows "distinct (map fst (mt_entries s))"
proof -
  have "distinct (concat (map (\<lambda>t. map fst (entries (tier_cache t))) (take n (tiers s))))" for n
  proof (induction n)
    case (Suc n)
    show ?case
    proof (cases "n < length (tiers s)")
      case True
      have "distinct (map fst (entries (tier_cache (tiers s ! n))))"
        using located_tier [OF assms True] by (simp add: tier_ok_def il_ok_def)
      moreover have "j \<notin> fst ` set (entries (tier_cache t))"
        if mem: "j \<in> fst ` set (entries (tier_cache (tiers s ! n)))" "t \<in> set (take n (tiers s))" for j t
      proof
        assume "j \<in> fst ` set (entries (tier_cache t))"
        moreover obtain i where "i < n" "t = tiers s ! i" using mem(2) by (auto simp: in_set_conv_nth)
        ultimately show False
          using located_iff [OF assms, of j i] located_iff [OF assms, of j n] mem(1) True by auto
      qed
      ultimately show ?thesis using Suc True by (fastforce simp: take_Suc_conv_app_nth)
    qed (use Suc in simp)
  qed simp
  from this [of "length (tiers s)"] show ?thesis by (simp add: all_entries_def map_concat comp_def view_def)
qed

lemma mt_entry_tier:
  assumes "located s" "um_find (key_to_tier s) k = Some l" "map_of (entries (tier_cache (tiers s ! l))) k = Some v"
  shows "map_of (mt_entries s) k = Some v"
proof -
  have "l < length (tiers s)" using located_iff [OF assms(1)] assms(2) by auto
  then have "(k, v) \<in> set (mt_entries s)"
    using map_of_SomeD [OF assms(3)] by (auto simp: all_entries_def view_def intro!: bexI [of _ "tiers s ! l"])
  then show ?thesis using located_distinct [OF assms(1)] by simp
qed

lemma reinsert_ok:
  assumes "mt_ok s" "um_find (key_to_tier s) k = Some l"
    and "located s1" "um_find (key_to_tier s1) k = None" "views s1 = drop_key k (views s)"
  shows "\<exists>s2. insert_into_tier 0 k v s1 = Some s2 \<and> mt_ok s2 \<and> mt_total s2 = mt_total s \<and>
    mt_entries s2 = (k, v) # AList.delete k (mt_entries s)"
proof -
  have loc: "located s" and fil: "filled (views s)" using assms(1) by (auto simp: mt_ok_def)
  have k: "k \<in> fst ` set (mt_entries s)"
    using located_find [OF loc, of k] assms(2) by (auto simp: map_of_eq_None_iff)
  obtain s2 where s2: "insert_into_tier 0 k v s1 = Some s2" "located s2" "views s2 = push_down (k, v) (drop_key k (views s))"
    using insert_into_tier_ok [OF assms(3,4), of 0 v] assms(5) by auto
  note pd = push_down_drop [OF fil located_distinct [OF loc] k, of "(k, v)"]
  have "total (drop_key k ts) = total ts" for ts by (simp add: total_def drop_key_def comp_def case_prod_unfold)
  moreover have "tiers s2 \<noteq> []" using s2(3) pd by (cases "tiers s2") auto
  ultimately show ?thesis using s2 pd by (simp add: mt_ok_def)
qed

interpretation mt: lru_cache mt_get mt_put or_minus_1 mt_ok mt_entries mt_total
proof (unfold_locales, goal_cases)
  case (1 s)
  then show ?case by (cases "tiers s") (auto simp: mt_ok_def view_def)
next
  case (2 s k)
  then show ?case using located_find [of s k] by (simp add: mt_get_def mt_ok_def or_minus_1_def)
next
  case (3 s k v)
  then have loc: "located s" by (simp add: mt_ok_def)
  obtain l where l: "um_find (key_to_tier s) k = Some l" using located_find [OF loc, of k] 3(2) by auto
  obtain a w c where t: "um_find (mm (tier_cache (tiers s ! l))) k = Some a" "il_at a (tier_cache (tiers s ! l)) = Some (k, w)"
    "il_remove k a (tier_cache (tiers s ! l)) = Some c" "map_of (entries (tier_cache (tiers s ! l))) k = Some w"
    "located (s\<lparr>tiers := (tiers s)[l := (tiers s ! l)\<lparr>tier_cache := c\<rparr>], key_to_tier := um_erase k (key_to_tier s)\<rparr>)"
    "map view ((tiers s)[l := (tiers s ! l)\<lparr>tier_cache := c\<rparr>]) = drop_key k (views s)"
    using take_out_ok [OF loc l] by blast
  have "w = v" using mt_entry_tier [OF loc l t(4)] 3(2) by simp
  then show ?case
    using reinsert_ok [OF 3(1) l t(5), of v] t l
    by (auto simp: mt_get_def remove_and_extract_value_def cxx_map or_minus_1_def Let_def)
next
  case (4 s k w v)
  then have loc: "located s" by (simp add: mt_ok_def)
  obtain l where l: "um_find (key_to_tier s) k = Some l" using located_find [OF loc, of k] 4(2) by auto
  obtain a w c where t: "um_find (mm (tier_cache (tiers s ! l))) k = Some a"
    "il_remove k a (tier_cache (tiers s ! l)) = Some c"
    "located (s\<lparr>tiers := (tiers s)[l := (tiers s ! l)\<lparr>tier_cache := c\<rparr>], key_to_tier := um_erase k (key_to_tier s)\<rparr>)"
    "map view ((tiers s)[l := (tiers s ! l)\<lparr>tier_cache := c\<rparr>]) = drop_key k (views s)"
    using take_out_ok [OF loc l] by blast
  show ?case
    using reinsert_ok [OF 4(1) l t(3), of v] t l by (auto simp: mt_put_def tier_erase_def cxx_map)
next
  case (5 s k v)
  then have loc: "located s" and fil: "filled (views s)" by (auto simp: mt_ok_def)
  have n: "um_find (key_to_tier s) k = None" using located_find [OF loc, of k] 5(2) by simp
  obtain s' where s': "insert_into_tier 0 k v s = Some s'" "located s'" "views s' = push_down (k, v) (views s)"
    using insert_into_tier_ok [OF loc n, of 0 v] by auto
  have pos: "0 < mt_total s" using 5(1) by (cases "tiers s") (auto simp: mt_ok_def view_def)
  then have ents: "mt_entries s' = take (mt_total s) ((k, v) # mt_entries s)"
    using push_down_entries [OF fil] s'(3) by simp
  have "take m (e # xs) = e # (if length xs = m then butlast xs else xs)" if "0 < m" "length xs \<le> m" for m and e :: "int \<times> int" and xs
    using that by (cases m) (auto simp: butlast_conv_take)
  then have "mt_entries s' = (k, v) # (if length (mt_entries s) = mt_total s then butlast (mt_entries s) else mt_entries s)"
    using ents pos filled_length [OF fil] by simp
  moreover have "tiers s' \<noteq> []" using s'(3) 5(1) by (cases "tiers s"; cases "tiers s'") (auto simp: mt_ok_def view_def split: if_splits)
  ultimately show ?case using s' n push_down_filled [OF fil, of "(k, v)"] by (simp add: mt_put_def mt_ok_def)
qed

text \<open>
  C18. The multi-tier cache is an LRU cache of the summed capacity. For any non-empty list of positive
  tier capacities and any sequence of calls, nothing is undefined behaviour; the entries of the
  tiers, read from the hottest to the coldest, are exactly the most recently used keys, most recent
  first; and a lookup returns the value last put for a key held in some tier and -1 otherwise.
\<close>
theorem mt_recency:
  assumes "caps \<noteq> []" "\<forall>n \<in> set caps. 0 < n \<and> n < 2 ^ 31"
  shows "\<exists>s s'. cache_run mt_get mt_put ps (mt_new caps) = Some s \<and>
    map fst (concat (map (entries \<circ> tier_cache) (tiers s))) =
      take (nat (sum_list caps)) (fold (recency (nat (sum_list caps))) ps []) \<and>
    mt_get k s = Some (or_minus_1 (if k \<in> set (take (nat (sum_list caps)) (fold (recency (nat (sum_list caps))) ps []))
      then fold last_put ps Map.empty k else None), s')"
proof -
  have v: "views (mt_new caps) = map (\<lambda>n. (nat n, [])) caps"
    by (simp add: mt_new_def view_def tier_new_def entries_new)
  have empty: "all_entries (map (\<lambda>n. (nat n, [])) ns) = []" for ns by (induction ns) auto
  have "filled (map (\<lambda>n. (nat n, [])) ns)" if "\<forall>n \<in> set ns. 0 < n" for ns
    using that by (induction ns) (auto simp: empty)
  moreover have "located (mt_new caps)"
    using assms(2) by (auto simp: located_def mt_new_def tier_ok_def tier_new_def il_ok_new entries_new)
  ultimately have ok: "mt_ok (mt_new caps)"
    using assms v by (auto simp: mt_ok_def)
  have "total (map (\<lambda>n. (nat n, [])) ns) = nat (sum_list ns)" if "\<forall>n \<in> set ns. 0 < n" for ns
    using that
  proof (induction ns)
    case (Cons n ns)
    have "0 \<le> sum_list ns" using Cons.prems by (intro sum_list_nonneg) auto
    then show ?case using Cons by (simp add: nat_add_distrib)
  qed simp
  then have tot: "mt_total (mt_new caps) = nat (sum_list caps)" using assms(2) v by simp
  have ents: "mt_entries s = concat (map (entries \<circ> tier_cache) (tiers s))" for s
    by (simp add: all_entries_def view_def comp_def)
  have e: "mt_entries (mt_new caps) = []" using empty v by simp
  show ?thesis using mt.lookup [OF ok e, of ps k] unfolding tot unfolding ents .
qed

theorem mt_recency_witness:
  "\<exists>s s'. cache_run mt_get mt_put [CPut 1 10, CPut 2 20, CPut 3 30, CGet 1, CPut 4 40] (mt_new [1, 2]) = Some s \<and>
     map fst (concat (map (entries \<circ> tier_cache) (tiers s))) = [4, 1, 3] \<and> mt_get 2 s = Some (-1, s')"
  using mt_recency [of "[1, 2]" "[CPut 1 10, CPut 2 20, CPut 3 30, CGet 1, CPut 4 40]" 2]
  by (simp add: or_minus_1_def numeral_nat)

end
