(* ===== verification/TTL_Cache.thy ===== *)
theory TTL_Cache
  imports Indexed_List
begin

text \<open>
  The cache with expiry \<^verbatim>\<open>caching/RedisCache_withTTLexpiration.cpp\<close>. The clock
  \<^verbatim>\<open>steady_clock::now()\<close> is an argument of the operations, in seconds. Every call holds the writer lock
  and is one step.
\<close>

record ttl_node =
  node_value :: string
  expiry_time :: int

record RedisCache =
  redis_capacity :: int
  redis_cache :: "(string, ttl_node) ilist"

definition redis_new :: "int \<Rightarrow> RedisCache" where
  "redis_new n = \<lparr>redis_capacity = n, redis_cache = il_new\<rparr>"

definition KEY_NOT_FOUND :: string where
  "KEY_NOT_FOUND = ''Key NOT FOUND in Cache!''"

definition KEY_EXPIRED :: string where
  "KEY_EXPIRED = ''LAZYily EXPIRED Key!''"

definition redis_get :: "int \<Rightarrow> string \<Rightarrow> RedisCache \<Rightarrow> (string \<times> RedisCache) option" where
  "redis_get now k s =
     (case um_find (mm (redis_cache s)) k of
        None \<Rightarrow> Some (KEY_NOT_FOUND, s)
      | Some a \<Rightarrow> do {
          (_, n) \<leftarrow> il_at a (redis_cache s);
          if now > expiry_time n
          then do { c \<leftarrow> il_remove k a (redis_cache s); Some (KEY_EXPIRED, s\<lparr>redis_cache := c\<rparr>) }
          else do { c \<leftarrow> il_splice a (redis_cache s); Some (node_value n, s\<lparr>redis_cache := c\<rparr>) } })"

definition redis_put :: "int \<Rightarrow> string \<Rightarrow> string \<Rightarrow> int \<Rightarrow> RedisCache \<Rightarrow> RedisCache option" where
  "redis_put now k v ttl s = do {
     c1 \<leftarrow> (case um_find (mm (redis_cache s)) k of
              None \<Rightarrow> Some (redis_cache s)
            | Some a \<Rightarrow> il_remove k a (redis_cache s));
     c2 \<leftarrow> (if int (length (nodes c1)) \<ge> size_t (redis_capacity s) then map_option snd (il_evict c1) else Some c1);
     Some (s\<lparr>redis_cache := il_insert k \<lparr>node_value = v, expiry_time = now + ttl\<rparr> c2\<rparr>) }"

datatype redis_op = RGet int string | RPut int string string int

fun redis_exec :: "redis_op \<Rightarrow> RedisCache \<Rightarrow> RedisCache option" where
  "redis_exec (RGet t k) s = map_option snd (redis_get t k s)"
| "redis_exec (RPut t k v ttl) s = redis_put t k v ttl s"

fun redis_run :: "redis_op list \<Rightarrow> RedisCache \<Rightarrow> RedisCache option" where
  "redis_run [] s = Some s"
| "redis_run (p # ps) s = do { s' \<leftarrow> redis_exec p s; redis_run ps s' }"

fun last_node :: "redis_op \<Rightarrow> (string \<rightharpoonup> ttl_node) \<Rightarrow> (string \<rightharpoonup> ttl_node)" where
  "last_node (RGet t k) m = m"
| "last_node (RPut t k v ttl) m = m(k \<mapsto> \<lparr>node_value = v, expiry_time = t + ttl\<rparr>)"

section \<open>The cache holds last values only\<close>

abbreviation redis_entries :: "RedisCache \<Rightarrow> (string \<times> ttl_node) list" where
  "redis_entries s \<equiv> entries (redis_cache s)"

definition redis_ok :: "int \<Rightarrow> (string \<rightharpoonup> ttl_node) \<Rightarrow> RedisCache \<Rightarrow> bool" where
  "redis_ok n m s \<longleftrightarrow> redis_capacity s = n \<and> 0 < n \<and> n < 2 ^ 31 \<and> il_ok (redis_cache s) \<and>
     int (length (redis_entries s)) \<le> n \<and> map_of (redis_entries s) \<subseteq>\<^sub>m m"

lemma map_of_delete_le: "map_of (AList.delete k es) \<subseteq>\<^sub>m map_of es"
  by (auto simp: map_le_def delete_conv' split: if_splits)

lemma map_of_butlast_le: "distinct (map fst es) \<Longrightarrow> map_of (butlast es) \<subseteq>\<^sub>m map_of es"
  unfolding map_le_def
  by (metis domD in_set_butlastD map_of_SomeD map_of_is_SomeI)

lemma redis_get_result:
  assumes "redis_ok n m s"
  shows "\<exists>s'. redis_get t k s = Some (case map_of (redis_entries s) k of
      None \<Rightarrow> KEY_NOT_FOUND
    | Some x \<Rightarrow> if t > expiry_time x then KEY_EXPIRED else node_value x, s') \<and> redis_ok n m s'"
proof (cases "um_find (mm (redis_cache s)) k")
  case None
  then show ?thesis
    using assms il_ok_find(1) [of "redis_cache s" k] by (auto simp: redis_get_def redis_ok_def)
next
  case (Some a)
  have ok: "il_ok (redis_cache s)" using assms by (simp add: redis_ok_def)
  obtain x where x: "il_at a (redis_cache s) = Some (k, x)" "map_of (redis_entries s) k = Some x"
    using il_ok_find(2) [OF ok Some] by blast
  show ?thesis
  proof (cases "t > expiry_time x")
    case True
    obtain c where c: "il_remove k a (redis_cache s) = Some c" "il_ok c" "entries c = AList.delete k (redis_entries s)"
      using il_remove_ok [OF ok Some] by blast
    have "map_of (entries c) \<subseteq>\<^sub>m m" "length (entries c) \<le> length (redis_entries s)"
      using map_of_delete_le [of k "redis_entries s"] assms map_le_trans unfolding c(3) redis_ok_def
      by (blast, simp add: length_delete_le)
    then have "redis_ok n m (s\<lparr>redis_cache := c\<rparr>)" using assms c(2) by (simp add: redis_ok_def)
    then show ?thesis using True Some x c(1) by (simp add: redis_get_def)
  next
    case False
    obtain y c where c: "il_at a (redis_cache s) = Some (k, y)" "il_splice a (redis_cache s) = Some c" "il_ok c"
      "entries c = (k, y) # AList.delete k (redis_entries s)"
      using il_splice_ok [OF ok Some] by blast
    have yx: "y = x" using c(1) x(1) by simp
    have "map_of (entries c) = map_of (redis_entries s)" using x(2) by (auto simp: c(4) yx delete_conv')
    moreover have "length (entries c) = length (redis_entries s)"
      using length_alist_delete [OF il_ok_distinct [OF ok] x(2)] by (simp add: c(4))
    ultimately have "redis_ok n m (s\<lparr>redis_cache := c\<rparr>)" using assms c(3) by (simp add: redis_ok_def)
    then show ?thesis using False Some x c(2) by (simp add: redis_get_def)
  qed
qed

lemma redis_put_result:
  assumes "redis_ok n m s"
  shows "\<exists>s'. redis_put t k v ttl s = Some s' \<and>
    redis_ok n (m(k \<mapsto> \<lparr>node_value = v, expiry_time = t + ttl\<rparr>)) s' \<and>
    map_of (redis_entries s') k = Some \<lparr>node_value = v, expiry_time = t + ttl\<rparr>"
proof -
  let ?x = "\<lparr>node_value = v, expiry_time = t + ttl\<rparr>"
  have ok: "il_ok (redis_cache s)" and n: "redis_capacity s = n" "0 < n" "n < 2 ^ 31"
    and len: "int (length (redis_entries s)) \<le> n" and le: "map_of (redis_entries s) \<subseteq>\<^sub>m m"
    using assms by (simp_all add: redis_ok_def)
  obtain c1 where c1: "(case um_find (mm (redis_cache s)) k of None \<Rightarrow> Some (redis_cache s)
      | Some a \<Rightarrow> il_remove k a (redis_cache s)) = Some c1" "il_ok c1" "entries c1 = AList.delete k (redis_entries s)"
  proof (cases "um_find (mm (redis_cache s)) k")
    case None
    then have "map_of (redis_entries s) k = None" using il_ok_find(1) [OF ok] by simp
    then show ?thesis using that [of "redis_cache s"] ok None by (simp add: um_erase_absent)
  next
    case (Some a)
    then show ?thesis using that il_remove_ok [OF ok Some] by auto
  qed
  have len1: "int (length (entries c1)) \<le> n" using len length_delete_le [of k "redis_entries s"] unfolding c1(3) by linarith
  have le1: "map_of (entries c1) \<subseteq>\<^sub>m m" unfolding c1(3) by (rule map_le_trans [OF map_of_delete_le le])
  have d1: "distinct (map fst (entries c1))" using c1(2) by (rule il_ok_distinct)
  obtain c2 where c2: "(if int (length (nodes c1)) \<ge> size_t (redis_capacity s) then map_option snd (il_evict c1) else Some c1) = Some c2"
    "il_ok c2" "int (length (entries c2)) < n" "map_of (entries c2) \<subseteq>\<^sub>m map_of (entries c1)"
  proof (cases "int (length (nodes c1)) \<ge> size_t (redis_capacity s)")
    case True
    then have ne: "entries c1 \<noteq> []" using n by (auto simp: size_t_pos entries_def)
    then obtain c where c: "il_evict c1 = Some (last (entries c1), c)" "il_ok c" "entries c = butlast (entries c1)"
      using il_evict_ok [OF c1(2)] by blast
    have "length (entries c) < length (entries c1)" using ne by (simp add: c(3))
    moreover have "map_of (entries c) \<subseteq>\<^sub>m map_of (entries c1)" unfolding c(3) by (rule map_of_butlast_le [OF d1])
    ultimately show ?thesis using that True c len1 by simp
  next
    case False
    then show ?thesis using that c1(2) n by (simp add: size_t_pos entries_def)
  qed
  have le2: "map_of (entries c2) \<subseteq>\<^sub>m m" using c2(4) le1 by (rule map_le_trans)
  have "map_of (entries c1) k = None" by (simp add: c1(3) delete_conv')
  then have k: "map_of (entries c2) k = None" using c2(4) by (metis domIff map_le_def)
  note ins = il_insert_ok [OF c2(2) k, of ?x]
  have "map_of (entries (il_insert k ?x c2)) \<subseteq>\<^sub>m m(k \<mapsto> ?x)"
    using le2 unfolding ins(2) by (auto simp: map_le_def)
  then have "redis_ok n (m(k \<mapsto> ?x)) (s\<lparr>redis_cache := il_insert k ?x c2\<rparr>)"
    using n ins c2(3) by (simp add: redis_ok_def)
  moreover have "redis_put t k v ttl s = Some (s\<lparr>redis_cache := il_insert k ?x c2\<rparr>)"
    using c1(1) c2(1) by (simp add: redis_put_def)
  ultimately show ?thesis using ins(2) by simp
qed

lemma redis_run_ok: "redis_ok n m s \<Longrightarrow> \<exists>s'. redis_run ps s = Some s' \<and> redis_ok n (fold last_node ps m) s'"
proof (induction ps arbitrary: m s)
  case (Cons p ps)
  have "\<exists>s'. redis_exec p s = Some s' \<and> redis_ok n (last_node p m) s'"
    using redis_get_result [OF Cons.prems] redis_put_result [OF Cons.prems] by (cases p) fastforce+
  then show ?case using Cons.IH by fastforce
qed simp

text \<open>
  Expiry. From an empty cache of positive capacity, after any calls at any clock readings, put \<open>k\<close>
  at time \<open>t\<close> with a time to live. The cache holds at most \<open>capacity\<close> entries; a lookup of \<open>k\<close> at
  time \<open>u\<close> returns the value until its expiry time inclusive and the expiry message after it; and a
  lookup of any key returns a message or the unexpired value last put for that key.
\<close>
theorem redis_expiry:
  assumes "0 < n" "n < 2 ^ 31"
  shows "\<exists>s. redis_run (ps @ [RPut t k v ttl]) (redis_new n) = Some s \<and> length (redis_entries s) \<le> nat n \<and>
    map_option fst (redis_get u k s) = Some (if u \<le> t + ttl then v else KEY_EXPIRED) \<and>
    (\<forall>j. map_option fst (redis_get u j s) \<in> {Some KEY_NOT_FOUND, Some KEY_EXPIRED} \<or>
       (\<exists>x. fold last_node (ps @ [RPut t k v ttl]) Map.empty j = Some x \<and> u \<le> expiry_time x \<and>
            map_option fst (redis_get u j s) = Some (node_value x)))"
proof -
  have "redis_ok n Map.empty (redis_new n)" using assms by (simp add: redis_ok_def redis_new_def il_ok_new entries_new)
  then obtain s0 where s0: "redis_run ps (redis_new n) = Some s0" "redis_ok n (fold last_node ps Map.empty) s0"
    using redis_run_ok by blast
  let ?m = "fold last_node (ps @ [RPut t k v ttl]) Map.empty"
  obtain s where s: "redis_put t k v ttl s0 = Some s" "redis_ok n ?m s"
    "map_of (redis_entries s) k = Some \<lparr>node_value = v, expiry_time = t + ttl\<rparr>"
    using redis_put_result [OF s0(2), of t k v ttl] by auto
  have app: "redis_run (xs @ ys) s = do { s' \<leftarrow> redis_run xs s; redis_run ys s' }" for xs ys s
    by (induction xs arbitrary: s) (auto split: bind_splits)
  have "map_option fst (redis_get u j s) \<in> {Some KEY_NOT_FOUND, Some KEY_EXPIRED} \<or>
      (\<exists>x. ?m j = Some x \<and> u \<le> expiry_time x \<and> map_option fst (redis_get u j s) = Some (node_value x))" for j
  proof (cases "map_of (redis_entries s) j")
    case None
    then show ?thesis using redis_get_result [OF s(2), of u j] by auto
  next
    case (Some x)
    then have "?m j = Some x" using s(2) by (metis domI map_le_def redis_ok_def)
    then show ?thesis using redis_get_result [OF s(2), of u j] Some by (auto split: if_splits)
  qed
  moreover have "map_option fst (redis_get u k s) = Some (if u \<le> t + ttl then v else KEY_EXPIRED)"
    using redis_get_result [OF s(2), of u k] s(3) by auto
  moreover have "length (redis_entries s) \<le> nat n" using s(2) by (auto simp: redis_ok_def)
  moreover have "redis_run (ps @ [RPut t k v ttl]) (redis_new n) = Some s" using s0(1) s(1) by (simp add: app)
  ultimately show ?thesis by blast
qed

theorem redis_expiry_witness:
  "\<exists>s. redis_run [RPut 0 ''a'' ''1'' 5, RGet 2 ''a'', RPut 3 ''b'' ''2'' 4] (redis_new 2) = Some s \<and>
     map_option fst (redis_get 7 ''b'' s) = Some ''2''"
  using redis_expiry [of 2 "[RPut 0 ''a'' ''1'' 5, RGet 2 ''a'']" 3 "''b''" "''2''" 4 7] by auto

end
