(* ===== verification/Bounded_Queue.thy ===== *)
theory Bounded_Queue
  imports Prelude
begin

text \<open>
  The blocking queues of \<^verbatim>\<open>concurrency/\<close>: the circular buffer, the bounded queue with and without
  timeouts, the unbounded queue, the message queue and the connection pool. Each call runs under the
  queue's mutex; a call that must wait leaves the queue as it is, the value \<^const>\<open>None\<close> here, and is
  tried again when it is woken. One interface states that such a queue delivers exactly what was put
  in, in order, within its bound; every class is shown to satisfy it.
\<close>

section \<open>What a queue promises\<close>

datatype 'a queue_call = Enq 'a | Deq

text \<open>
  A history of calls by any number of threads, in the order in which they take the mutex. A call
  that blocks or times out has no effect. The result: the values accepted, the values delivered,
  and the final queue.
\<close>

fun queue_run ::
  "('a \<Rightarrow> 'q \<Rightarrow> 'q option) \<Rightarrow> ('q \<Rightarrow> ('a \<times> 'q) option) \<Rightarrow> 'a queue_call list \<Rightarrow> 'q \<Rightarrow> 'a list \<times> 'a list \<times> 'q" where
  "queue_run enq deq [] q = ([], [], q)"
| "queue_run enq deq (Enq x # cs) q =
     (case enq x q of
        None \<Rightarrow> queue_run enq deq cs q
      | Some q' \<Rightarrow> (let (ins, outs, r) = queue_run enq deq cs q' in (x # ins, outs, r)))"
| "queue_run enq deq (Deq # cs) q =
     (case deq q of
        None \<Rightarrow> queue_run enq deq cs q
      | Some (x, q') \<Rightarrow> (let (ins, outs, r) = queue_run enq deq cs q' in (ins, x # outs, r)))"

locale fifo =
  fixes enq :: "'a \<Rightarrow> 'q \<Rightarrow> 'q option" and deq :: "'q \<Rightarrow> ('a \<times> 'q) option"
    and ok :: "'q \<Rightarrow> bool" and items :: "'q \<Rightarrow> 'a list" and room :: "'q \<Rightarrow> bool"
  assumes enq_blocks: "ok q \<Longrightarrow> \<not> room q \<Longrightarrow> enq x q = None"
    and enq_adds: "ok q \<Longrightarrow> room q \<Longrightarrow> \<exists>q'. enq x q = Some q' \<and> ok q' \<and> items q' = items q @ [x]"
    and deq_blocks: "ok q \<Longrightarrow> items q = [] \<Longrightarrow> deq q = None"
    and deq_takes: "ok q \<Longrightarrow> items q = x # xs \<Longrightarrow> \<exists>q'. deq q = Some (x, q') \<and> ok q' \<and> items q' = xs"
begin

lemma order:
  assumes "ok q" "queue_run enq deq cs q = (ins, outs, r)"
  shows "ok r \<and> items q @ ins = outs @ items r"
  using assms
proof (induction cs arbitrary: q ins outs)
  case (Cons c cs)
  show ?case
  proof (cases c)
    case (Enq x)
    show ?thesis
    proof (cases "room q")
      case True
      obtain q' where q': "enq x q = Some q'" "ok q'" "items q' = items q @ [x]"
        using enq_adds [OF Cons.prems(1) True] by blast
      obtain i o' where run: "queue_run enq deq cs q' = (i, o', r)" "ins = x # i" "outs = o'"
        using Cons.prems(2) Enq q'(1) by (auto split: prod.splits)
      then show ?thesis using Cons.IH [OF q'(2) run(1)] q'(3) by simp
    next
      case False
      then show ?thesis using Cons Enq enq_blocks [OF Cons.prems(1) False] by simp
    qed
  next
    case Deq
    show ?thesis
    proof (cases "items q")
      case Nil
      then show ?thesis using Cons.IH [OF Cons.prems(1)] Cons.prems(2) Deq deq_blocks [OF Cons.prems(1) Nil] by simp
    next
      case item: (Cons x xs)
      obtain q' where q': "deq q = Some (x, q')" "ok q'" "items q' = xs"
        using deq_takes [OF Cons.prems(1) item] by blast
      obtain i o' where run: "queue_run enq deq cs q' = (i, o', r)" "ins = i" "outs = x # o'"
        using Cons.prems(2) Deq q'(1) by (auto split: prod.splits)
      then show ?thesis using Cons.IH [OF q'(2) run(1)] q'(3) item by simp
    qed
  qed
qed simp

text \<open>Never stuck: a queue with a slot or an item lets some call through.\<close>

lemma not_stuck: "ok q \<Longrightarrow> room q \<or> items q \<noteq> [] \<Longrightarrow> enq x q \<noteq> None \<or> deq q \<noteq> None"
  using enq_adds [of q x] deq_takes [of q "hd (items q)" "tl (items q)"] by (cases "items q") auto

end

section \<open>The circular buffer\<close>

record 'a circular =
  buffer :: "'a list"
  capacity :: int
  count :: int
  head :: int
  tail :: int

definition cb_new :: "'a \<Rightarrow> int \<Rightarrow> 'a circular" where
  "cb_new d n = \<lparr>buffer = replicate (nat n) d, capacity = n, count = 0, head = 0, tail = 0\<rparr>"

definition cb_push :: "'a \<Rightarrow> 'a circular \<Rightarrow> 'a circular option" where
  "cb_push x q =
     (if count q < capacity q
      then Some (q\<lparr>buffer := (buffer q)[nat (tail q) := x], tail := (tail q + 1) mod capacity q, count := count q + 1\<rparr>)
      else None)"

definition cb_pop :: "'a circular \<Rightarrow> ('a \<times> 'a circular) option" where
  "cb_pop q =
     (if count q > 0
      then Some (buffer q ! nat (head q), q\<lparr>head := (head q + 1) mod capacity q, count := count q - 1\<rparr>)
      else None)"

definition cb_items :: "'a circular \<Rightarrow> 'a list" where
  "cb_items q = map (\<lambda>i. buffer q ! nat ((head q + int i) mod capacity q)) [0..<nat (count q)]"

definition cb_ok :: "'a circular \<Rightarrow> bool" where
  "cb_ok q \<longleftrightarrow> 0 < capacity q \<and> length (buffer q) = nat (capacity q) \<and> 0 \<le> count q \<and> count q \<le> capacity q \<and>
     0 \<le> head q \<and> head q < capacity q \<and> tail q = (head q + count q) mod capacity q"

lemma mod_neq:
  fixes a n :: int
  assumes "0 \<le> i" "i < j" "j < i + n"
  shows "(a + i) mod n \<noteq> (a + j) mod n"
proof
  assume "(a + i) mod n = (a + j) mod n"
  then have "n dvd (a + j) - (a + i)" by (metis mod_eq_dvd_iff)
  then have "n dvd j - i" by simp
  then show False using assms zdvd_not_zless [of "j - i" n] by simp
qed

lemma cb_push_items:
  assumes "cb_ok q" "count q < capacity q"
  shows "\<exists>q'. cb_push x q = Some q' \<and> cb_ok q' \<and> cb_items q' = cb_items q @ [x]"
proof -
  let ?n = "capacity q" and ?q = "q\<lparr>buffer := (buffer q)[nat (tail q) := x], tail := (tail q + 1) mod capacity q, count := count q + 1\<rparr>"
  have t: "tail q = (head q + count q) mod ?n" "0 \<le> tail q" "tail q < ?n" using assms(1) by (auto simp: cb_ok_def)
  have "(tail q + 1) mod ?n = (head q + (count q + 1)) mod ?n" by (simp add: t(1) mod_simps add.assoc)
  then have "cb_ok ?q" using assms by (simp add: cb_ok_def)
  moreover have "buffer ?q ! nat ((head q + int i) mod ?n) = buffer q ! nat ((head q + int i) mod ?n)"
    if "i < nat (count q)" for i
  proof -
    have "(head q + int i) mod ?n \<noteq> tail q" unfolding t(1) using that assms by (intro mod_neq) (auto simp: cb_ok_def)
    then have "nat ((head q + int i) mod ?n) \<noteq> nat (tail q)" using t(2) assms(1) by (auto simp: cb_ok_def nat_eq_iff)
    then show ?thesis by simp
  qed
  moreover have "buffer ?q ! nat ((head q + count q) mod ?n) = x"
    using t assms(1) by (simp add: cb_ok_def nat_less_iff)
  moreover have "nat (count q + 1) = Suc (nat (count q))" using assms(1) by (simp add: cb_ok_def Suc_nat_eq_nat_zadd1 add.commute)
  ultimately have "cb_items ?q = cb_items q @ [x]" using assms(1) by (simp add: cb_items_def cb_ok_def)
  then show ?thesis using \<open>cb_ok ?q\<close> assms(2) by (simp add: cb_push_def)
qed

lemma cb_pop_items:
  assumes "cb_ok q" "cb_items q = x # xs"
  shows "\<exists>q'. cb_pop q = Some (x, q') \<and> cb_ok q' \<and> cb_items q' = xs"
proof -
  let ?n = "capacity q" and ?q = "q\<lparr>head := (head q + 1) mod capacity q, count := count q - 1\<rparr>"
  have pos: "0 < count q" using assms(2) by (cases "count q \<le> 0") (auto simp: cb_items_def)
  then obtain m where m: "nat (count q) = Suc m" by (metis gr0_implies_Suc zero_less_nat_eq)
  have "[0..<Suc m] = 0 # map Suc [0..<m]" by (simp add: map_Suc_upt upt_conv_Cons)
  then have "cb_items q = buffer q ! nat (head q mod ?n) # map (\<lambda>i. buffer q ! nat ((head q + 1 + int i) mod ?n)) [0..<m]"
    unfolding cb_items_def m by (simp add: comp_def add.assoc)
  moreover have "head q mod ?n = head q" using assms(1) by (simp add: cb_ok_def)
  moreover have "((head q + 1) mod ?n + int i) mod ?n = (head q + 1 + int i) mod ?n" for i by (simp add: mod_simps)
  moreover have "nat (count q - 1) = m" using m by simp
  ultimately have "x = buffer q ! nat (head q)" "cb_items ?q = xs" using assms(2) by (auto simp: cb_items_def)
  moreover have "cb_ok ?q" using assms(1) pos by (auto simp: cb_ok_def mod_simps)
  ultimately show ?thesis using pos by (simp add: cb_pop_def)
qed

interpretation cb: fifo cb_push cb_pop cb_ok cb_items "\<lambda>q. count q < capacity q"
proof (unfold_locales, goal_cases)
  case (1 q x)
  then show ?case by (simp add: cb_push_def)
next
  case (2 q x)
  then show ?case by (rule cb_push_items)
next
  case (3 q)
  then show ?case by (auto simp: cb_pop_def cb_items_def)
next
  case (4 q x xs)
  then show ?case by (rule cb_pop_items)
qed

section \<open>The bounded queue, with and without timeouts\<close>

text \<open>
  \<^verbatim>\<open>push\<close> and \<^verbatim>\<open>pop\<close> wait for their condition; \<^verbatim>\<open>try_push\<close> and \<^verbatim>\<open>try_pop\<close> wait with a timeout, and report
  failure when the condition does not hold at the end of the wait.
\<close>

record 'a bqueue =
  dq :: "'a list"
  Tcapacity :: nat

definition bq_new :: "nat \<Rightarrow> 'a bqueue" where
  "bq_new n = \<lparr>dq = [], Tcapacity = n\<rparr>"

definition bq_push :: "'a \<Rightarrow> 'a bqueue \<Rightarrow> 'a bqueue option" where
  "bq_push x q = (if length (dq q) < Tcapacity q then Some (q\<lparr>dq := dq q @ [x]\<rparr>) else None)"

definition bq_pop :: "'a bqueue \<Rightarrow> ('a \<times> 'a bqueue) option" where
  "bq_pop q = (case dq q of [] \<Rightarrow> None | x # xs \<Rightarrow> Some (x, q\<lparr>dq := xs\<rparr>))"

definition bq_try_push :: "'a \<Rightarrow> 'a bqueue \<Rightarrow> bool \<times> 'a bqueue" where
  "bq_try_push x q = (if length (dq q) < Tcapacity q then (True, q\<lparr>dq := dq q @ [x]\<rparr>) else (False, q))"

definition bq_try_pop :: "'a bqueue \<Rightarrow> 'a option \<times> 'a bqueue" where
  "bq_try_pop q = (case dq q of [] \<Rightarrow> (None, q) | x # xs \<Rightarrow> (Some x, q\<lparr>dq := xs\<rparr>))"

lemma bq_try: "bq_try_push x q = (case bq_push x q of None \<Rightarrow> (False, q) | Some q' \<Rightarrow> (True, q'))"
  "bq_try_pop q = (case bq_pop q of None \<Rightarrow> (None, q) | Some (x, q') \<Rightarrow> (Some x, q'))"
  by (auto simp: bq_try_push_def bq_push_def bq_try_pop_def bq_pop_def split: list.splits)

interpretation bq: fifo bq_push bq_pop "\<lambda>q. length (dq q) \<le> Tcapacity q" dq "\<lambda>q. length (dq q) < Tcapacity q"
  by unfold_locales (auto simp: bq_push_def bq_pop_def)

section \<open>The unbounded queues\<close>

definition q_push :: "'a \<Rightarrow> 'a list \<Rightarrow> 'a list option" where
  "q_push x q = Some (q @ [x])"

definition q_pop :: "'a list \<Rightarrow> ('a \<times> 'a list) option" where
  "q_pop q = (case q of [] \<Rightarrow> None | x # xs \<Rightarrow> Some (x, xs))"

definition mq_send :: "'a \<Rightarrow> 'a list \<Rightarrow> 'a list" where
  "mq_send x q = q @ [x]"

definition mq_receive :: "'a list \<Rightarrow> ('a \<times> 'a list) option" where
  "mq_receive q = (if q = [] then None else Some (hd q, tl q))"

definition mq_try_receive :: "'a list \<Rightarrow> 'a option \<times> 'a list" where
  "mq_try_receive q = (if q = [] then (None, q) else (Some (hd q), tl q))"

interpretation uq: fifo q_push q_pop "\<lambda>_. True" "\<lambda>q. q" "\<lambda>_. True"
  by unfold_locales (auto simp: q_push_def q_pop_def)

interpretation mq: fifo "\<lambda>x q. Some (mq_send x q)" mq_receive "\<lambda>_. True" "\<lambda>q. q" "\<lambda>_. True"
  by unfold_locales (auto simp: mq_send_def mq_receive_def)

section \<open>Properties of the queues\<close>

lemma queue_run_frame:
  assumes "\<And>x q q'. enq x q = Some q' \<Longrightarrow> f q' = f q" "\<And>x q q'. deq q = Some (x, q') \<Longrightarrow> f q' = f q"
  shows "queue_run enq deq cs q = (ins, outs, r) \<Longrightarrow> f r = f q"
proof (induction cs arbitrary: q ins outs)
  case (Cons c cs)
  then show ?case
    using assms by (cases c) (fastforce split: option.splits prod.splits)+
qed simp

text \<open>
  The circular buffer delivers in order and loses nothing. For a positive capacity and any history
  of pushes and pops of any number of threads, the values accepted are the values delivered, in the
  same order, followed by those still in the buffer, which are at most \<open>capacity\<close>; and the buffer is
  never stuck: in the final state a push or a pop goes through.
\<close>
theorem cb_fifo:
  assumes "0 < n" "queue_run cb_push cb_pop cs (cb_new d n) = (ins, outs, q)"
  shows "ins = outs @ cb_items q \<and> length (cb_items q) \<le> nat n \<and> (cb_push x q \<noteq> None \<or> cb_pop q \<noteq> None)"
proof -
  have "cb_ok (cb_new d n)" using assms(1) by (simp add: cb_ok_def cb_new_def)
  from cb.order [OF this assms(2)] have ok: "cb_ok q" and ord: "ins = outs @ cb_items q"
    by (simp_all add: cb_items_def cb_new_def)
  have "capacity q = capacity (cb_new d n)"
    by (rule queue_run_frame [OF _ _ assms(2)]) (auto simp: cb_push_def cb_pop_def split: if_splits)
  then have "length (cb_items q) \<le> nat n" using ok by (simp add: cb_items_def cb_ok_def cb_new_def nat_mono)
  moreover have "count q < capacity q \<or> cb_items q \<noteq> []" using ok by (auto simp: cb_items_def cb_ok_def)
  ultimately show ?thesis using ord cb.not_stuck [OF ok] by blast
qed

theorem cb_fifo_witness:
  "\<exists>q. queue_run cb_push cb_pop [Enq 1, Enq 2, Enq 3, Deq, Enq 4, Deq] (cb_new 0 2) = ([1, 2, 4 :: int], [1, 2], q) \<and>
     cb_items q = [4]"
proof -
  let ?r = "queue_run cb_push cb_pop [Enq 1, Enq 2, Enq 3, Deq, Enq 4, Deq] (cb_new 0 2) :: int list \<times> int list \<times> int circular"
  have r: "?r = ([1, 2, 4], [1, 2], snd (snd ?r))" by code_simp
  then show ?thesis using cb_fifo [OF _ r] by auto
qed

text \<open>
  The bounded queue: in any history of blocking and timed calls the values accepted are those
  delivered, in order, followed by those still queued, never more than the capacity; a timed call
  agrees with the blocking one when that goes through, and otherwise reports failure and changes
  nothing.
\<close>
theorem bq_fifo:
  assumes "queue_run bq_push bq_pop cs (bq_new n) = (ins, outs, q)"
  shows "ins = outs @ dq q \<and> length (dq q) \<le> n \<and>
    bq_try_push x q = (case bq_push x q of None \<Rightarrow> (False, q) | Some q' \<Rightarrow> (True, q')) \<and>
    bq_try_pop q = (case bq_pop q of None \<Rightarrow> (None, q) | Some (y, q') \<Rightarrow> (Some y, q'))"
proof -
  have "length (dq q) \<le> Tcapacity q \<and> ins = outs @ dq q"
    using bq.order [OF _ assms] by (simp add: bq_new_def)
  moreover have "Tcapacity q = Tcapacity (bq_new n :: 'a bqueue)"
    by (rule queue_run_frame [OF _ _ assms]) (auto simp: bq_push_def bq_pop_def split: if_splits list.splits)
  ultimately show ?thesis by (simp add: bq_new_def bq_try)
qed

theorem bq_fifo_witness:
  "\<exists>q. queue_run bq_push bq_pop [Enq 1, Enq 2, Deq, Enq 3] (bq_new 1) = ([1, 3 :: int], [1], q) \<and> dq q = [3]"
proof -
  let ?r = "queue_run bq_push bq_pop [Enq 1, Enq 2, Deq, Enq 3] (bq_new 1) :: int list \<times> int list \<times> int bqueue"
  have r: "?r = ([1, 3], [1], snd (snd ?r))" by code_simp
  then show ?thesis using bq_fifo [OF r] by auto
qed

section \<open>The connection pool\<close>

text \<open>
  A connection is its number. A client acquires, and releases a connection it holds; who holds what
  is recorded beside the pool.
\<close>

definition pool_new :: "int \<Rightarrow> int list" where
  "pool_new n = [1..n]"

definition pool_acquire :: "int list \<Rightarrow> (int \<times> int list) option" where
  "pool_acquire av = (case av of [] \<Rightarrow> None | c # cs \<Rightarrow> Some (c, cs))"

definition pool_release :: "int \<Rightarrow> int list \<Rightarrow> int list" where
  "pool_release c av = av @ [c]"

inductive pool_step :: "int list \<times> (nat \<times> int) list \<Rightarrow> int list \<times> (nat \<times> int) list \<Rightarrow> bool" where
  acquire: "pool_acquire av = Some (c, av') \<Longrightarrow> pool_step (av, held) (av', (t, c) # held)"
| release: "(t, c) \<in> set held \<Longrightarrow> pool_step (av, held) (pool_release c av, remove1 (t, c) held)"

definition pool_inv :: "int \<Rightarrow> int list \<times> (nat \<times> int) list \<Rightarrow> bool" where
  "pool_inv n s \<longleftrightarrow> mset (fst s) + mset (map snd (snd s)) = mset [1..n]"

lemma pool_inv_step:
  assumes "pool_inv n s" "pool_step s t"
  shows "pool_inv n t"
  using assms(2,1)
proof (cases rule: pool_step.cases)
  case (acquire av c av' held t)
  then show ?thesis using assms(1) by (auto simp: pool_inv_def pool_acquire_def split: list.splits)
next
  case (release t c held av)
  then have "mset (map snd held) = add_mset c (mset (map snd (remove1 (t, c) held)))"
    by (metis image_mset_add_mset insert_DiffM mset_map mset_remove1 set_mset_mset snd_conv)
  then show ?thesis using assms(1) release by (simp add: pool_inv_def pool_release_def)
qed

interpretation pool: inductive_invariant "\<lambda>s. s = (pool_new n, [])" pool_step "pool_inv n" for n
  by unfold_locales (auto simp: pool_inv_step, simp add: pool_inv_def pool_new_def)

text \<open>
  A connection has one user. Whatever the clients do, in every reachable state of a pool of \<open>n\<close>
  connections the available ones and the held ones are together exactly the connections 1 to \<open>n\<close>:
  no connection is held twice, or held and available, and none is lost.
\<close>
theorem pool_exclusive:
  assumes "reach (\<lambda>s. s = (pool_new n, [])) pool_step (av, held)"
  shows "distinct (av @ map snd held) \<and> set (av @ map snd held) = {1..n} \<and> length av + length held = nat n"
proof -
  have m: "mset (av @ map snd held) = mset [1..n]" using pool.always [OF assms] by (simp add: pool_inv_def)
  then have "distinct (av @ map snd held)" by (metis distinct_upto mset_eq_imp_distinct_iff)
  moreover have "set (av @ map snd held) = {1..n}" using mset_eq_setD [OF m] by simp
  moreover have "length (av @ map snd held) = nat n" using mset_eq_length [OF m] by simp
  ultimately show ?thesis by simp
qed

theorem pool_exclusive_witness:
  "distinct ([3, 1] @ map snd [(8 :: nat, 2 :: int)]) \<and> set ([3, 1] @ map snd [(8 :: nat, 2 :: int)]) = {1..3}"
proof -
  let ?R = "reach (\<lambda>s. s = (pool_new 3, [])) pool_step"
  have new: "pool_new 3 = [1, 2, 3]" by (simp add: pool_new_def upto.simps)
  have "?R (pool_new 3, [])" by (rule reach_init) simp
  then have "?R ([2, 3], [(7, 1)])" by (rule reach_step) (simp add: pool_step.acquire new pool_acquire_def)
  then have "?R ([3], [(8, 2), (7, 1)])" by (rule reach_step) (simp add: pool_step.acquire pool_acquire_def)
  then have "?R (pool_release 1 [3], remove1 (7, 1) [(8, 2), (7, 1)])" by (rule reach_step) (rule pool_step.release, simp)
  then have "?R ([3, 1], [(8, 2)])" by (simp add: pool_release_def)
  then show ?thesis using pool_exclusive [of 3 "[3, 1]" "[(8, 2)]"] by blast
qed

end
