(* ===== verification/Lock_Free.thy ===== *)
theory Lock_Free
  imports Prelude
begin

text \<open>
  The lock-free structures: the single-producer single-consumer ring buffers
  \<^verbatim>\<open>concurrency/Lockfree_RingBuffer.cpp\<close> and \<^verbatim>\<open>CAS/LockFree_SPSC_RingBuffer.cpp\<close>, and the stack
  \<^verbatim>\<open>CAS/LockFree_Stack.cpp\<close>. Threads interleave at every access to shared memory: each atomic load,
  store and compare-and-swap, and each access to a buffer slot, is one step. Accesses are
  sequentially consistent here; that the release and acquire orders of the code suffice on weaker
  memory is not modelled.
\<close>

section \<open>The ring buffer with one producer and one consumer\<close>

record 'a ring =
  slots :: "'a list"
  rpos :: nat
  wpos :: nat
  rcap :: nat

definition ring_new :: "'a \<Rightarrow> nat \<Rightarrow> 'a ring" where
  "ring_new d n = \<lparr>slots = replicate n d, rpos = 0, wpos = 0, rcap = n\<rparr>"

text \<open>The size of \<^verbatim>\<open>SPSC_Queue\<close>.\<close>

definition BUFFER_SIZE :: nat where
  "BUFFER_SIZE = 8"

text \<open>
  Where the producer is in \<^verbatim>\<open>push\<close>: before it, after loading the write position, after the test
  against the read position, after writing the slot. Likewise the consumer in \<^verbatim>\<open>pop\<close>.
\<close>

datatype 'a producer = PIdle | PLoaded 'a nat | PChecked 'a nat | PWritten 'a nat
datatype 'a consumer = CIdle | CLoaded nat | CChecked nat | CRead nat 'a

definition push_load :: "'a \<Rightarrow> 'a ring \<Rightarrow> 'a producer" where
  "push_load v q = PLoaded v (wpos q)"

definition push_check :: "'a \<Rightarrow> nat \<Rightarrow> 'a ring \<Rightarrow> 'a producer" where
  "push_check v w q = (if (w + 1) mod rcap q = rpos q then PIdle else PChecked v w)"

definition push_write :: "'a \<Rightarrow> nat \<Rightarrow> 'a ring \<Rightarrow> 'a ring" where
  "push_write v w q = q\<lparr>slots := (slots q)[w := v]\<rparr>"

definition push_publish :: "nat \<Rightarrow> 'a ring \<Rightarrow> 'a ring" where
  "push_publish w q = q\<lparr>wpos := (w + 1) mod rcap q\<rparr>"

definition pop_load :: "'a ring \<Rightarrow> 'a consumer" where
  "pop_load q = CLoaded (rpos q)"

definition pop_check :: "nat \<Rightarrow> 'a ring \<Rightarrow> 'a consumer" where
  "pop_check r q = (if r = wpos q then CIdle else CChecked r)"

definition pop_read :: "nat \<Rightarrow> 'a ring \<Rightarrow> 'a consumer" where
  "pop_read r q = CRead r (slots q ! r)"

definition pop_publish :: "nat \<Rightarrow> 'a ring \<Rightarrow> 'a ring" where
  "pop_publish r q = q\<lparr>rpos := (r + 1) mod rcap q\<rparr>"

text \<open>The system, with the values pushed and popped so far.\<close>

record 'a spsc =
  ring :: "'a ring"
  prod :: "'a producer"
  cons :: "'a consumer"
  pushed :: "'a list"
  popped :: "'a list"

definition spsc_new :: "'a \<Rightarrow> nat \<Rightarrow> 'a spsc" where
  "spsc_new d n = \<lparr>ring = ring_new d n, prod = PIdle, cons = CIdle, pushed = [], popped = []\<rparr>"

inductive spsc_step :: "'a spsc \<Rightarrow> 'a spsc \<Rightarrow> bool" where
  p_load: "prod s = PIdle \<Longrightarrow> spsc_step s (s\<lparr>prod := push_load v (ring s)\<rparr>)"
| p_check: "prod s = PLoaded v w \<Longrightarrow> spsc_step s (s\<lparr>prod := push_check v w (ring s)\<rparr>)"
| p_write: "prod s = PChecked v w \<Longrightarrow>
    spsc_step s (s\<lparr>ring := push_write v w (ring s), prod := PWritten v w\<rparr>)"
| p_publish: "prod s = PWritten v w \<Longrightarrow>
    spsc_step s (s\<lparr>ring := push_publish w (ring s), prod := PIdle, pushed := pushed s @ [v]\<rparr>)"
| c_load: "cons s = CIdle \<Longrightarrow> spsc_step s (s\<lparr>cons := pop_load (ring s)\<rparr>)"
| c_check: "cons s = CLoaded r \<Longrightarrow> spsc_step s (s\<lparr>cons := pop_check r (ring s)\<rparr>)"
| c_read: "cons s = CChecked r \<Longrightarrow> spsc_step s (s\<lparr>cons := pop_read r (ring s)\<rparr>)"
| c_publish: "cons s = CRead r x \<Longrightarrow>
    spsc_step s (s\<lparr>ring := pop_publish r (ring s), cons := CIdle, popped := popped s @ [x]\<rparr>)"

text \<open>
  With \<open>w\<close> values published and \<open>r\<close> consumed, the positions are \<open>w\<close> and \<open>r\<close> modulo the capacity, and
  slot \<open>i mod n\<close> holds the \<open>i\<close>-th value for every \<open>i\<close> from \<open>r\<close> to below \<open>w\<close>.
\<close>

definition prod_inv :: "'a spsc \<Rightarrow> bool" where
  "prod_inv s \<longleftrightarrow>
     (case prod s of
        PIdle \<Rightarrow> True
      | PLoaded v w \<Rightarrow> w = wpos (ring s)
      | PChecked v w \<Rightarrow> w = wpos (ring s) \<and> length (pushed s) + 1 < length (popped s) + rcap (ring s)
      | PWritten v w \<Rightarrow> w = wpos (ring s) \<and> slots (ring s) ! w = v \<and>
          length (pushed s) + 1 < length (popped s) + rcap (ring s))"

definition cons_inv :: "'a spsc \<Rightarrow> bool" where
  "cons_inv s \<longleftrightarrow>
     (case cons s of
        CIdle \<Rightarrow> True
      | CLoaded r \<Rightarrow> r = rpos (ring s)
      | CChecked r \<Rightarrow> r = rpos (ring s) \<and> length (popped s) < length (pushed s)
      | CRead r x \<Rightarrow> r = rpos (ring s) \<and> length (popped s) < length (pushed s) \<and> x = pushed s ! length (popped s))"

definition ring_inv :: "nat \<Rightarrow> 'a spsc \<Rightarrow> bool" where
  "ring_inv n s \<longleftrightarrow> 0 < n \<and> rcap (ring s) = n \<and> length (slots (ring s)) = n \<and>
     wpos (ring s) = length (pushed s) mod n \<and> rpos (ring s) = length (popped s) mod n \<and>
     length (popped s) \<le> length (pushed s) \<and> length (pushed s) < length (popped s) + n \<and>
     take (length (popped s)) (pushed s) = popped s \<and>
     (\<forall>i. length (popped s) \<le> i \<and> i < length (pushed s) \<longrightarrow> slots (ring s) ! (i mod n) = pushed s ! i)"

definition spsc_inv :: "nat \<Rightarrow> 'a spsc \<Rightarrow> bool" where
  "spsc_inv n s \<longleftrightarrow> ring_inv n s \<and> prod_inv s \<and> cons_inv s"

lemma mod_window:
  fixes a b n :: nat
  assumes "a \<le> b" "b < a + n"
  shows "a mod n = b mod n \<longleftrightarrow> a = b"
proof
  assume "a mod n = b mod n"
  then have "n dvd b - a" using assms(1) by (metis mod_eq_dvd_iff_nat)
  then show "a = b" using assms by (auto dest: dvd_imp_le)
qed simp

lemma mod_full:
  fixes r w n :: nat
  assumes "r \<le> w" "w < r + n" "(w + 1) mod n \<noteq> r mod n"
  shows "w + 1 < r + n"
proof (rule ccontr)
  assume "\<not> w + 1 < r + n"
  then have "w + 1 = r + n" using assms by simp
  then show False using assms(3) by (metis mod_add_self2)
qed

lemmas ring_defs = push_load_def push_check_def push_write_def push_publish_def
  pop_load_def pop_check_def pop_read_def pop_publish_def

lemmas spsc_inv_defs = spsc_inv_def ring_inv_def prod_inv_def cons_inv_def

text \<open>Each side's control state is invisible to the other.\<close>

lemma spsc_frames [simp]:
  "cons_inv (s\<lparr>prod := p\<rparr>) = cons_inv s" "ring_inv n (s\<lparr>prod := p\<rparr>) = ring_inv n s"
  "prod_inv (s\<lparr>cons := c\<rparr>) = prod_inv s" "ring_inv n (s\<lparr>cons := c\<rparr>) = ring_inv n s"
  by (simp_all add: cons_inv_def prod_inv_def ring_inv_def split: consumer.splits producer.splits)

lemma spsc_p_write:
  assumes "spsc_inv n s" "prod s = PChecked v w"
  shows "spsc_inv n (s\<lparr>ring := push_write v w (ring s), prod := PWritten v w\<rparr>)"
proof -
  let ?r = "length (popped s)" and ?w = "length (pushed s)"
  have R: "ring_inv n s" and w: "w = ?w mod n" and lt: "?w + 1 < ?r + n"
    using assms by (auto simp: spsc_inv_def prod_inv_def ring_inv_def)
  have "w \<noteq> i mod n" if "?r \<le> i" "i < ?w" for i
    using mod_window [of i ?w n] that lt w by auto
  then have "(slots (ring s))[w := v] ! (i mod n) = pushed s ! i" if "?r \<le> i" "i < ?w" for i
    using that R by (simp add: ring_inv_def)
  then have "ring_inv n (s\<lparr>ring := push_write v w (ring s), prod := PWritten v w\<rparr>)"
    using R by (simp add: ring_inv_def push_write_def)
  moreover have "w < length (slots (ring s))" using R w by (simp add: ring_inv_def)
  ultimately show ?thesis
    using assms by (simp add: spsc_inv_def prod_inv_def cons_inv_def push_write_def split: consumer.splits)
qed

lemma spsc_p_publish:
  assumes "spsc_inv n s" "prod s = PWritten v w"
  shows "spsc_inv n (s\<lparr>ring := push_publish w (ring s), prod := PIdle, pushed := pushed s @ [v]\<rparr>)"
proof -
  let ?r = "length (popped s)" and ?w = "length (pushed s)"
  have R: "ring_inv n s" and w: "w = ?w mod n" and lt: "?w + 1 < ?r + n" and v: "slots (ring s) ! w = v"
    using assms by (auto simp: spsc_inv_def prod_inv_def ring_inv_def)
  have "slots (ring s) ! (i mod n) = (pushed s @ [v]) ! i" if "?r \<le> i" "i < Suc ?w" for i
    using R v w that by (cases "i = ?w") (auto simp: ring_inv_def nth_append)
  moreover have "(w + 1) mod n = Suc ?w mod n" using w by (simp add: mod_Suc_eq)
  ultimately have "ring_inv n (s\<lparr>ring := push_publish w (ring s), prod := PIdle, pushed := pushed s @ [v]\<rparr>)"
    using R lt by (simp add: ring_inv_def push_publish_def)
  then show ?thesis
    using assms by (auto simp: spsc_inv_def prod_inv_def cons_inv_def push_publish_def nth_append split: consumer.splits)
qed

lemma spsc_c_publish:
  assumes "spsc_inv n s" "cons s = CRead r x"
  shows "spsc_inv n (s\<lparr>ring := pop_publish r (ring s), cons := CIdle, popped := popped s @ [x]\<rparr>)"
proof -
  let ?r = "length (popped s)" and ?w = "length (pushed s)"
  have R: "ring_inv n s" and r: "r = ?r mod n" and lt: "?r < ?w" and x: "x = pushed s ! ?r"
    using assms by (auto simp: spsc_inv_def cons_inv_def ring_inv_def)
  have "take (Suc ?r) (pushed s) = popped s @ [x]"
    using R lt x by (metis ring_inv_def take_Suc_conv_app_nth)
  moreover have "(r + 1) mod n = Suc ?r mod n" using r by (simp add: mod_Suc_eq)
  ultimately have "ring_inv n (s\<lparr>ring := pop_publish r (ring s), cons := CIdle, popped := popped s @ [x]\<rparr>)"
    using R lt by (simp add: ring_inv_def pop_publish_def)
  then show ?thesis
    using assms by (auto simp: spsc_inv_def prod_inv_def cons_inv_def pop_publish_def split: producer.splits)
qed

lemma spsc_inv_step:
  assumes "spsc_inv n s" "spsc_step s t"
  shows "spsc_inv n t"
  using assms(2)
proof (cases rule: spsc_step.cases)
  case (p_load v)
  then show ?thesis using assms(1) by (simp add: spsc_inv_def prod_inv_def push_load_def)
next
  case (p_check v w)
  then have "ring_inv n s" "cons_inv s" "w = wpos (ring s)" using assms(1) by (simp_all add: spsc_inv_def prod_inv_def)
  then show ?thesis
    using p_check mod_full [of "length (popped s)" "length (pushed s)" n]
    by (auto simp: spsc_inv_def prod_inv_def push_check_def ring_inv_def mod_Suc_eq)
next
  case (p_write v w)
  then show ?thesis using spsc_p_write [OF assms(1)] by simp
next
  case (p_publish v w)
  then show ?thesis using spsc_p_publish [OF assms(1)] by simp
next
  case c_load
  then show ?thesis using assms(1) by (simp add: spsc_inv_def cons_inv_def pop_load_def)
next
  case (c_check r)
  then have R: "ring_inv n s" "prod_inv s" and r: "r = rpos (ring s)"
    using assms(1) by (simp_all add: spsc_inv_def cons_inv_def)
  have "length (popped s) < length (pushed s)" if "r \<noteq> wpos (ring s)"
  proof (rule le_neq_implies_less)
    show "length (popped s) \<le> length (pushed s)" using R(1) by (simp add: ring_inv_def)
    have "wpos (ring s) = length (pushed s) mod n" "rpos (ring s) = length (popped s) mod n"
      using R(1) unfolding ring_inv_def by blast+
    then show "length (popped s) \<noteq> length (pushed s)" using that r by metis
  qed
  then show ?thesis using c_check R r by (simp add: spsc_inv_def cons_inv_def pop_check_def)
next
  case (c_read r)
  then have "ring_inv n s" "prod_inv s" "r = rpos (ring s)" "length (popped s) < length (pushed s)"
    using assms(1) by (simp_all add: spsc_inv_def cons_inv_def)
  then show ?thesis using c_read by (simp add: spsc_inv_def cons_inv_def pop_read_def) (simp add: ring_inv_def)
next
  case (c_publish r x)
  then show ?thesis using spsc_c_publish [OF assms(1)] by simp
qed

interpretation spsc: inductive_invariant "\<lambda>s. s = spsc_new d n \<and> 0 < n" spsc_step "spsc_inv n" for d :: 'a and n
  by unfold_locales
    (auto simp: spsc_inv_step, simp add: spsc_inv_defs spsc_new_def ring_new_def)

text \<open>
  C10. The ring buffer is a queue under every interleaving of its producer and its consumer. In every
  reachable state the values popped are a prefix of the values pushed; the values in between fit
  into one slot less than the capacity; and the producer, about to write a slot, and the consumer,
  about to read one, are never at the same slot. Both classes are instances, \<^verbatim>\<open>SPSC_Queue\<close> with
  capacity \<^const>\<open>BUFFER_SIZE\<close>.
\<close>
theorem spsc_fifo:
  assumes "reach (\<lambda>s. s = spsc_new d n \<and> 0 < n) spsc_step s"
  shows "take (length (popped s)) (pushed s) = popped s \<and> length (pushed s) - length (popped s) \<le> n - 1 \<and>
    (prod s = PChecked v w \<and> cons s = CChecked r \<longrightarrow> w \<noteq> r)"
proof -
  have inv: "spsc_inv n s" using spsc.always [OF assms] .
  have "w \<noteq> r" if "prod s = PChecked v w" "cons s = CChecked r"
    using that inv mod_window [of "length (popped s)" "length (pushed s)" n] by (auto simp: spsc_inv_defs)
  then show ?thesis using inv by (auto simp: spsc_inv_def ring_inv_def)
qed

theorem spsc_fifo_witness:
  "\<exists>s :: int spsc. reach (\<lambda>s. s = spsc_new 0 BUFFER_SIZE \<and> 0 < BUFFER_SIZE) spsc_step s \<and> pushed s = [5] \<and>
     take (length (popped s)) (pushed s) = popped s \<and> length (pushed s) - length (popped s) \<le> 7"
proof -
  let ?R = "reach (\<lambda>s. s = spsc_new (0 :: int) BUFFER_SIZE \<and> 0 < BUFFER_SIZE) spsc_step"
  let ?s0 = "spsc_new (0 :: int) BUFFER_SIZE"
  let ?s1 = "?s0\<lparr>prod := push_load 5 (ring ?s0)\<rparr>"
  let ?s2 = "?s1\<lparr>prod := push_check 5 0 (ring ?s1)\<rparr>"
  let ?s3 = "?s2\<lparr>ring := push_write 5 0 (ring ?s2), prod := PWritten 5 0\<rparr>"
  let ?s4 = "?s3\<lparr>ring := push_publish 0 (ring ?s3), prod := PIdle, pushed := pushed ?s3 @ [5]\<rparr>"
  have "?R ?s0" by (rule reach_init) (simp add: BUFFER_SIZE_def)
  then have "?R ?s1" by (rule reach_step) (rule spsc_step.p_load, simp add: spsc_new_def)
  then have "?R ?s2" by (rule reach_step) (rule spsc_step.p_check, simp add: spsc_new_def ring_new_def push_load_def)
  then have "?R ?s3"
    by (rule reach_step)
      (rule spsc_step.p_write, simp add: spsc_new_def ring_new_def push_check_def BUFFER_SIZE_def)
  then have r: "?R ?s4" by (rule reach_step) (rule spsc_step.p_publish, simp)
  have "pushed ?s4 = [5]" by (simp add: spsc_new_def)
  then show ?thesis using spsc_fifo [OF r] r by (auto simp: BUFFER_SIZE_def)
qed

section \<open>The stack\<close>

text \<open>
  Nodes live in a heap and are never freed, as in the code. A thread in \<^verbatim>\<open>push\<close> owns its new node
  until its compare-and-swap succeeds; a thread in \<^verbatim>\<open>pop\<close> holds the head it loaded and then the
  successor it read. A weak compare-and-swap may fail for no reason. \<open>hist\<close> records the successful
  operations in the order of their compare-and-swaps.
\<close>

datatype stack_pc = SIdle | SPush nat | SPop nat | SPopNext nat "nat option"

datatype 'a stack_event = Pushed 'a | Popped 'a

record 'a lf_stack =
  heap :: "nat \<rightharpoonup> 'a \<times> nat option"
  top :: "nat option"
  alloc :: nat
  pcs :: "nat \<Rightarrow> stack_pc"
  hist :: "'a stack_event list"

definition stk_new :: "'a lf_stack" where
  "stk_new = \<lparr>heap = Map.empty, top = None, alloc = 0, pcs = (\<lambda>_. SIdle), hist = []\<rparr>"

definition stk_push_start :: "nat \<Rightarrow> 'a \<Rightarrow> 'a lf_stack \<Rightarrow> 'a lf_stack" where
  "stk_push_start t v s =
     s\<lparr>heap := (heap s)(alloc s \<mapsto> (v, top s)), alloc := alloc s + 1, pcs := (pcs s)(t := SPush (alloc s))\<rparr>"

definition stk_push_fail :: "nat \<Rightarrow> nat \<Rightarrow> 'a \<Rightarrow> 'a lf_stack \<Rightarrow> 'a lf_stack" where
  "stk_push_fail t a v s = s\<lparr>heap := (heap s)(a \<mapsto> (v, top s))\<rparr>"

definition stk_push_done :: "nat \<Rightarrow> nat \<Rightarrow> 'a \<Rightarrow> 'a lf_stack \<Rightarrow> 'a lf_stack" where
  "stk_push_done t a v s = s\<lparr>top := Some a, pcs := (pcs s)(t := SIdle), hist := hist s @ [Pushed v]\<rparr>"

definition stk_pop_load :: "nat \<Rightarrow> 'a lf_stack \<Rightarrow> 'a lf_stack" where
  "stk_pop_load t s = s\<lparr>pcs := (pcs s)(t := (case top s of None \<Rightarrow> SIdle | Some a \<Rightarrow> SPop a))\<rparr>"

definition stk_pop_next :: "nat \<Rightarrow> nat \<Rightarrow> nat option \<Rightarrow> 'a lf_stack \<Rightarrow> 'a lf_stack" where
  "stk_pop_next t a n s = s\<lparr>pcs := (pcs s)(t := SPopNext a n)\<rparr>"

definition stk_pop_done :: "nat \<Rightarrow> nat option \<Rightarrow> 'a \<Rightarrow> 'a lf_stack \<Rightarrow> 'a lf_stack" where
  "stk_pop_done t n v s = s\<lparr>top := n, pcs := (pcs s)(t := SIdle), hist := hist s @ [Popped v]\<rparr>"

inductive stk_step :: "'a lf_stack \<Rightarrow> 'a lf_stack \<Rightarrow> bool" where
  push_start: "pcs s t = SIdle \<Longrightarrow> stk_step s (stk_push_start t v s)"
| push_fail: "pcs s t = SPush a \<Longrightarrow> heap s a = Some (v, n) \<Longrightarrow> stk_step s (stk_push_fail t a v s)"
| push_done: "pcs s t = SPush a \<Longrightarrow> heap s a = Some (v, n) \<Longrightarrow> n = top s \<Longrightarrow> stk_step s (stk_push_done t a v s)"
| pop_start: "pcs s t = SIdle \<Longrightarrow> stk_step s (stk_pop_load t s)"
| pop_next: "pcs s t = SPop a \<Longrightarrow> heap s a = Some (v, n) \<Longrightarrow> stk_step s (stk_pop_next t a n s)"
| pop_fail: "pcs s t = SPopNext a n \<Longrightarrow> stk_step s (stk_pop_load t s)"
| pop_done: "pcs s t = SPopNext a n \<Longrightarrow> top s = Some a \<Longrightarrow> heap s a = Some (v, m) \<Longrightarrow> stk_step s (stk_pop_done t n v s)"

text \<open>The list of nodes hanging off a pointer, and the sequential stack the history describes.\<close>

fun chain :: "(nat \<rightharpoonup> 'a \<times> nat option) \<Rightarrow> nat option \<Rightarrow> (nat \<times> 'a) list \<Rightarrow> bool" where
  "chain h p [] \<longleftrightarrow> p = None"
| "chain h p ((a, v) # as) \<longleftrightarrow> p = Some a \<and> (\<exists>n. h a = Some (v, n) \<and> chain h n as)"

fun replay :: "'a stack_event list \<Rightarrow> 'a list \<Rightarrow> 'a list option" where
  "replay [] xs = Some xs"
| "replay (Pushed v # es) xs = replay es (v # xs)"
| "replay (Popped v # es) xs = (case xs of [] \<Rightarrow> None | x # xs' \<Rightarrow> if x = v then replay es xs' else None)"

lemma replay_append: "replay (es @ fs) xs = (case replay es xs of None \<Rightarrow> None | Some ys \<Rightarrow> replay fs ys)"
  by (induction es xs rule: replay.induct) (auto split: list.splits)

lemma chain_upd: "a \<notin> fst ` set as \<Longrightarrow> chain (h(a := x)) p as = chain h p as"
  by (induction h p as rule: chain.induct) auto

lemma chain_nodes: "chain h p as \<Longrightarrow> (b, w) \<in> set as \<Longrightarrow> \<exists>n. h b = Some (w, n)"
  by (induction h p as rule: chain.induct) auto

text \<open>
  A node owned by a pushing thread is in no other hands: it is not in the chain, no other thread
  pushes it, and no popping thread has seen it. Every other node never changes again, so the
  successor a popping thread has read stays right: there is no ABA problem.
\<close>

fun seen :: "stack_pc \<Rightarrow> nat set" where
  "seen SIdle = {}"
| "seen (SPush a) = {}"
| "seen (SPop a) = {a}"
| "seen (SPopNext a n) = {a}"

definition owned :: "'a lf_stack \<Rightarrow> nat set" where
  "owned s = {a. \<exists>t. pcs s t = SPush a}"

definition stk_inv :: "'a lf_stack \<Rightarrow> bool" where
  "stk_inv s \<longleftrightarrow>
     (\<exists>as. chain (heap s) (top s) as \<and> replay (hist s) [] = Some (map snd as) \<and> fst ` set as \<inter> owned s = {}) \<and>
     (\<forall>a. heap s a \<noteq> None \<longleftrightarrow> a < alloc s) \<and>
     (\<forall>a \<in> owned s. a < alloc s) \<and>
     (\<forall>t u a. pcs s t = SPush a \<longrightarrow> pcs s u = SPush a \<longrightarrow> t = u) \<and>
     (\<forall>t. seen (pcs s t) \<subseteq> {a. a < alloc s} - owned s) \<and>
     (\<forall>t a n. pcs s t = SPopNext a n \<longrightarrow> (\<exists>v. heap s a = Some (v, n)))"

lemma stk_invD:
  assumes "stk_inv s"
  shows "\<exists>as. chain (heap s) (top s) as \<and> replay (hist s) [] = Some (map snd as) \<and> fst ` set as \<inter> owned s = {}"
    and "heap s a \<noteq> None \<longleftrightarrow> a < alloc s"
    and "a \<in> owned s \<Longrightarrow> a < alloc s"
    and "pcs s t = SPush a \<Longrightarrow> pcs s u = SPush a \<Longrightarrow> t = u"
    and "seen (pcs s t) \<subseteq> {a. a < alloc s} - owned s"
    and "pcs s t = SPopNext a n \<Longrightarrow> \<exists>v. heap s a = Some (v, n)"
  using assms unfolding stk_inv_def by blast+

lemma stk_invI:
  assumes "chain (heap s) (top s) as" "replay (hist s) [] = Some (map snd as)" "fst ` set as \<inter> owned s = {}"
    and "\<And>a. heap s a \<noteq> None \<longleftrightarrow> a < alloc s"
    and "\<And>a. a \<in> owned s \<Longrightarrow> a < alloc s"
    and "\<And>t u a. pcs s t = SPush a \<Longrightarrow> pcs s u = SPush a \<Longrightarrow> t = u"
    and "\<And>t. seen (pcs s t) \<subseteq> {a. a < alloc s} - owned s"
    and "\<And>t a n. pcs s t = SPopNext a n \<Longrightarrow> \<exists>v. heap s a = Some (v, n)"
  shows "stk_inv s"
  using assms unfolding stk_inv_def by blast

lemma ownedI: "pcs s t = SPush a \<Longrightarrow> a \<in> owned s"
  unfolding owned_def by blast

lemma owned_same:
  assumes "\<And>u. u \<noteq> t \<Longrightarrow> pcs s' u = pcs s u" "\<And>a. pcs s t \<noteq> SPush a" "\<And>a. pcs s' t \<noteq> SPush a"
  shows "owned s' = owned s"
proof -
  have "pcs s' u = SPush a \<longleftrightarrow> pcs s u = SPush a" for u a using assms by (cases "u = t") auto
  then show ?thesis by (simp add: owned_def)
qed

lemma stk_push_start_inv:
  assumes "stk_inv s" "pcs s t = SIdle"
  shows "stk_inv (stk_push_start t v s)"
proof -
  let ?a = "alloc s" and ?s = "stk_push_start t v s"
  obtain as where as: "chain (heap s) (top s) as" "replay (hist s) [] = Some (map snd as)" "fst ` set as \<inter> owned s = {}"
    using stk_invD(1) [OF assms(1)] by blast
  have "pcs ?s u = SPush b \<longleftrightarrow> u = t \<and> b = ?a \<or> pcs s u = SPush b" for u b
    using assms(2) by (auto simp: stk_push_start_def)
  then have own: "owned ?s = insert ?a (owned s)" by (auto simp: owned_def)
  have new: "?a \<notin> fst ` set as"
  proof
    assume "?a \<in> fst ` set as"
    then obtain w n where "heap s ?a = Some (w, n)" using chain_nodes [OF as(1)] by force
    then show False using stk_invD(2) [OF assms(1), of ?a] by simp
  qed
  show ?thesis
  proof (rule stk_invI [of _ as], goal_cases)
    case 1
    then show ?case using as(1) new by (simp add: stk_push_start_def chain_upd)
  next
    case 2
    then show ?case using as(2) by (simp add: stk_push_start_def)
  next
    case 3
    then show ?case using as(3) new by (simp add: own)
  next
    case (4 a)
    then show ?case using stk_invD(2) [OF assms(1), of a] by (auto simp: stk_push_start_def)
  next
    case (5 a)
    then show ?case using stk_invD(3) [OF assms(1), of a] by (auto simp: own) (auto simp: stk_push_start_def)
  next
    case (6 u w a)
    then show ?case
      using stk_invD(4) [OF assms(1), of u a w] stk_invD(3) [OF assms(1) ownedI, of _ ?a]
      by (auto simp: stk_push_start_def split: if_splits)
  next
    case (7 u)
    then show ?case using stk_invD(5) [OF assms(1), of u] unfolding own by (auto simp: stk_push_start_def)
  next
    case (8 u a n)
    then have u: "pcs s u = SPopNext a n" by (auto simp: stk_push_start_def split: if_splits)
    then have "a < ?a" using stk_invD(5) [OF assms(1), of u] by auto
    then show ?case using stk_invD(6) [OF assms(1) u] by (auto simp: stk_push_start_def)
  qed
qed

lemma stk_push_fail_inv:
  assumes "stk_inv s" "pcs s t = SPush a" "heap s a = Some (v, n)"
  shows "stk_inv (stk_push_fail t a v s)"
proof -
  let ?s = "stk_push_fail t a v s"
  obtain as where as: "chain (heap s) (top s) as" "replay (hist s) [] = Some (map snd as)" "fst ` set as \<inter> owned s = {}"
    using stk_invD(1) [OF assms(1)] by blast
  have a: "a \<in> owned s" using assms(2) by (rule ownedI)
  have f: "pcs ?s = pcs s" "owned ?s = owned s" "alloc ?s = alloc s" "top ?s = top s" "hist ?s = hist s"
    by (simp_all add: stk_push_fail_def owned_def)
  have "\<exists>v. heap ?s b = Some (v, m)" if "pcs s u = SPopNext b m" for u b m
  proof -
    have "b \<noteq> a" using stk_invD(5) [OF assms(1), of u] that a by auto
    then show ?thesis using stk_invD(6) [OF assms(1) that] by (simp add: stk_push_fail_def)
  qed
  moreover have "a \<notin> fst ` set as" using as(3) a by blast
  then have "chain (heap ?s) (top s) as" using as(1) by (simp add: stk_push_fail_def chain_upd)
  moreover have "heap ?s b \<noteq> None \<longleftrightarrow> b < alloc s" for b
    using stk_invD(2) [OF assms(1), of b] assms(3) by (auto simp: stk_push_fail_def)
  ultimately show ?thesis
    using stk_invD(3-5) [OF assms(1)] as by (intro stk_invI [of _ as]) (simp_all only: f)
qed

lemma stk_push_done_inv:
  assumes "stk_inv s" "pcs s t = SPush a" "heap s a = Some (v, n)" "n = top s"
  shows "stk_inv (stk_push_done t a v s)"
proof -
  let ?s = "stk_push_done t a v s"
  obtain as where as: "chain (heap s) (top s) as" "replay (hist s) [] = Some (map snd as)" "fst ` set as \<inter> owned s = {}"
    using stk_invD(1) [OF assms(1)] by blast
  have "pcs ?s u = SPush b \<longleftrightarrow> pcs s u = SPush b \<and> b \<noteq> a" for u b
  proof (cases "u = t")
    case True
    then show ?thesis using assms(2) by (simp add: stk_push_done_def)
  next
    case False
    then have "pcs s u \<noteq> SPush a" using stk_invD(4) [OF assms(1,2), of u] by blast
    then show ?thesis using False by (auto simp: stk_push_done_def)
  qed
  then have own: "owned ?s = owned s - {a}" by (auto simp: owned_def)
  have f: "heap ?s = heap s" "alloc ?s = alloc s" by (simp_all add: stk_push_done_def)
  have pc: "pcs ?s u = (if u = t then SIdle else pcs s u)" for u by (simp add: stk_push_done_def)
  show ?thesis
  proof (rule stk_invI [of _ "(a, v) # as"], goal_cases)
    case 1
    then show ?case using as(1) assms(3,4) by (simp add: stk_push_done_def)
  next
    case 2
    then show ?case using as(2) by (simp add: stk_push_done_def replay_append)
  next
    case 3
    then show ?case using as(3) by (auto simp: own)
  next
    case (4 b)
    then show ?case using stk_invD(2) [OF assms(1), of b] by (simp add: f)
  next
    case (5 b)
    then show ?case using stk_invD(3) [OF assms(1), of b] by (simp add: f own)
  next
    case (6 u w b)
    then show ?case using stk_invD(4) [OF assms(1), of u b w] by (simp add: pc split: if_splits)
  next
    case (7 u)
    then show ?case using stk_invD(5) [OF assms(1), of u] by (auto simp: pc own f)
  next
    case (8 u b m)
    then show ?case using stk_invD(6) [OF assms(1), of u b m] by (simp add: pc f split: if_splits)
  qed
qed

text \<open>A step that only moves a popping thread.\<close>

lemma stk_pop_pc_inv:
  assumes "stk_inv s" "\<And>a. pcs s t \<noteq> SPush a" "\<And>a. pc \<noteq> SPush a"
    and "seen pc \<subseteq> {a. a < alloc s} - owned s" "\<And>a n. pc = SPopNext a n \<Longrightarrow> \<exists>v. heap s a = Some (v, n)"
  shows "stk_inv (s\<lparr>pcs := (pcs s)(t := pc)\<rparr>)"
proof -
  let ?s = "s\<lparr>pcs := (pcs s)(t := pc)\<rparr>"
  obtain as where as: "chain (heap s) (top s) as" "replay (hist s) [] = Some (map snd as)" "fst ` set as \<inter> owned s = {}"
    using stk_invD(1) [OF assms(1)] by blast
  have own: "owned ?s = owned s" by (rule owned_same [of t]) (use assms(2,3) in simp_all)
  show ?thesis
  proof (rule stk_invI [of _ as], goal_cases)
    case (4 b)
    then show ?case using stk_invD(2) [OF assms(1), of b] by simp
  next
    case (5 b)
    then show ?case using stk_invD(3) [OF assms(1), of b] by (simp add: own)
  next
    case (6 u w b)
    then show ?case using stk_invD(4) [OF assms(1), of u b w] assms(3) [of b] by (simp split: if_splits)
  next
    case (7 u)
    then show ?case using stk_invD(5) [OF assms(1), of u] assms(4) by (simp add: own)
  next
    case (8 u b m)
    then show ?case using stk_invD(6) [OF assms(1), of u b m] assms(5) [of b m] by (simp split: if_splits)
  qed (use as own in simp_all)
qed

lemma stk_pop_load_inv:
  assumes "stk_inv s" "\<And>a. pcs s t \<noteq> SPush a"
  shows "stk_inv (stk_pop_load t s)"
  unfolding stk_pop_load_def
proof (rule stk_pop_pc_inv [OF assms])
  obtain as where as: "chain (heap s) (top s) as" "fst ` set as \<inter> owned s = {}"
    using stk_invD(1) [OF assms(1)] by blast
  show "seen (case top s of None \<Rightarrow> SIdle | Some a \<Rightarrow> SPop a) \<subseteq> {a. a < alloc s} - owned s"
  proof (cases as)
    case Nil
    then show ?thesis using as(1) by simp
  next
    case (Cons p ps)
    then have "top s = Some (fst p)" "heap s (fst p) \<noteq> None" "fst p \<notin> owned s" using as by (cases p; auto)+
    then show ?thesis using stk_invD(2) [OF assms(1), of "fst p"] by simp
  qed
qed (simp_all split: option.splits)

lemma stk_pop_done_inv:
  assumes "stk_inv s" "pcs s t = SPopNext a n" "top s = Some a" "heap s a = Some (v, m)"
  shows "stk_inv (stk_pop_done t n v s)"
proof -
  let ?s = "stk_pop_done t n v s"
  obtain as where as: "chain (heap s) (top s) as" "replay (hist s) [] = Some (map snd as)" "fst ` set as \<inter> owned s = {}"
    using stk_invD(1) [OF assms(1)] by blast
  have m: "m = n" using stk_invD(6) [OF assms(1,2)] assms(4) by simp
  obtain bs where bs: "as = (a, v) # bs" "chain (heap s) n bs"
    using as(1) assms(3,4) m by (cases as) auto
  have own': "owned (stk_pop_done t n v s) = owned s"
    by (rule owned_same [of t]) (use assms(2) in \<open>simp_all add: stk_pop_done_def\<close>)
  have f: "heap ?s = heap s" "alloc ?s = alloc s" by (simp_all add: stk_pop_done_def)
  have pc: "pcs ?s u = (if u = t then SIdle else pcs s u)" for u by (simp add: stk_pop_done_def)
  show ?thesis
  proof (rule stk_invI [of _ bs], goal_cases)
    case 1
    then show ?case using bs(2) by (simp add: stk_pop_done_def)
  next
    case 2
    then show ?case using as(2) bs(1) by (simp add: stk_pop_done_def replay_append)
  next
    case 3
    then show ?case using as(3) bs(1) by (auto simp: own')
  next
    case (4 b)
    then show ?case using stk_invD(2) [OF assms(1), of b] by (simp add: f)
  next
    case (5 b)
    then show ?case using stk_invD(3) [OF assms(1), of b] by (simp add: f own')
  next
    case (6 u w b)
    then show ?case using stk_invD(4) [OF assms(1), of u b w] by (simp add: pc split: if_splits)
  next
    case (7 u)
    then show ?case using stk_invD(5) [OF assms(1), of u] by (simp add: pc own' f)
  next
    case (8 u b k)
    then show ?case using stk_invD(6) [OF assms(1), of u b k] by (simp add: pc f split: if_splits)
  qed
qed

lemma stk_inv_step:
  assumes "stk_inv s" "stk_step s s'"
  shows "stk_inv s'"
  using assms(2)
proof (cases rule: stk_step.cases)
  case (push_start t v)
  then show ?thesis using stk_push_start_inv [OF assms(1)] by simp
next
  case (push_fail t a v n)
  then show ?thesis using stk_push_fail_inv [OF assms(1)] by simp
next
  case (push_done t a v n)
  then show ?thesis using stk_push_done_inv [OF assms(1)] by simp
next
  case (pop_start t)
  then show ?thesis using stk_pop_load_inv [OF assms(1), of t] by simp
next
  case (pop_next t a v n)
  then show ?thesis
    using stk_pop_pc_inv [OF assms(1), of t "SPopNext a n"] stk_invD(5) [OF assms(1), of t]
    by (simp add: stk_pop_next_def)
next
  case (pop_fail t a n)
  then show ?thesis using stk_pop_load_inv [OF assms(1), of t] by simp
next
  case (pop_done t a n v m)
  then show ?thesis using stk_pop_done_inv [OF assms(1)] by simp
qed

interpretation stk: inductive_invariant "\<lambda>s. s = stk_new" stk_step stk_inv
  by unfold_locales (auto simp: stk_inv_step, simp add: stk_inv_def stk_new_def owned_def)

text \<open>
  C11. The lock-free stack is linearizable. Under every interleaving of any number of pushing and popping
  threads, the operations in the order of their successful compare-and-swaps are a legal history of
  a sequential stack (every pop returns the value on top), and the nodes linked from the head hold
  exactly the contents that history leaves.
\<close>
theorem stk_linearizable:
  assumes "reach (\<lambda>s. s = stk_new) stk_step s"
  shows "\<exists>as. chain (heap s) (top s) as \<and> replay (hist s) [] = Some (map snd as)"
  using stk_invD(1) [OF stk.always [OF assms]] by blast

theorem stk_linearizable_witness:
  "\<exists>s :: int lf_stack. reach (\<lambda>s. s = stk_new) stk_step s \<and> hist s = [Pushed 7] \<and>
     (\<exists>as. chain (heap s) (top s) as \<and> map snd as = [7])"
proof -
  let ?R = "reach (\<lambda>s. s = (stk_new :: int lf_stack)) stk_step"
  let ?s1 = "stk_push_start 0 7 stk_new :: int lf_stack"
  let ?s2 = "stk_push_done 0 0 7 ?s1"
  have "?R stk_new" by (rule reach_init) simp
  then have "?R ?s1" by (rule reach_step) (rule stk_step.push_start, simp add: stk_new_def)
  then have r: "?R ?s2"
    by (rule reach_step) (rule stk_step.push_done, simp_all add: stk_new_def stk_push_start_def)
  have h: "hist ?s2 = [Pushed 7]" by (simp add: stk_new_def stk_push_start_def stk_push_done_def)
  obtain as where "chain (heap ?s2) (top ?s2) as" "replay (hist ?s2) [] = Some (map snd as)"
    using stk_linearizable [OF r] by blast
  then show ?thesis using r h by (intro exI [of _ ?s2] conjI exI [of _ as]) simp_all
qed

end
