(* ===== verification/Turn_Taking.thy ===== *)
theory Turn_Taking
  imports Prelude
begin

text \<open>
  The printers of \<^verbatim>\<open>concurrency/print_*.cpp\<close>: several threads print in a prescribed order by waiting on
  one condition variable. A step of a thread is one passage through its critical section: it takes
  the mutex when its predicate holds, prints and updates the state. A thread whose predicate does
  not hold waits and can be scheduled again at any time.
\<close>

section \<open>What turn taking promises\<close>

text \<open>
  A schedule is a list of threads; a thread that is blocked or finished does nothing when
  scheduled.
\<close>

fun schedule :: "('t \<Rightarrow> 's \<Rightarrow> ('o \<times> 's) option) \<Rightarrow> 't list \<Rightarrow> 's \<Rightarrow> 'o list \<times> 's" where
  "schedule step [] s = ([], s)"
| "schedule step (t # ts) s =
     (case step t s of
        None \<Rightarrow> schedule step ts s
      | Some (x, s') \<Rightarrow> (let (xs, r) = schedule step ts s' in (x # xs, r)))"

locale turns =
  fixes step :: "'t \<Rightarrow> 's \<Rightarrow> ('o \<times> 's) option" and ok :: "'s \<Rightarrow> bool" and pos :: "'s \<Rightarrow> nat"
    and expected :: "nat \<Rightarrow> 'o" and bound :: "'s \<Rightarrow> nat"
  assumes in_turn: "ok s \<Longrightarrow> step t s = Some (x, s') \<Longrightarrow>
      ok s' \<and> pos s' = Suc (pos s) \<and> bound s' = bound s \<and> x = expected (pos s) \<and> pos s < bound s"
    and progress: "ok s \<Longrightarrow> pos s < bound s \<Longrightarrow> \<exists>t. step t s \<noteq> None"
begin

lemma prefix:
  assumes "ok s" "schedule step ts s = (xs, r)"
  shows "ok r \<and> bound r = bound s \<and> pos r = pos s + length xs \<and> (xs \<noteq> [] \<longrightarrow> pos r \<le> bound s) \<and>
    xs = map expected [pos s..<pos s + length xs]"
  using assms
proof (induction ts arbitrary: s xs)
  case (Cons t ts)
  show ?case
  proof (cases "step t s")
    case None
    then have "schedule step ts s = (xs, r)" using Cons.prems(2) by simp
    then show ?thesis by (rule Cons.IH [OF Cons.prems(1)])
  next
    case (Some p)
    obtain x s' where p: "step t s = Some (x, s')" using Some by (cases p) auto
    obtain ys where ys: "schedule step ts s' = (ys, r)" "xs = x # ys"
      using Cons.prems(2) p by (auto split: prod.splits)
    note s' = in_turn [OF Cons.prems(1) p]
    have IH: "ok r \<and> bound r = bound s' \<and> pos r = pos s' + length ys \<and> (ys \<noteq> [] \<longrightarrow> pos r \<le> bound s') \<and>
        ys = map expected [pos s'..<pos s' + length ys]"
      using Cons.IH [OF _ ys(1)] s' by blast
    have "[pos s..<pos s + length xs] = pos s # [pos s'..<pos s' + length ys]"
      using s' ys(2) by (simp add: upt_conv_Cons del: upt_Suc)
    moreover have "map expected [pos s'..<pos s' + length ys] = ys" using IH by metis
    ultimately have "xs = map expected [pos s..<pos s + length xs]" using s' ys(2) by simp
    moreover have "pos r \<le> bound s" using IH s' by (cases ys) auto
    ultimately show ?thesis using IH s' ys(2) by simp
  qed
qed simp

text \<open>A schedule that cannot go on has printed everything.\<close>

lemma complete:
  assumes "ok s" "pos s = 0" "schedule step ts s = (xs, r)" "\<And>t. step t r = None"
  shows "xs = map expected [0..<bound s]"
proof -
  note p = prefix [OF assms(1,3)]
  have "\<not> pos r < bound r" using progress [of r] p assms(4) by auto
  then have "length xs = bound s" using p assms(2) by (cases xs) auto
  then show ?thesis using p assms(2) by simp
qed

end

section \<open>Foo and bar\<close>

datatype foobar_thread = Foo | Bar

record foobar =
  fb_max :: nat
  foo_turn :: bool
  foo_i :: nat
  bar_i :: nat

definition fb_new :: "nat \<Rightarrow> foobar" where
  "fb_new n = \<lparr>fb_max = n, foo_turn = True, foo_i = 0, bar_i = 0\<rparr>"

fun fb_step :: "foobar_thread \<Rightarrow> foobar \<Rightarrow> (string \<times> foobar) option" where
  "fb_step Foo s =
     (if foo_i s < fb_max s \<and> foo_turn s then Some (''Foo'', s\<lparr>foo_turn := False, foo_i := foo_i s + 1\<rparr>) else None)"
| "fb_step Bar s =
     (if bar_i s < fb_max s \<and> \<not> foo_turn s then Some (''Bar'', s\<lparr>foo_turn := True, bar_i := bar_i s + 1\<rparr>) else None)"

definition fb_ok :: "foobar \<Rightarrow> bool" where
  "fb_ok s \<longleftrightarrow> bar_i s \<le> fb_max s \<and> foo_i s = (if foo_turn s then bar_i s else Suc (bar_i s)) \<and> foo_i s \<le> fb_max s"

interpretation fb: turns fb_step fb_ok "\<lambda>s. foo_i s + bar_i s" "\<lambda>i. if even i then ''Foo'' else ''Bar''" "\<lambda>s. 2 * fb_max s"
proof (unfold_locales, goal_cases)
  case (1 s t x s')
  then show ?case by (cases t) (auto simp: fb_ok_def split: if_splits)
next
  case (2 s)
  then have "fb_step (if foo_turn s then Foo else Bar) s \<noteq> None" by (auto simp: fb_ok_def split: if_splits)
  then show ?case by blast
qed

section \<open>Even and odd\<close>

datatype parity_thread = PrintEven | PrintOdd

record evenodd =
  eo_max :: int
  eo_current :: int

definition eo_new :: "int \<Rightarrow> evenodd" where
  "eo_new n = \<lparr>eo_max = n, eo_current = 1\<rparr>"

fun eo_step :: "parity_thread \<Rightarrow> evenodd \<Rightarrow> ((string \<times> int) \<times> evenodd) option" where
  "eo_step PrintEven s =
     (if eo_current s \<le> eo_max s \<and> cxx_rem (eo_current s) 2 = 0
      then Some ((''Even : '', eo_current s), s\<lparr>eo_current := eo_current s + 1\<rparr>) else None)"
| "eo_step PrintOdd s =
     (if eo_current s \<le> eo_max s \<and> cxx_rem (eo_current s) 2 = 1
      then Some ((''Odd : '', eo_current s), s\<lparr>eo_current := eo_current s + 1\<rparr>) else None)"

interpretation eo: turns eo_step "\<lambda>s. 1 \<le> eo_current s" "\<lambda>s. nat (eo_current s - 1)" 
  "\<lambda>i. (if even i then ''Odd : '' else ''Even : '', int i + 1)" "\<lambda>s. nat (eo_max s)"
proof (unfold_locales, goal_cases)
  case (1 s t x s')
  then have "even (nat (eo_current s - 1)) \<longleftrightarrow> cxx_rem (eo_current s) 2 = 1" by (auto simp: cxx_rem_def even_nat_iff) presburger+
  with 1 show ?case by (cases t) (auto split: if_splits)
next
  case (2 s)
  then have "eo_step (if eo_current s mod 2 = 0 then PrintEven else PrintOdd) s \<noteq> None"
    by (auto simp: cxx_rem_def)
  then show ?case by blast
qed

section \<open>Fizz and buzz\<close>

datatype fizz_thread = Fizz | Buzz | FizzBuzz | Remainder

record fizzbuzz =
  fz_count :: int
  fz_max :: int

definition fz_new :: "int \<Rightarrow> fizzbuzz" where
  "fz_new n = \<lparr>fz_count = 1, fz_max = n\<rparr>"

definition fizz_guard :: "fizz_thread \<Rightarrow> int \<Rightarrow> bool" where
  "fizz_guard t n =
     (case t of
        Fizz \<Rightarrow> cxx_rem n 3 = 0 \<and> cxx_rem n 5 \<noteq> 0
      | Buzz \<Rightarrow> cxx_rem n 5 = 0 \<and> cxx_rem n 3 \<noteq> 0
      | FizzBuzz \<Rightarrow> cxx_rem n 3 = 0 \<and> cxx_rem n 5 = 0
      | Remainder \<Rightarrow> cxx_rem n 3 \<noteq> 0 \<and> cxx_rem n 5 \<noteq> 0)"

definition fizz_print :: "fizz_thread \<Rightarrow> int \<Rightarrow> string + int" where
  "fizz_print t n =
     (case t of Fizz \<Rightarrow> Inl ''Fizz'' | Buzz \<Rightarrow> Inl ''Buzz'' | FizzBuzz \<Rightarrow> Inl ''FizzBuzz'' | Remainder \<Rightarrow> Inr n)"

text \<open>One iteration of a thread's loop; at \<^verbatim>\<open>count > max\<close> the thread leaves its loop without printing.\<close>

definition fz_step :: "fizz_thread \<Rightarrow> fizzbuzz \<Rightarrow> ((string + int) \<times> fizzbuzz) option" where
  "fz_step t s =
     (if fz_count s \<le> fz_max s \<and> fizz_guard t (fz_count s)
      then Some (fizz_print t (fz_count s), s\<lparr>fz_count := fz_count s + 1\<rparr>) else None)"

definition fizz_spec :: "nat \<Rightarrow> string + int" where
  "fizz_spec i =
     (let n = i + 1
      in if n mod 15 = 0 then Inl ''FizzBuzz'' else if n mod 3 = 0 then Inl ''Fizz''
         else if n mod 5 = 0 then Inl ''Buzz'' else Inr (int n))"

lemma fizz_guard_spec:
  assumes "1 \<le> n" "fizz_guard t n"
  shows "fizz_print t n = fizz_spec (nat (n - 1))"
proof -
  have "15 dvd n \<longleftrightarrow> 3 dvd n \<and> 5 dvd n" by presburger
  moreover have "nat n mod k = 0 \<longleftrightarrow> int k dvd n" for k using assms(1) by (simp add: mod_eq_0_iff_dvd nat_dvd_iff flip: int_dvd_int_iff)
  moreover have "Suc (nat (n - 1)) = nat n" using assms(1) by simp
  ultimately show ?thesis
    using assms by (cases t) (simp_all add: fizz_guard_def fizz_print_def fizz_spec_def cxx_rem_def Let_def mod_eq_0_iff_dvd)
qed

interpretation fz: turns fz_step "\<lambda>s. 1 \<le> fz_count s" "\<lambda>s. nat (fz_count s - 1)" fizz_spec "\<lambda>s. nat (fz_max s)"
proof (unfold_locales, goal_cases)
  case (1 s t x s')
  then show ?case using fizz_guard_spec [of "fz_count s" t] by (auto simp: fz_step_def split: if_splits)
next
  case (2 s)
  have "\<exists>t. fizz_guard t n" for n
  proof -
    have "fizz_guard (if cxx_rem n 3 = 0 then (if cxx_rem n 5 = 0 then FizzBuzz else Fizz)
        else if cxx_rem n 5 = 0 then Buzz else Remainder) n"
      by (simp add: fizz_guard_def)
    then show ?thesis by blast
  qed
  then obtain t where "fizz_guard t (fz_count s)" by blast
  then have "fz_step t s \<noteq> None" using 2 by (simp add: fz_step_def)
  then show ?case by blast
qed

section \<open>Zero, odd, zero, even\<close>

datatype zero_thread = Zero | Even | Odd

record zeroeven =
  ze_count :: int
  ze_max :: int
  printZero :: bool

definition ze_new :: "int \<Rightarrow> zeroeven" where
  "ze_new n = \<lparr>ze_count = 1, ze_max = n, printZero = True\<rparr>"

fun ze_step :: "zero_thread \<Rightarrow> zeroeven \<Rightarrow> (int \<times> zeroeven) option" where
  "ze_step Zero s =
     (if ze_count s \<le> ze_max s \<and> printZero s then Some (0, s\<lparr>printZero := False\<rparr>) else None)"
| "ze_step Even s =
     (if ze_count s \<le> ze_max s \<and> \<not> printZero s \<and> cxx_rem (ze_count s) 2 = 0
      then Some (ze_count s, s\<lparr>printZero := True, ze_count := ze_count s + 1\<rparr>) else None)"
| "ze_step Odd s =
     (if ze_count s \<le> ze_max s \<and> \<not> printZero s \<and> cxx_rem (ze_count s) 2 = 1
      then Some (ze_count s, s\<lparr>printZero := True, ze_count := ze_count s + 1\<rparr>) else None)"

definition ze_pos :: "zeroeven \<Rightarrow> nat" where
  "ze_pos s = 2 * nat (ze_count s - 1) + (if printZero s then 0 else 1)"

interpretation ze: turns ze_step "\<lambda>s. 1 \<le> ze_count s" ze_pos "\<lambda>i. if even i then 0 else int (i div 2) + 1" "\<lambda>s. 2 * nat (ze_max s)"
proof (unfold_locales, goal_cases)
  case (1 s t x s')
  then show ?case by (cases t) (auto simp: ze_pos_def nat_diff_distrib split: if_splits)
next
  case (2 s)
  then have "ze_step (if printZero s then Zero else if ze_count s mod 2 = 0 then Even else Odd) s \<noteq> None"
    by (auto simp: ze_pos_def cxx_rem_def split: if_splits)
  then show ?case by blast
qed

section \<open>First, second, third\<close>

datatype order_thread = First | Second | Third

record fst_state =
  fst_count :: int
  fst_done :: "order_thread list"

definition fst_new :: fst_state where
  "fst_new = \<lparr>fst_count = 1, fst_done = []\<rparr>"

text \<open>Each method is called once; \<open>fst_done\<close> records which have run. \<^verbatim>\<open>first\<close> waits for nothing.\<close>

definition fst_guard :: "order_thread \<Rightarrow> int \<Rightarrow> bool" where
  "fst_guard t c = (case t of First \<Rightarrow> True | Second \<Rightarrow> c = 2 | Third \<Rightarrow> c = 3)"

definition fst_text :: "order_thread \<Rightarrow> string" where
  "fst_text t = (case t of First \<Rightarrow> ''First'' | Second \<Rightarrow> ''Second'' | Third \<Rightarrow> ''Third'')"

definition fst_step :: "order_thread \<Rightarrow> fst_state \<Rightarrow> (string \<times> fst_state) option" where
  "fst_step t s =
     (if t \<notin> set (fst_done s) \<and> fst_guard t (fst_count s)
      then Some (fst_text t, s\<lparr>fst_count := (if t = Third then fst_count s else fst_count s + 1), fst_done := fst_done s @ [t]\<rparr>)
      else None)"

definition fst_ok :: "fst_state \<Rightarrow> bool" where
  "fst_ok s \<longleftrightarrow> (fst_count s, fst_done s) \<in> {(1, []), (2, [First]), (3, [First, Second]), (3, [First, Second, Third])}"

interpretation first: turns fst_step fst_ok "\<lambda>s. length (fst_done s)" "\<lambda>i. [''First'', ''Second'', ''Third''] ! i" "\<lambda>s. 3"
proof (unfold_locales, goal_cases)
  case (1 s t x s')
  then show ?case
    by (cases t) (auto simp: fst_ok_def fst_step_def fst_guard_def fst_text_def split: if_splits)
next
  case (2 s)
  have "t = First \<or> t = Second \<or> t = Third" for t by (cases t) auto
  then have "\<exists>t \<in> {First, Second, Third}. fst_step t s \<noteq> None"
    using 2 by (auto simp: fst_ok_def fst_step_def fst_guard_def)
  then show ?case by blast
qed

section \<open>Properties\<close>

text \<open>
  The four FizzBuzz threads print the FizzBuzz sequence. Under every schedule what has been printed
  is a prefix of it, and a schedule after which no thread can go on has printed all of it up to the
  maximum: the threads never block each other before the end.
\<close>
theorem fizzbuzz_output:
  assumes "schedule fz_step ts (fz_new n) = (xs, s)"
  shows "xs = map fizz_spec [0..<length xs] \<and> length xs \<le> nat n \<and>
    ((\<forall>t. fz_step t s = None) \<longrightarrow> xs = map fizz_spec [0..<nat n])"
proof -
  have "xs = map fizz_spec [0..<length xs]" "xs \<noteq> [] \<longrightarrow> length xs \<le> nat n"
    using fz.prefix [OF _ assms] by (auto simp: fz_new_def)
  moreover have "(\<forall>t. fz_step t s = None) \<longrightarrow> xs = map fizz_spec [0..<nat n]"
    using fz.complete [OF _ _ assms] by (simp add: fz_new_def)
  ultimately show ?thesis by (cases xs) auto
qed

theorem fizzbuzz_output_witness:
  "\<exists>s. schedule fz_step [Remainder, Fizz, Remainder, Fizz, Buzz] (fz_new 5) = ([Inr 1, Inr 2, Inl ''Fizz''], s) \<and>
     [Inr 1, Inr 2, Inl ''Fizz''] = map fizz_spec [0..<3]"
proof -
  let ?r = "schedule fz_step [Remainder, Fizz, Remainder, Fizz, Buzz] (fz_new 5)"
  have r: "?r = ([Inr 1, Inr 2, Inl ''Fizz''], snd ?r)" by code_simp
  have "length [Inr 1, Inr 2, Inl ''Fizz'' :: string + int] = 3" by simp
  then have "[Inr 1, Inr 2, Inl ''Fizz''] = map fizz_spec [0..<3]" using fizzbuzz_output [OF r] by metis
  with r show ?thesis by (intro exI [of _ "snd ?r"] conjI)
qed

text \<open>
  The other printers, under any schedule that runs until no thread can go on: foo and bar alternate
  \<open>n\<close> times each; the numbers 1 to \<open>n\<close> come in order, even ones from one thread and odd ones from
  the other; a zero comes before every number; and first, second and third come in this order
  however the threads are scheduled.
\<close>
theorem printers_output:
  "(\<forall>xs s. schedule fb_step fbs (fb_new m) = (xs, s) \<and> (\<forall>t. fb_step t s = None) \<longrightarrow>
      xs = map (\<lambda>i. if even i then ''Foo'' else ''Bar'') [0..<2 * m]) \<and>
   (\<forall>ys s. schedule eo_step eos (eo_new n) = (ys, s) \<and> (\<forall>t. eo_step t s = None) \<longrightarrow>
      ys = map (\<lambda>i. (if even i then ''Odd : '' else ''Even : '', int i + 1)) [0..<nat n]) \<and>
   (\<forall>zs s. schedule ze_step zes (ze_new n) = (zs, s) \<and> (\<forall>t. ze_step t s = None) \<longrightarrow>
      zs = map (\<lambda>i. if even i then 0 else int (i div 2) + 1) [0..<2 * nat n]) \<and>
   (\<forall>ws s. schedule fst_step fs fst_new = (ws, s) \<and> (\<forall>t. fst_step t s = None) \<longrightarrow>
      ws = [''First'', ''Second'', ''Third''])"
proof (intro conjI allI impI, goal_cases)
  case (1 xs s)
  then show ?case using fb.complete [of "fb_new m" fbs xs s] by (simp add: fb_new_def fb_ok_def)
next
  case (2 ys s)
  then show ?case using eo.complete [of "eo_new n" eos ys s] by (simp add: eo_new_def)
next
  case (3 zs s)
  then show ?case using ze.complete [of "ze_new n" zes zs s] by (simp add: ze_new_def ze_pos_def)
next
  case (4 ws s)
  have "map ((!) [''First'', ''Second'', ''Third'']) [0..<3] = [''First'', ''Second'', ''Third'']" by code_simp
  then show ?case using 4 first.complete [of fst_new fs ws s] by (simp add: fst_new_def fst_ok_def)
qed

theorem printers_output_witness:
  "fst (schedule fb_step [Bar, Foo, Foo, Bar] (fb_new 1)) = [''Foo'', ''Bar''] \<and>
   fst (schedule fst_step [Third, Second, First, Third, Second, Third] fst_new) = [''First'', ''Second'', ''Third'']"
proof -
  let ?r = "schedule fb_step [Bar, Foo, Foo, Bar] (fb_new 1)"
    and ?q = "schedule fst_step [Third, Second, First, Third, Second, Third] fst_new"
  have "fb_step Foo (snd ?r) = None" "fb_step Bar (snd ?r) = None" by code_simp+
  then have fb: "fb_step t (snd ?r) = None" for t by (cases t) auto
  have "fst_step First (snd ?q) = None" "fst_step Second (snd ?q) = None" "fst_step Third (snd ?q) = None" by code_simp+
  then have fst: "fst_step t (snd ?q) = None" for t by (cases t) auto
  note P = printers_output [of "[Bar, Foo, Foo, Bar]" 1 "[]" 0 "[]" "[Third, Second, First, Third, Second, Third]"]
  have "?r = (fst ?r, snd ?r) \<and> (\<forall>t. fb_step t (snd ?r) = None)" using fb by (simp only: prod.collapse simp_thms)
  then have "fst ?r = map (\<lambda>i. if even i then ''Foo'' else ''Bar'') [0..<2 * 1]"
    by (rule P [THEN conjunct1, rule_format])
  moreover have "map (\<lambda>i. if even i then ''Foo'' else ''Bar'') [0..<2 * 1] = [''Foo'', ''Bar'']" by code_simp
  moreover have "?q = (fst ?q, snd ?q) \<and> (\<forall>t. fst_step t (snd ?q) = None)" using fst by (simp only: prod.collapse simp_thms)
  then have "fst ?q = [''First'', ''Second'', ''Third'']"
    by (rule P [THEN conjunct2, THEN conjunct2, THEN conjunct2, rule_format])
  ultimately show ?thesis by (simp only: simp_thms)
qed

end
