(* ===== verification/Sync_Primitives.thy ===== *)
theory Sync_Primitives
  imports Prelude
begin

text \<open>
  The synchronisation classes of \<^verbatim>\<open>concurrency/\<close>: both readers-writers locks, the counting semaphore
  with its producer and consumer, the cyclic barrier and the water molecule builder. A method body runs under the class's mutex and
  is one step; a method that waits on a condition is the value \<^const>\<open>None\<close> until the condition holds.
  Who is inside is recorded beside the state of the class.
\<close>

section \<open>Readers-writers locks\<close>

text \<open>
  The interface: entering and leaving as a reader, announcing a write, entering and leaving as a
  writer. The clients leave only what they have entered.
\<close>

record 's rw_system =
  rw_state :: 's
  reading :: "nat list"
  wanting :: "nat list"
  writing :: "nat list"

inductive rw_step ::
  "('s \<Rightarrow> 's option) \<Rightarrow> ('s \<Rightarrow> 's) \<Rightarrow> ('s \<Rightarrow> 's) \<Rightarrow> ('s \<Rightarrow> 's option) \<Rightarrow> ('s \<Rightarrow> 's) \<Rightarrow> 's rw_system \<Rightarrow> 's rw_system \<Rightarrow> bool"
  for ar rr an aw rw where
  read_enter: "ar (rw_state s) = Some x \<Longrightarrow> rw_step ar rr an aw rw s (s\<lparr>rw_state := x, reading := t # reading s\<rparr>)"
| read_leave: "t \<in> set (reading s) \<Longrightarrow>
    rw_step ar rr an aw rw s (s\<lparr>rw_state := rr (rw_state s), reading := remove1 t (reading s)\<rparr>)"
| write_call: "rw_step ar rr an aw rw s (s\<lparr>rw_state := an (rw_state s), wanting := t # wanting s\<rparr>)"
| write_enter: "t \<in> set (wanting s) \<Longrightarrow> aw (rw_state s) = Some x \<Longrightarrow>
    rw_step ar rr an aw rw s (s\<lparr>rw_state := x, wanting := remove1 t (wanting s), writing := t # writing s\<rparr>)"
| write_leave: "t \<in> set (writing s) \<Longrightarrow>
    rw_step ar rr an aw rw s (s\<lparr>rw_state := rw (rw_state s), writing := remove1 t (writing s)\<rparr>)"

locale rw_lock =
  fixes ar :: "'s \<Rightarrow> 's option" and rr an :: "'s \<Rightarrow> 's" and aw :: "'s \<Rightarrow> 's option" and rw :: "'s \<Rightarrow> 's"
    and init :: 's and readers :: "'s \<Rightarrow> int" and writer :: "'s \<Rightarrow> bool"
  assumes init_free: "readers init = 0" "\<not> writer init"
    and ar_enters: "ar s = Some s' \<Longrightarrow> \<not> writer s \<and> \<not> writer s' \<and> readers s' = readers s + 1"
    and rr_leaves: "readers (rr s) = readers s - 1" "writer (rr s) = writer s"
    and an_keeps: "readers (an s) = readers s" "writer (an s) = writer s"
    and aw_enters: "aw s = Some s' \<Longrightarrow> readers s = 0 \<and> \<not> writer s \<and> readers s' = 0 \<and> writer s'"
    and rw_leaves: "readers (rw s) = readers s" "\<not> writer (rw s)"
begin

definition start :: "'s rw_system" where
  "start = \<lparr>rw_state = init, reading = [], wanting = [], writing = []\<rparr>"

definition exclusive :: "'s rw_system \<Rightarrow> bool" where
  "exclusive s \<longleftrightarrow> readers (rw_state s) = int (length (reading s)) \<and> (writer (rw_state s) \<longleftrightarrow> writing s \<noteq> []) \<and>
     length (writing s) \<le> 1 \<and> (writing s \<noteq> [] \<longrightarrow> reading s = [])"

lemma exclusive_step:
  assumes "exclusive s" "rw_step ar rr an aw rw s t"
  shows "exclusive t"
  using assms(2)
proof (cases rule: rw_step.cases)
  case (read_enter x u)
  then show ?thesis using assms(1) ar_enters [of "rw_state s" x] by (auto simp: exclusive_def)
next
  case (read_leave u)
  then have "0 < length (reading s)" by (auto simp: length_pos_if_in_set)
  then show ?thesis
    using read_leave assms(1) by (auto simp: exclusive_def rr_leaves length_remove1 of_nat_diff Suc_le_eq)
next
  case (write_call u)
  then show ?thesis using assms(1) by (simp add: exclusive_def an_keeps)
next
  case (write_enter u x)
  then show ?thesis using assms(1) aw_enters [of "rw_state s" x] by (auto simp: exclusive_def)
next
  case (write_leave u)
  then have "writing s = [u]" using assms(1) by (cases "writing s") (auto simp: exclusive_def)
  then show ?thesis using write_leave assms(1) by (auto simp: exclusive_def rw_leaves)
qed

lemma exclusive_start: "exclusive start"
  by (simp add: exclusive_def start_def init_free)

lemma exclusion: "reach (\<lambda>s. s = start) (rw_step ar rr an aw rw) s \<Longrightarrow> exclusive s"
  by (induction rule: reach.induct) (use exclusive_start exclusive_step in blast)+

end

text \<open>\<^verbatim>\<open>ReadersWritersLock_writer_preference.cpp\<close>: a reader also waits while a writer waits.\<close>

record wp_lock =
  activeReaders :: int
  waitingWriters :: int
  anyActiveWriter :: bool

definition wp_new :: wp_lock where
  "wp_new = \<lparr>activeReaders = 0, waitingWriters = 0, anyActiveWriter = False\<rparr>"

definition wp_acquire_read_lock :: "wp_lock \<Rightarrow> wp_lock option" where
  "wp_acquire_read_lock s =
     (if anyActiveWriter s = False \<and> waitingWriters s = 0
      then Some (s\<lparr>activeReaders := activeReaders s + 1\<rparr>) else None)"

definition wp_release_read_lock :: "wp_lock \<Rightarrow> wp_lock" where
  "wp_release_read_lock s = s\<lparr>activeReaders := activeReaders s - 1\<rparr>"

text \<open>\<^verbatim>\<open>acquire_write_lock\<close> up to its wait, and from its wait on.\<close>

definition wp_announce_write :: "wp_lock \<Rightarrow> wp_lock" where
  "wp_announce_write s = s\<lparr>waitingWriters := waitingWriters s + 1\<rparr>"

definition wp_acquire_write_lock :: "wp_lock \<Rightarrow> wp_lock option" where
  "wp_acquire_write_lock s =
     (if activeReaders s = 0 \<and> anyActiveWriter s = False
      then Some (s\<lparr>waitingWriters := waitingWriters s - 1, anyActiveWriter := True\<rparr>) else None)"

definition wp_release_write_lock :: "wp_lock \<Rightarrow> wp_lock" where
  "wp_release_write_lock s = s\<lparr>anyActiveWriter := False\<rparr>"

text \<open>\<^verbatim>\<open>ReadersWritersLock_reader_preference.cpp\<close>: waiting writers are not counted.\<close>

record rp_lock =
  rp_activeReaders :: int
  rp_anyActiveWriter :: bool

definition rp_new :: rp_lock where
  "rp_new = \<lparr>rp_activeReaders = 0, rp_anyActiveWriter = False\<rparr>"

definition rp_acquire_read_lock :: "rp_lock \<Rightarrow> rp_lock option" where
  "rp_acquire_read_lock s =
     (if rp_anyActiveWriter s = False then Some (s\<lparr>rp_activeReaders := rp_activeReaders s + 1\<rparr>) else None)"

definition rp_release_read_lock :: "rp_lock \<Rightarrow> rp_lock" where
  "rp_release_read_lock s = s\<lparr>rp_activeReaders := rp_activeReaders s - 1\<rparr>"

definition rp_acquire_write_lock :: "rp_lock \<Rightarrow> rp_lock option" where
  "rp_acquire_write_lock s =
     (if rp_activeReaders s = 0 \<and> rp_anyActiveWriter s = False
      then Some (s\<lparr>rp_anyActiveWriter := True\<rparr>) else None)"

definition rp_release_write_lock :: "rp_lock \<Rightarrow> rp_lock" where
  "rp_release_write_lock s = s\<lparr>rp_anyActiveWriter := False\<rparr>"

lemmas wp_defs = wp_acquire_read_lock_def wp_release_read_lock_def wp_announce_write_def
  wp_acquire_write_lock_def wp_release_write_lock_def

lemmas rp_defs = rp_acquire_read_lock_def rp_release_read_lock_def rp_acquire_write_lock_def
  rp_release_write_lock_def

interpretation wp: rw_lock wp_acquire_read_lock wp_release_read_lock wp_announce_write
  wp_acquire_write_lock wp_release_write_lock wp_new activeReaders anyActiveWriter
  by unfold_locales (auto simp: wp_defs wp_new_def split: if_splits)

interpretation rp: rw_lock rp_acquire_read_lock rp_release_read_lock id
  rp_acquire_write_lock rp_release_write_lock rp_new rp_activeReaders rp_anyActiveWriter
  by unfold_locales (auto simp: rp_defs rp_new_def split: if_splits)

definition rw_start :: "'s \<Rightarrow> 's rw_system" where
  "rw_start l = \<lparr>rw_state = l, reading = [], wanting = [], writing = []\<rparr>"

definition wp_step :: "wp_lock rw_system \<Rightarrow> wp_lock rw_system \<Rightarrow> bool" where
  "wp_step = rw_step wp_acquire_read_lock wp_release_read_lock wp_announce_write
     wp_acquire_write_lock wp_release_write_lock"

definition rp_step :: "rp_lock rw_system \<Rightarrow> rp_lock rw_system \<Rightarrow> bool" where
  "rp_step = rw_step rp_acquire_read_lock rp_release_read_lock id rp_acquire_write_lock rp_release_write_lock"

lemma wp_waiting_count:
  "reach (\<lambda>s. s = rw_start wp_new) wp_step s \<Longrightarrow> waitingWriters (rw_state s) = int (length (wanting s))"
proof (induction rule: reach.induct)
  case (reach_step s t)
  from reach_step.hyps(2) [unfolded wp_step_def] show ?case
  proof (cases rule: rw_step.cases)
    case (write_enter u x)
    then have "0 < length (wanting s)" by (auto simp: length_pos_if_in_set)
    then show ?thesis
      using write_enter reach_step.IH by (auto simp: wp_defs length_remove1 of_nat_diff Suc_le_eq split: if_splits)
  qed (use reach_step.IH in \<open>auto simp: wp_defs split: if_splits\<close>)
qed (simp add: wp_new_def rw_start_def)

lemma wp_exclusive: "reach (\<lambda>s. s = rw_start wp_new) wp_step s \<Longrightarrow> wp.exclusive s"
  using wp.exclusion [of s] by (simp add: wp.start_def rw_start_def wp_step_def)

lemma rp_exclusive: "reach (\<lambda>s. s = rw_start rp_new) rp_step s \<Longrightarrow> rp.exclusive s"
  using rp.exclusion [of s] by (simp add: rp.start_def rw_start_def rp_step_def)

text \<open>
  C27. Both readers-writers locks, under every sequence of calls: at most one writer is inside, and
  none while a reader is. Under writer preference a reader enters exactly when no writer is inside
  or waiting, and under reader preference exactly when none is inside. A writer enters either lock
  exactly when nobody is inside.
\<close>
theorem rw_exclusion:
  "(reach (\<lambda>s. s = rw_start wp_new) wp_step s \<longrightarrow>
      length (writing s) \<le> 1 \<and> (writing s \<noteq> [] \<longrightarrow> reading s = []) \<and>
      (wp_acquire_read_lock (rw_state s) \<noteq> None \<longleftrightarrow> writing s = [] \<and> wanting s = []) \<and>
      (wp_acquire_write_lock (rw_state s) \<noteq> None \<longleftrightarrow> writing s = [] \<and> reading s = [])) \<and>
   (reach (\<lambda>s. s = rw_start rp_new) rp_step s' \<longrightarrow>
      length (writing s') \<le> 1 \<and> (writing s' \<noteq> [] \<longrightarrow> reading s' = []) \<and>
      (rp_acquire_read_lock (rw_state s') \<noteq> None \<longleftrightarrow> writing s' = []) \<and>
      (rp_acquire_write_lock (rw_state s') \<noteq> None \<longleftrightarrow> writing s' = [] \<and> reading s' = []))"
proof (intro conjI impI, goal_cases)
  case 3
  then show ?case
    using wp_exclusive [OF 3] wp_waiting_count [OF 3] by (simp add: wp.exclusive_def wp_defs)
next
  case 4
  then show ?case using wp_exclusive [OF 4] by (auto simp: wp.exclusive_def wp_defs)
next
  case 8
  then show ?case using rp_exclusive [OF 8] by (auto simp: rp.exclusive_def rp_defs)
qed (auto dest!: wp_exclusive rp_exclusive simp: wp.exclusive_def rp.exclusive_def rp_defs)

lemma wp_one_writer:
  "reach (\<lambda>s. s = rw_start wp_new) wp_step
     \<lparr>rw_state = \<lparr>activeReaders = 0, waitingWriters = 0, anyActiveWriter = True\<rparr>,
      reading = [], wanting = [], writing = [7]\<rparr>"
proof -
  have 1: "wp_step (rw_start wp_new) \<lparr>rw_state = wp_announce_write wp_new, reading = [], wanting = [7], writing = []\<rparr>"
    using rw_step.write_call [of _ _ wp_announce_write _ _ "rw_start wp_new" 7] by (simp add: wp_step_def rw_start_def)
  have 2: "wp_step \<lparr>rw_state = wp_announce_write wp_new, reading = [], wanting = [7], writing = []\<rparr>
     \<lparr>rw_state = \<lparr>activeReaders = 0, waitingWriters = 0, anyActiveWriter = True\<rparr>,
      reading = [], wanting = [], writing = [7]\<rparr>"
    unfolding wp_step_def
    using rw_step.write_enter [of 7 "\<lparr>rw_state = wp_announce_write wp_new, reading = [], wanting = [7], writing = []\<rparr>"
        wp_acquire_write_lock "\<lparr>activeReaders = 0, waitingWriters = 0, anyActiveWriter = True\<rparr>"]
    by (simp add: wp_defs wp_new_def)
  have "reach (\<lambda>s. s = rw_start wp_new) wp_step (rw_start wp_new)" by (rule reach_init) simp
  from reach_step [OF reach_step [OF this 1] 2] show ?thesis .
qed

theorem rw_exclusion_witness:
  "wp_acquire_read_lock \<lparr>activeReaders = 0, waitingWriters = 0, anyActiveWriter = True\<rparr> = None \<and>
   rp_acquire_write_lock rp_new \<noteq> None"
  using rw_exclusion [of "\<lparr>rw_state = \<lparr>activeReaders = 0, waitingWriters = 0, anyActiveWriter = True\<rparr>,
      reading = [], wanting = [], writing = [7]\<rparr>" "rw_start rp_new"]
    wp_one_writer reach_init [of "\<lambda>s. s = rw_start rp_new" "rw_start rp_new" rp_step]
  by (simp add: rw_start_def)

section \<open>The counting semaphore\<close>

text \<open>\<^verbatim>\<open>CountingSemaphore\<close>: its state is \<^verbatim>\<open>count\<close>.\<close>

definition sem_wait :: "int \<Rightarrow> int option" where
  "sem_wait n = (if n > 0 then Some (n - 1) else None)"

definition sem_signal :: "int \<Rightarrow> int" where
  "sem_signal n = n + 1"

text \<open>
  \<^verbatim>\<open>CountingSemaphore_ProducerConsumer.cpp\<close>: any number of producers and consumers. The state counts the
  producers that have waited but not pushed, and pushed but not signalled, and likewise the
  consumers. \<open>fault\<close> is set when \<^verbatim>\<open>front\<close> or \<^verbatim>\<open>pop\<close> is called on the empty buffer, which is undefined.
\<close>

definition PC_BUFFER_SIZE :: int where
  "PC_BUFFER_SIZE = 2"

record pc_state =
  emptySlots :: int
  fullSlots :: int
  buffer :: "int list"
  p_waited :: nat
  p_pushed :: nat
  c_waited :: nat
  c_popped :: nat
  produced :: "int list"
  consumed :: "int list"
  fault :: bool

definition pc_new :: pc_state where
  "pc_new = \<lparr>emptySlots = PC_BUFFER_SIZE, fullSlots = 0, buffer = [], p_waited = 0, p_pushed = 0,
     c_waited = 0, c_popped = 0, produced = [], consumed = [], fault = False\<rparr>"

definition consume_front :: "pc_state \<Rightarrow> pc_state" where
  "consume_front s = (case buffer s of
     [] \<Rightarrow> s\<lparr>fault := True\<rparr>
   | x # xs \<Rightarrow> s\<lparr>buffer := xs, consumed := consumed s @ [x], c_waited := c_waited s - 1, c_popped := c_popped s + 1\<rparr>)"

inductive pc_step :: "pc_state \<Rightarrow> pc_state \<Rightarrow> bool" where
  producer_wait: "sem_wait (emptySlots s) = Some n \<Longrightarrow> pc_step s (s\<lparr>emptySlots := n, p_waited := p_waited s + 1\<rparr>)"
| producer_push: "p_waited s > 0 \<Longrightarrow>
    pc_step s (s\<lparr>buffer := buffer s @ [item], produced := produced s @ [item], p_waited := p_waited s - 1, p_pushed := p_pushed s + 1\<rparr>)"
| producer_signal: "p_pushed s > 0 \<Longrightarrow> pc_step s (s\<lparr>fullSlots := sem_signal (fullSlots s), p_pushed := p_pushed s - 1\<rparr>)"
| consumer_wait: "sem_wait (fullSlots s) = Some n \<Longrightarrow> pc_step s (s\<lparr>fullSlots := n, c_waited := c_waited s + 1\<rparr>)"
| consumer_pop: "c_waited s > 0 \<Longrightarrow> pc_step s (consume_front s)"
| consumer_signal: "c_popped s > 0 \<Longrightarrow> pc_step s (s\<lparr>emptySlots := sem_signal (emptySlots s), c_popped := c_popped s - 1\<rparr>)"

definition pc_inv :: "pc_state \<Rightarrow> bool" where
  "pc_inv s \<longleftrightarrow> \<not> fault s \<and> 0 \<le> emptySlots s \<and> 0 \<le> fullSlots s \<and>
     emptySlots s + int (p_waited s) + int (length (buffer s)) + int (c_popped s) = PC_BUFFER_SIZE \<and>
     int (length (buffer s)) = int (p_pushed s) + fullSlots s + int (c_waited s) \<and>
     produced s = consumed s @ buffer s"

lemma pc_inv_step:
  assumes "pc_inv s" "pc_step s t"
  shows "pc_inv t"
  using assms(2)
proof (cases rule: pc_step.cases)
  case consumer_pop
  with assms(1) have "buffer s \<noteq> []" by (auto simp: pc_inv_def)
  with consumer_pop assms(1) show ?thesis
    by (auto simp: pc_inv_def consume_front_def of_nat_diff Suc_le_eq split: list.splits)
qed (use assms(1) in \<open>auto simp: pc_inv_def sem_wait_def sem_signal_def of_nat_diff Suc_le_eq split: if_splits\<close>)

lemma pc_inv_new: "pc_inv pc_new"
  by (simp add: pc_inv_def pc_new_def PC_BUFFER_SIZE_def)

interpretation pc: inductive_invariant "\<lambda>s. s = pc_new" pc_step pc_inv
  by unfold_locales (use pc_inv_new pc_inv_step in blast)+

lemma pc_inv_progress:
  assumes "pc_inv s"
  shows "\<exists>t. pc_step s t"
proof -
  consider "p_waited s > 0" | "p_pushed s > 0" | "c_waited s > 0" | "c_popped s > 0" | "emptySlots s > 0" | "fullSlots s > 0"
    using assms unfolding pc_inv_def PC_BUFFER_SIZE_def by linarith
  then show ?thesis
  proof cases
    case 5
    then have "sem_wait (emptySlots s) = Some (emptySlots s - 1)" by (simp add: sem_wait_def)
    then show ?thesis by (blast intro: producer_wait)
  next
    case 6
    then have "sem_wait (fullSlots s) = Some (fullSlots s - 1)" by (simp add: sem_wait_def)
    then show ?thesis by (blast intro: consumer_wait)
  qed (blast intro: producer_push producer_signal consumer_pop consumer_signal)+
qed

text \<open>
  The semaphore with its producers and consumers, under every interleaving: the buffer never
  exceeds \<^verbatim>\<open>BUFFER_SIZE\<close>, no consumer takes from the empty buffer, the items consumed are those produced
  in the same order, and, while both kinds of thread keep calling, some step is always
  possible.
\<close>
theorem sem_bounded_buffer:
  assumes "reach (\<lambda>s. s = pc_new) pc_step s"
  shows "int (length (buffer s)) \<le> PC_BUFFER_SIZE \<and> \<not> fault s \<and> produced s = consumed s @ buffer s \<and>
    (\<exists>t. pc_step s t)"
  using pc.always [OF assms] pc_inv_progress [of s] by (auto simp: pc_inv_def)

theorem sem_bounded_buffer_witness: "\<exists>t. pc_step pc_new t"
  using sem_bounded_buffer [of pc_new] reach_init [of "\<lambda>s. s = pc_new" pc_new pc_step] by simp

section \<open>The cyclic barrier\<close>

text \<open>\<^verbatim>\<open>CyclicBarrier\<close>; of the callback the model keeps whether one was given.\<close>

record CyclicBarrier =
  bar_count :: int
  generation :: int
  parties :: int
  barrierAction :: bool

definition bar_new :: "int \<Rightarrow> bool \<Rightarrow> CyclicBarrier" where
  "bar_new n action = \<lparr>bar_count = n, generation = 0, parties = n, barrierAction = action\<rparr>"

text \<open>
  What \<^verbatim>\<open>await\<close> does after arriving: it returns, having run the action or not, or it waits for the
  generation it saw to end.
\<close>

datatype arrival = Returns bool | Waits int

definition bar_await :: "CyclicBarrier \<Rightarrow> CyclicBarrier \<times> arrival" where
  "bar_await b =
     (let ongoing_generation = generation b;
          b = b\<lparr>bar_count := bar_count b - 1\<rparr>
      in if bar_count b = 0
         then (b\<lparr>bar_count := parties b, generation := generation b + 1\<rparr>, Returns (barrierAction b))
         else (b, Waits ongoing_generation))"

definition bar_released :: "CyclicBarrier \<Rightarrow> int \<Rightarrow> bool" where
  "bar_released b ongoing_generation \<longleftrightarrow> generation b \<noteq> ongoing_generation"

text \<open>
  Threads calling \<^verbatim>\<open>await\<close>: \<open>arrived\<close> records every call with the generation it saw, \<open>waiters\<close> the calls
  that wait, \<open>passed\<close> those that returned and \<open>actions\<close> the runs of the action. A waiting thread makes no
  other call.
\<close>

record bar_system =
  bar :: CyclicBarrier
  arrived :: "(nat \<times> int) list"
  waiters :: "(nat \<times> int) list"
  passed :: "(nat \<times> int) list"
  actions :: int

definition bar_start :: "int \<Rightarrow> bool \<Rightarrow> bar_system" where
  "bar_start n action = \<lparr>bar = bar_new n action, arrived = [], waiters = [], passed = [], actions = 0\<rparr>"

inductive bar_step :: "bar_system \<Rightarrow> bar_system \<Rightarrow> bool" where
  await_last: "t \<notin> fst ` set (waiters s) \<Longrightarrow> bar_await (bar s) = (b, Returns acted) \<Longrightarrow>
    bar_step s (s\<lparr>bar := b, arrived := (t, generation (bar s)) # arrived s,
      passed := (t, generation (bar s)) # passed s, actions := actions s + (if acted then 1 else 0)\<rparr>)"
| await_wait: "t \<notin> fst ` set (waiters s) \<Longrightarrow> bar_await (bar s) = (b, Waits g) \<Longrightarrow>
    bar_step s (s\<lparr>bar := b, arrived := (t, g) # arrived s, waiters := (t, g) # waiters s\<rparr>)"
| await_wake: "(t, g) \<in> set (waiters s) \<Longrightarrow> bar_released (bar s) g \<Longrightarrow>
    bar_step s (s\<lparr>waiters := remove1 (t, g) (waiters s), passed := (t, g) # passed s\<rparr>)"

abbreviation arrivals :: "bar_system \<Rightarrow> int \<Rightarrow> int" where
  "arrivals s g \<equiv> int (length (filter (\<lambda>x. snd x = g) (arrived s)))"

definition bar_inv :: "int \<Rightarrow> bool \<Rightarrow> bar_system \<Rightarrow> bool" where
  "bar_inv n action s \<longleftrightarrow> 0 < bar_count (bar s) \<and> bar_count (bar s) \<le> n \<and> parties (bar s) = n \<and>
     barrierAction (bar s) = action \<and> 0 \<le> generation (bar s) \<and>
     actions s = (if action then generation (bar s) else 0) \<and>
     (\<forall>g. arrivals s g = (if g < 0 \<or> generation (bar s) < g then 0
            else if g < generation (bar s) then n else n - bar_count (bar s))) \<and>
     set (arrived s) = set (waiters s) \<union> set (passed s) \<and> distinct (arrived s) \<and>
     (\<forall>x \<in> set (passed s). snd x < generation (bar s))"

lemma bar_inv_step:
  assumes i: "bar_inv n action s" and "bar_step s t"
  shows "bar_inv n action t"
  using assms(2)
proof (cases rule: bar_step.cases)
  case (await_last u b acted)
  have "(u, generation (bar s)) \<notin> set (arrived s)"
    using i await_last(2) by (force simp: bar_inv_def)
  then show ?thesis using i await_last
    by (auto simp: bar_inv_def bar_await_def Let_def split: if_splits)
next
  case (await_wait u b g)
  then have "g = generation (bar s)" by (auto simp: bar_await_def Let_def split: if_splits)
  moreover have "(u, generation (bar s)) \<notin> set (arrived s)"
    using i await_wait(2) by (force simp: bar_inv_def)
  ultimately show ?thesis using i await_wait
    by (auto simp: bar_inv_def bar_await_def Let_def split: if_splits)
next
  case (await_wake u g)
  have "(u, g) \<in> set (arrived s)" using i await_wake(2) by (auto simp: bar_inv_def)
  then have "arrivals s g > 0" by (force simp: filter_empty_conv)
  then have "g < generation (bar s)"
    using i await_wake(3) by (auto simp: bar_inv_def bar_released_def split: if_splits)
  moreover have "set (remove1 (u, g) (waiters s)) \<union> {(u, g)} = set (waiters s)"
    using await_wake(2) set_remove1_subset [of "(u, g)" "waiters s"] in_set_remove1 [of _ "(u, g)" "waiters s"] by blast
  ultimately show ?thesis using i await_wake(1) by (auto simp: bar_inv_def)
qed

lemma bar_inv_start: "0 < n \<Longrightarrow> bar_inv n action (bar_start n action)"
  by (simp add: bar_inv_def bar_start_def bar_new_def)

interpretation barrier: inductive_invariant "\<lambda>s. 0 < n \<and> s = bar_start n action" bar_step "bar_inv n action" for n action
  by unfold_locales (use bar_inv_start bar_inv_step in blast)+

lemma card_generation:
  assumes "distinct xs"
  shows "int (card {t. (t, g) \<in> set xs}) = int (length (filter (\<lambda>x. snd x = g) xs))"
proof -
  have "{t. (t, g) \<in> set xs} = fst ` set (filter (\<lambda>x. snd x = g) xs)" by force
  moreover have "inj_on fst (set (filter (\<lambda>x. snd x = g) xs))" by (auto simp: inj_on_def)
  ultimately show ?thesis using assms by (simp add: card_image distinct_card del: set_filter)
qed

text \<open>
  C30. The cyclic barrier for \<open>n\<close> parties, under every interleaving of calls: a call returns only after \<open>n\<close>
  different threads have arrived in its generation, a waiting call is released exactly when they
  have, no generation has more than \<open>n\<close> arrivals, and the action has run once for each generation
  that ended.
\<close>
theorem barrier_generations:
  assumes "reach (\<lambda>s. 0 < n \<and> s = bar_start n action) bar_step s"
  shows "(\<forall>(t, g) \<in> set (passed s). int (card {u. (u, g) \<in> set (arrived s)}) = n) \<and>
    (\<forall>(t, g) \<in> set (waiters s). bar_released (bar s) g \<longleftrightarrow> int (card {u. (u, g) \<in> set (arrived s)}) = n) \<and>
    (\<forall>g. int (card {u. (u, g) \<in> set (arrived s)}) \<le> n) \<and>
    (action \<longrightarrow> actions s = generation (bar s))"
proof -
  have i: "bar_inv n action s" by (rule barrier.always [OF assms])
  then have d: "distinct (arrived s)" and a: "arrivals s g = (if g < 0 \<or> generation (bar s) < g then 0
      else if g < generation (bar s) then n else n - bar_count (bar s))" for g
    unfolding bar_inv_def by blast+
  note c = card_generation [OF d, unfolded a]
  have pos: "int (card {u. (u, g) \<in> set (arrived s)}) > 0" if "(t, g) \<in> set (arrived s)" for t g
    using that unfolding card_generation [OF d] by (force simp: filter_empty_conv)
  have range: "0 \<le> g \<and> g \<le> generation (bar s)" if "(t, g) \<in> set (arrived s)" for t g
    using pos [OF that] c [of g] by (auto split: if_splits)
  have b: "0 < bar_count (bar s)" "bar_count (bar s) \<le> n" "action \<longrightarrow> actions s = generation (bar s)"
    and u: "set (waiters s) \<subseteq> set (arrived s)" "set (passed s) \<subseteq> set (arrived s)"
    and p: "\<And>x. x \<in> set (passed s) \<Longrightarrow> snd x < generation (bar s)"
    using i unfolding bar_inv_def by auto
  have 1: "int (card {u. (u, g) \<in> set (arrived s)}) = n" if "(t, g) \<in> set (passed s)" for t g
    using p [OF that] range [of t g] u(2) that c [of g] by auto
  have 2: "bar_released (bar s) g \<longleftrightarrow> int (card {u. (u, g) \<in> set (arrived s)}) = n" if "(t, g) \<in> set (waiters s)" for t g
    using range [of t g] u(1) that c [of g] b(1) by (auto simp: bar_released_def)
  have 3: "int (card {u. (u, g) \<in> set (arrived s)}) \<le> n" for g
    using c [of g] b(1,2) by (auto split: if_splits)
  from 1 2 3 b(3) show ?thesis by blast
qed

lemma bar_two_parties:
  "reach (\<lambda>s. (0::int) < 2 \<and> s = bar_start 2 True) bar_step
     \<lparr>bar = \<lparr>bar_count = 2, generation = 1, parties = 2, barrierAction = True\<rparr>,
      arrived = [(8, 0), (7, 0)], waiters = [(7, 0)], passed = [(8, 0)], actions = 1\<rparr>"
proof -
  let ?b = "\<lparr>bar_count = 1, generation = 0, parties = 2, barrierAction = True\<rparr>"
  let ?s = "\<lparr>bar = ?b, arrived = [(7, 0)], waiters = [(7, 0)], passed = [], actions = 0\<rparr>"
  have 0: "reach (\<lambda>s. (0::int) < 2 \<and> s = bar_start 2 True) bar_step (bar_start 2 True)" by (rule reach_init) simp
  have 1: "bar_step (bar_start 2 True) ?s"
    using bar_step.await_wait [of 7 "bar_start 2 True" ?b 0] by (simp add: bar_start_def bar_new_def bar_await_def)
  have 2: "bar_step ?s
     \<lparr>bar = \<lparr>bar_count = 2, generation = 1, parties = 2, barrierAction = True\<rparr>,
      arrived = [(8, 0), (7, 0)], waiters = [(7, 0)], passed = [(8, 0)], actions = 1\<rparr>"
    using bar_step.await_last [of 8 ?s "\<lparr>bar_count = 2, generation = 1, parties = 2, barrierAction = True\<rparr>" True]
    by (simp add: bar_await_def)
  from reach_step [OF reach_step [OF 0 1] 2] show ?thesis .
qed

theorem barrier_generations_witness:
  "card {u. (u, 0::int) \<in> set [(8::nat, 0), (7, 0)]} = 2 \<and>
   bar_released \<lparr>bar_count = 2, generation = 1, parties = 2, barrierAction = True\<rparr> 0"
  using barrier_generations [OF bar_two_parties] by simp

section \<open>Water molecules\<close>

text \<open>\<^verbatim>\<open>H2O\<close>: the count of hydrogen atoms released for the molecule, and the text printed.\<close>

record H2O =
  hydrogenCount :: int
  h2o_out :: string

definition h2o_new :: H2O where
  "h2o_new = \<lparr>hydrogenCount = 0, h2o_out = []\<rparr>"

definition releaseHydrogen :: "H2O \<Rightarrow> H2O" where
  "releaseHydrogen s = s\<lparr>h2o_out := h2o_out s @ ''H''\<rparr>"

definition releaseOxygen :: "H2O \<Rightarrow> H2O" where
  "releaseOxygen s = s\<lparr>h2o_out := h2o_out s @ ''O''\<rparr>"

definition h2o_hydrogen :: "H2O \<Rightarrow> H2O option" where
  "h2o_hydrogen s =
     (if hydrogenCount s < 2
      then (let s = releaseHydrogen s in Some (s\<lparr>hydrogenCount := hydrogenCount s + 1\<rparr>)) else None)"

definition h2o_oxygen :: "H2O \<Rightarrow> H2O option" where
  "h2o_oxygen s =
     (if hydrogenCount s = 2
      then (let s = releaseOxygen s in Some (s\<lparr>hydrogenCount := 0\<rparr>)) else None)"

inductive h2o_step :: "H2O \<Rightarrow> H2O \<Rightarrow> bool" where
  hydrogen: "h2o_hydrogen s = Some t \<Longrightarrow> h2o_step s t"
| oxygen: "h2o_oxygen s = Some t \<Longrightarrow> h2o_step s t"

definition molecules :: "nat \<Rightarrow> string" where
  "molecules k = concat (replicate k ''HHO'')"

lemma molecules_Suc: "molecules (Suc k) = molecules k @ ''HHO''"
  by (induction k) (simp_all add: molecules_def)

definition h2o_inv :: "H2O \<Rightarrow> bool" where
  "h2o_inv s \<longleftrightarrow> hydrogenCount s \<in> {0, 1, 2} \<and>
     (\<exists>k. h2o_out s = molecules k @ replicate (nat (hydrogenCount s)) (CHR ''H''))"

lemma h2o_inv_step: "h2o_inv s \<Longrightarrow> h2o_step s t \<Longrightarrow> h2o_inv t"
proof (elim h2o_step.cases, goal_cases)
  case (1 s' t')
  then show ?case
    by (auto simp: h2o_inv_def h2o_hydrogen_def releaseHydrogen_def numeral_2_eq_2 split: if_splits)
next
  case (2 s' t')
  then obtain k where "h2o_out s = molecules k @ ''HH''" "hydrogenCount s = 2"
    by (auto simp: h2o_inv_def h2o_oxygen_def numeral_2_eq_2 split: if_splits)
  with 2 show ?case
    by (auto simp: h2o_inv_def h2o_oxygen_def releaseOxygen_def molecules_Suc intro!: exI [of _ "Suc k"])
qed

lemma h2o_inv_new: "h2o_inv h2o_new"
  by (simp add: h2o_inv_def h2o_new_def molecules_def exI [of _ 0])

interpretation h2o: inductive_invariant "\<lambda>s. s = h2o_new" h2o_step h2o_inv
  by unfold_locales (use h2o_inv_new h2o_inv_step in blast)+

text \<open>
  The water builder, under every order of calls: the text printed is a sequence of complete
  molecules followed by fewer than three hydrogen atoms of the next one, and in every state either
  a hydrogen or an oxygen thread can proceed.
\<close>
theorem h2o_molecules:
  assumes "reach (\<lambda>s. s = h2o_new) h2o_step s"
  shows "(\<exists>k j. h2o_out s = molecules k @ replicate j (CHR ''H'') \<and> j \<le> 2) \<and>
    (\<exists>t. h2o_hydrogen s = Some t \<or> h2o_oxygen s = Some t)"
proof -
  obtain k where "h2o_out s = molecules k @ replicate (nat (hydrogenCount s)) (CHR ''H'')"
    and c: "hydrogenCount s \<in> {0, 1, 2}"
    using h2o.always [OF assms] unfolding h2o_inv_def by blast
  moreover have "nat (hydrogenCount s) \<le> 2" using c by auto
  ultimately have "\<exists>k j. h2o_out s = molecules k @ replicate j (CHR ''H'') \<and> j \<le> 2" by blast
  moreover have "\<exists>t. h2o_hydrogen s = Some t \<or> h2o_oxygen s = Some t"
    using c by (auto simp: h2o_hydrogen_def h2o_oxygen_def Let_def)
  ultimately show ?thesis by blast
qed

theorem h2o_molecules_witness:
  "\<exists>k j. h2o_out \<lparr>hydrogenCount = 1, h2o_out = ''H''\<rparr> = molecules k @ replicate j (CHR ''H'') \<and> j \<le> 2"
proof -
  have "h2o_step h2o_new \<lparr>hydrogenCount = 1, h2o_out = ''H''\<rparr>"
    by (rule hydrogen) (simp add: h2o_hydrogen_def releaseHydrogen_def h2o_new_def)
  moreover have "reach (\<lambda>s. s = h2o_new) h2o_step h2o_new" by (rule reach_init) simp
  ultimately show ?thesis using h2o_molecules [OF reach_step] by blast
qed

end
