(* ===== verification/Raft.thy ===== *)
theory Raft
  imports Prelude
begin

text \<open>
  Leader election of \<^verbatim>\<open>distributed/RaftElection_onHeartbeatAbsence.cpp\<close>: one worker thread per node, all
  nodes in one process, calling each other's methods. An election keeps the candidate's mutex while
  it calls the peers one after the other, and a call waits for the mutex of the peer. The theory
  shows that two nodes are never leader of the same term, and that two elections can block each
  other for ever.
\<close>

section \<open>A node\<close>

datatype raft_role = FOLLOWER | CANDIDATE | LEADER

record RaftNode =
  nodeId :: int
  currTerm :: int
  role :: raft_role
  votedFor :: int
  lastHeartbeat :: int

definition raft_node_new :: "int \<Rightarrow> int \<Rightarrow> RaftNode" where
  "raft_node_new now i = \<lparr>nodeId = i, currTerm = 0, role = FOLLOWER, votedFor = - 1, lastHeartbeat = now\<rparr>"

text \<open>\<^verbatim>\<open>startElection\<close> up to the loop over the peers.\<close>

definition becomeCandidate :: "int \<Rightarrow> RaftNode \<Rightarrow> RaftNode" where
  "becomeCandidate now n =
     n\<lparr>role := CANDIDATE, currTerm := currTerm n + 1, lastHeartbeat := now, votedFor := nodeId n\<rparr>"

definition requestVote :: "int \<Rightarrow> int \<Rightarrow> int \<Rightarrow> RaftNode \<Rightarrow> bool \<times> RaftNode" where
  "requestVote now t candidateId n =
     (if t < currTerm n then (False, n)
      else let n = (if t > currTerm n then n\<lparr>currTerm := t, votedFor := - 1, role := FOLLOWER\<rparr> else n)
           in if votedFor n = - 1 \<or> votedFor n = candidateId
              then (True, n\<lparr>votedFor := candidateId, lastHeartbeat := now\<rparr>)
              else (False, n))"

definition becomeLeader :: "RaftNode \<Rightarrow> RaftNode" where
  "becomeLeader n = n\<lparr>role := LEADER\<rparr>"

definition receiveHeartbeat :: "int \<Rightarrow> int \<Rightarrow> RaftNode \<Rightarrow> RaftNode" where
  "receiveHeartbeat now received_term n =
     (if received_term \<ge> currTerm n
      then n\<lparr>currTerm := received_term, role := FOLLOWER, votedFor := - 1, lastHeartbeat := now\<rparr> else n)"

definition hasQuorum :: "int \<Rightarrow> nat \<Rightarrow> bool" where
  "hasQuorum votes n \<longleftrightarrow> votes > int (n div 2)"

lemma requestVote_term: "currTerm (snd (requestVote now t c n)) = max t (currTerm n)"
  by (auto simp: requestVote_def Let_def max_def)

lemma requestVote_role:
  "role (snd (requestVote now t c n)) = LEADER \<longleftrightarrow> role n = LEADER \<and> t \<le> currTerm n"
  by (auto simp: requestVote_def Let_def)

lemma receiveHeartbeat_term: "currTerm (receiveHeartbeat now t n) = max t (currTerm n)"
  by (auto simp: receiveHeartbeat_def max_def)

lemma receiveHeartbeat_role: "role (receiveHeartbeat now t n) = LEADER \<longleftrightarrow> role n = LEADER \<and> t < currTerm n"
  by (auto simp: receiveHeartbeat_def)

section \<open>The cluster\<close>

text \<open>
  Where the worker thread of a node is: between iterations of \<^verbatim>\<open>run\<close>; in the loop of \<^verbatim>\<open>startElection\<close>, with
  the peers still to ask and the votes so far, holding the mutex of its node; or in the loop of
  \<^verbatim>\<open>sendHeartbeat\<close>, with the peers still to call, having read its term for the next one or not. The
  leaders ever elected are logged with their terms.
\<close>

datatype activity = Running | Electing "nat list" int | Beating "nat list" | Sending nat int "nat list"

record cluster =
  node :: "nat \<Rightarrow> RaftNode"
  activity :: "nat \<Rightarrow> activity"
  elected :: "(int \<times> nat) list"

abbreviation electing :: "cluster \<Rightarrow> nat \<Rightarrow> bool" where
  "electing s i \<equiv> \<exists>js v. activity s i = Electing js v"

definition raft_new :: "(nat \<Rightarrow> int) \<Rightarrow> cluster" where
  "raft_new now = \<lparr>node = (\<lambda>i. raft_node_new (now i) (int i)), activity = (\<lambda>_. Running), elected = []\<rparr>"

inductive raft_step :: "nat list \<Rightarrow> cluster \<Rightarrow> cluster \<Rightarrow> bool" for peers where
  start_election: "i \<in> set peers \<Longrightarrow> activity s i = Running \<Longrightarrow> role (node s i) \<noteq> LEADER \<Longrightarrow>
    raft_step peers s (s\<lparr>node := (node s)(i := becomeCandidate now (node s i)),
      activity := (activity s)(i := Electing (filter (\<lambda>j. j \<noteq> i) peers) 1)\<rparr>)"
| ask_vote: "activity s i = Electing (j # js) v \<Longrightarrow> \<not> electing s j \<Longrightarrow>
    requestVote now (currTerm (node s i)) (nodeId (node s i)) (node s j) = (granted, n) \<Longrightarrow>
    raft_step peers s (s\<lparr>node := (node s)(j := n),
      activity := (activity s)(i := Electing js (if granted then v + 1 else v))\<rparr>)"
| win: "activity s i = Electing [] v \<Longrightarrow> hasQuorum v (length peers) \<Longrightarrow>
    raft_step peers s (s\<lparr>node := (node s)(i := becomeLeader (node s i)), activity := (activity s)(i := Running),
      elected := (currTerm (node s i), i) # elected s\<rparr>)"
| lose: "activity s i = Electing [] v \<Longrightarrow> \<not> hasQuorum v (length peers) \<Longrightarrow>
    raft_step peers s (s\<lparr>activity := (activity s)(i := Running)\<rparr>)"
| start_beat: "i \<in> set peers \<Longrightarrow> activity s i = Running \<Longrightarrow> role (node s i) = LEADER \<Longrightarrow>
    raft_step peers s (s\<lparr>activity := (activity s)(i := Beating (filter (\<lambda>j. j \<noteq> i) peers))\<rparr>)"
| read_term: "activity s i = Beating (j # js) \<Longrightarrow>
    raft_step peers s (s\<lparr>activity := (activity s)(i := Sending j (currTerm (node s i)) js)\<rparr>)"
| beat: "activity s i = Sending j t js \<Longrightarrow> \<not> electing s j \<Longrightarrow>
    raft_step peers s (s\<lparr>node := (node s)(j := receiveHeartbeat now t (node s j)),
      activity := (activity s)(i := Beating js)\<rparr>)"
| end_beat: "activity s i = Beating [] \<Longrightarrow> raft_step peers s (s\<lparr>activity := (activity s)(i := Running)\<rparr>)"

section \<open>One leader per term\<close>

text \<open>
  A candidate raises the term of every peer it has asked to its own at least. So an election that
  ends leaves no node below its term, and of two elections that are under way the one that was
  asked before it started has the greater term.
\<close>

definition raft_elections :: "nat list \<Rightarrow> cluster \<Rightarrow> bool" where
  "raft_elections peers s \<longleftrightarrow>
     (\<forall>i js v. activity s i = Electing js v \<longrightarrow> i \<in> set peers \<and> i \<notin> set js \<and> set js \<subseteq> set peers \<and>
        (\<forall>j \<in> set peers - set js. currTerm (node s i) \<le> currTerm (node s j)) \<and>
        (\<forall>j. j \<noteq> i \<and> j \<notin> set js \<and> electing s j \<longrightarrow> currTerm (node s i) < currTerm (node s j)))"

definition raft_elected :: "nat list \<Rightarrow> cluster \<Rightarrow> bool" where
  "raft_elected peers s \<longleftrightarrow>
     (\<forall>(t, k) \<in> set (elected s). (\<forall>j \<in> set peers. t \<le> currTerm (node s j)) \<and> (\<forall>i. electing s i \<longrightarrow> t < currTerm (node s i))) \<and>
     distinct (map fst (elected s)) \<and>
     (\<forall>i. role (node s i) = LEADER \<longrightarrow> (currTerm (node s i), i) \<in> set (elected s))"

lemma raft_electionsD:
  assumes "raft_elections peers s" "activity s i = Electing js v"
  shows "i \<in> set peers" "i \<notin> set js" "set js \<subseteq> set peers"
    "j \<in> set peers \<Longrightarrow> j \<notin> set js \<Longrightarrow> currTerm (node s i) \<le> currTerm (node s j)"
    "j \<noteq> i \<Longrightarrow> j \<notin> set js \<Longrightarrow> electing s j \<Longrightarrow> currTerm (node s i) < currTerm (node s j)"
  using assms unfolding raft_elections_def by blast+

text \<open>Terms never fall, and the term of a node that is electing does not change.\<close>

lemma raft_term_mono:
  assumes "raft_step peers s t"
  shows "currTerm (node s i) \<le> currTerm (node t i)"
  using assms
proof (cases rule: raft_step.cases)
  case (ask_vote k j js v now granted n)
  then have "currTerm n = max (currTerm (node s k)) (currTerm (node s j))" by (metis requestVote_term snd_conv)
  with ask_vote show ?thesis by auto
qed (auto simp: becomeCandidate_def becomeLeader_def receiveHeartbeat_term)

lemma raft_term_kept: "raft_step peers s t \<Longrightarrow> electing s i \<Longrightarrow> currTerm (node t i) = currTerm (node s i)"
  by (erule raft_step.cases) (auto simp: becomeLeader_def)

lemma raft_elections_frame:
  assumes "raft_elections peers s" "raft_step peers s t"
    and "\<And>i js v. activity t i = Electing js v \<Longrightarrow> activity s i = Electing js v"
  shows "raft_elections peers t"
  unfolding raft_elections_def
proof (intro allI impI conjI ballI, goal_cases)
  case (4 i js v j)
  then show ?case
    using raft_electionsD(4) [OF assms(1) assms(3) [OF 4(1)], of j] raft_term_mono [OF assms(2), of j]
      raft_term_kept [OF assms(2), of i] assms(3) [OF 4(1)] by fastforce
next
  case (5 i js v j)
  then have "electing s j" using assms(3) by blast
  then show ?case
    using 5 raft_electionsD(5) [OF assms(1) assms(3) [OF 5(1)], of j] raft_term_mono [OF assms(2), of j]
      raft_term_kept [OF assms(2), of i] assms(3) [OF 5(1)] by fastforce
qed (use raft_electionsD [OF assms(1) assms(3)] in blast)+

lemma raft_elections_step:
  assumes e: "raft_elections peers s" and st: "raft_step peers s t"
  shows "raft_elections peers t"
  using st
proof (cases rule: raft_step.cases)
  case (start_election k now)
  have T: "currTerm (node t k) = currTerm (node s k) + 1" and K: "activity t k = Electing (filter (\<lambda>j. j \<noteq> k) peers) 1"
    and N: "\<And>i. i \<noteq> k \<Longrightarrow> activity t i = activity s i \<and> node t i = node s i"
    using start_election by (auto simp: becomeCandidate_def)
  show ?thesis unfolding raft_elections_def
  proof (intro allI impI, goal_cases)
    case (1 i js v)
    show ?case
    proof (cases "i = k")
      case True
      have "\<not> electing t j" if "j \<noteq> k" "j \<notin> set peers" for j
        using that N [of j] raft_electionsD(1) [OF e] by metis
      then show ?thesis using 1 True K start_election(2) by auto
    next
      case False
      then have a: "activity s i = Electing js v" using 1 N by simp
      note d = raft_electionsD [OF e a]
      have "currTerm (node s i) \<le> currTerm (node t j)" if "j \<in> set peers" "j \<notin> set js" for j
        using d(4) [OF that] raft_term_mono [OF st, of j] by simp
      moreover have "currTerm (node s i) < currTerm (node t j)" if "j \<noteq> i" "j \<notin> set js" "electing t j" for j
        using that d(4) [of j] d(5) [of j] start_election(2) N [of j] T by (cases "j = k") auto
      ultimately show ?thesis using d(1-3) False N [of i] by auto
    qed
  qed
next
  case (ask_vote k j js v now granted n)
  note d = raft_electionsD [OF e ask_vote(2)]
  have jk: "j \<noteq> k" using d(2) by auto
  have n: "currTerm n = max (currTerm (node s k)) (currTerm (node s j))"
    using ask_vote(4) by (metis requestVote_term snd_conv)
  have E: "electing t i \<longleftrightarrow> electing s i" for i using ask_vote(1,2) by auto
  have kept: "currTerm (node t i) = currTerm (node s i)" if "electing s i" for i
    using raft_term_kept [OF st that] .
  show ?thesis unfolding raft_elections_def E
  proof (intro allI impI, goal_cases)
    case (1 i ls w)
    show ?case
    proof (cases "i = k")
      case True
      have ls: "ls = js" using 1 True ask_vote(1) by auto
      have le: "currTerm (node s k) \<le> currTerm (node t l)" if "l \<in> set peers" "l \<notin> set js" for l
      proof (cases "l = j")
        case True
        then show ?thesis using ask_vote(1) n by simp
      next
        case False
        then show ?thesis using d(4) [of l] that raft_term_mono [OF st, of l] by auto
      qed
      have lt: "currTerm (node s k) < currTerm (node t l)" if "l \<noteq> k" "l \<notin> set js" "electing s l" for l
      proof -
        have "l \<noteq> j" using that(3) ask_vote(3) by blast
        then show ?thesis using d(5) [of l] that kept [of l] by auto
      qed
      show ?thesis using True ls le lt d(1-3) kept [of k] ask_vote(2) by auto
    next
      case False
      then have a: "activity s i = Electing ls w" using 1 ask_vote(1) by simp
      note di = raft_electionsD [OF e a]
      have le: "currTerm (node s i) \<le> currTerm (node t l)" if "l \<in> set peers" "l \<notin> set ls" for l
        using di(4) [OF that] raft_term_mono [OF st, of l] by simp
      have lt: "currTerm (node s i) < currTerm (node t l)" if "l \<noteq> i" "l \<notin> set ls" "electing s l" for l
        using di(5) [OF that] kept [OF that(3)] by simp
      show ?thesis using le lt di(1-3) kept [of i] a by auto
    qed
  qed
qed (rule raft_elections_frame [OF e st]; auto split: if_splits)+

lemma raft_elected_step:
  assumes e: "raft_elections peers s" and l: "raft_elected peers s" and st: "raft_step peers s t"
  shows "raft_elected peers t"
proof -
  have old: "\<And>u k j. (u, k) \<in> set (elected s) \<Longrightarrow> j \<in> set peers \<Longrightarrow> u \<le> currTerm (node s j)"
    and oldE: "\<And>u k i. (u, k) \<in> set (elected s) \<Longrightarrow> electing s i \<Longrightarrow> u < currTerm (node s i)"
    and dst: "distinct (map fst (elected s))"
    and lead: "\<And>i. role (node s i) = LEADER \<Longrightarrow> (currTerm (node s i), i) \<in> set (elected s)"
    using l unfolding raft_elected_def by blast+
  have keepE: "u < currTerm (node t i)" if "(u, k) \<in> set (elected s)" "electing t i" for u k i
    using st
  proof (cases rule: raft_step.cases)
    case (start_election k' now)
    then show ?thesis using that oldE [OF that(1), of i] old [OF that(1), of k'] by (cases "i = k'") (auto simp: becomeCandidate_def)
  next
    case (ask_vote k' j js v now granted n)
    then have "electing s i" using that(2) by (auto split: if_splits)
    then show ?thesis using oldE [OF that(1)] raft_term_kept [OF st] by simp
  next
    case (win k' v)
    then have "electing s i" "i \<noteq> k'" using that(2) by (auto split: if_splits)
    then show ?thesis using oldE [OF that(1)] raft_term_kept [OF st] by simp
  qed (use that oldE [OF that(1), of i] in \<open>auto split: if_splits\<close>)
  show ?thesis
  proof (cases "elected t = elected s")
    case True
    have "(currTerm (node t i), i) \<in> set (elected s)" if r: "role (node t i) = LEADER" for i
    proof -
      have "role (node s i) = LEADER \<and> currTerm (node t i) = currTerm (node s i)"
        using st
      proof (cases rule: raft_step.cases)
        case (ask_vote k j js v now granted n)
        then have n: "n = snd (requestVote now (currTerm (node s k)) (nodeId (node s k)) (node s j))" by simp
        show ?thesis using r ask_vote(1) by (cases "i = j") (auto simp: n requestVote_role requestVote_term)
      next
        case (beat k j u js now)
        then show ?thesis using r by (cases "i = j") (auto simp: receiveHeartbeat_role receiveHeartbeat_term)
      qed (use r True in \<open>auto simp: becomeCandidate_def split: if_splits\<close>)
      then show ?thesis using lead by metis
    qed
    then show ?thesis
      using True dst keepE old raft_term_mono [OF st] unfolding raft_elected_def by (fastforce intro: order_trans)
  next
    case False
    then obtain k v where w: "activity s k = Electing [] v" and t: "t = s\<lparr>node := (node s)(k := becomeLeader (node s k)),
        activity := (activity s)(k := Running), elected := (currTerm (node s k), k) # elected s\<rparr>"
      using st False by (elim raft_step.cases) auto
    note d = raft_electionsD [OF e w]
    have terms: "currTerm (node t i) = currTerm (node s i)" for i by (simp add: t becomeLeader_def)
    have new: "currTerm (node s k) \<notin> fst ` set (elected s)" using oldE [of _ _ k] w by fastforce
    have "currTerm (node s k) < currTerm (node t i)" if "electing t i" for i
      using that d(5) [of i] unfolding terms by (auto simp: t split: if_splits)
    moreover have "(currTerm (node t i), i) \<in> set (elected t)" if "role (node t i) = LEADER" for i
      using that lead [of i] unfolding terms by (cases "i = k") (auto simp: t)
    moreover have "currTerm (node s k) \<le> currTerm (node t j)" if "j \<in> set peers" for j
      using d(4) [OF that] unfolding terms by simp
    moreover have "elected t = (currTerm (node s k), k) # elected s" by (simp add: t)
    ultimately show ?thesis using dst new keepE old unfolding raft_elected_def terms by auto
  qed
qed

definition raft_inv :: "nat list \<Rightarrow> cluster \<Rightarrow> bool" where
  "raft_inv peers s \<longleftrightarrow> raft_elections peers s \<and> raft_elected peers s"

interpretation raft: inductive_invariant "\<lambda>s. s = raft_new now" "raft_step peers" "raft_inv peers" for now peers
proof (unfold_locales, goal_cases)
  case (1 s)
  then show ?case
    by (simp add: raft_inv_def raft_elections_def raft_elected_def raft_new_def raft_node_new_def)
next
  case (2 s t)
  then show ?case unfolding raft_inv_def using raft_elections_step raft_elected_step by blast
qed

section \<open>Elections that block each other\<close>

definition blocked :: "cluster \<Rightarrow> nat \<Rightarrow> nat \<Rightarrow> bool" where
  "blocked s i k \<longleftrightarrow> (\<exists>js v ks w. activity s i = Electing (k # js) v \<and> activity s k = Electing (i # ks) w)"

lemma blocked_step: "raft_step peers s t \<Longrightarrow> blocked s i k \<Longrightarrow> blocked t i k"
  by (erule raft_step.cases) (auto simp: blocked_def)

lemma blocked_for_ever: "(raft_step peers)\<^sup>*\<^sup>* s t \<Longrightarrow> blocked s i k \<Longrightarrow> blocked t i k"
  by (induction rule: rtranclp_induct) (auto intro: blocked_step)

text \<open>Two candidates neither of whom has asked the other yet, each with other peers possibly to ask first.\<close>

definition crossed :: "cluster \<Rightarrow> nat \<Rightarrow> nat \<Rightarrow> bool" where
  "crossed s i k \<longleftrightarrow> (\<exists>js v ks w. activity s i = Electing js v \<and> k \<in> set js \<and> activity s k = Electing ks w \<and> i \<in> set ks)"

lemma crossed_step: "raft_step peers s t \<Longrightarrow> crossed s i k \<Longrightarrow> crossed t i k"
  by (erule raft_step.cases) (auto simp: crossed_def)

lemma crossed_for_ever: "(raft_step peers)\<^sup>*\<^sup>* s t \<Longrightarrow> crossed s i k \<Longrightarrow> crossed t i k"
  by (induction rule: rtranclp_induct) (auto intro: crossed_step)

lemma ask_all:
  assumes "reach I (raft_step peers) s" "activity s i = Electing (xs @ js) v" "\<forall>j \<in> set xs. \<not> electing s j" "i \<notin> set xs"
  shows "\<exists>t v'. reach I (raft_step peers) t \<and> activity t = (activity s)(i := Electing js v')"
  using assms
proof (induction xs arbitrary: s v)
  case Nil
  then show ?case by (intro exI [of _ s] exI [of _ v]) (auto simp: fun_upd_idem)
next
  case (Cons j xs)
  obtain granted n where r: "requestVote 0 (currTerm (node s i)) (nodeId (node s i)) (node s j) = (granted, n)"
    by (meson surj_pair)
  define t where "t = s\<lparr>node := (node s)(j := n),
      activity := (activity s)(i := Electing (xs @ js) (if granted then v + 1 else v))\<rparr>"
  have t: "reach I (raft_step peers) t"
    unfolding t_def by (rule reach_step [OF Cons.prems(1) raft_step.ask_vote [OF _ _ r]]) (use Cons.prems in simp_all)
  have ne: "\<forall>j \<in> set xs. \<not> electing t j" using Cons.prems(3,4) by (auto simp: t_def)
  have "activity t i = Electing (xs @ js) (if granted then v + 1 else v)" by (simp add: t_def)
  moreover have "i \<notin> set xs" using Cons.prems(4) by simp
  ultimately obtain u v' where u: "reach I (raft_step peers) u" "activity u = (activity t)(i := Electing js v')"
    using Cons.IH [OF t _ ne] by blast
  then have "activity u = (activity s)(i := Electing js v')" by (auto simp: t_def)
  with u(1) show ?case by blast
qed

text \<open>
  C5. Election safety: in every state the cluster reaches, whatever the interleaving of elections,
  votes and heartbeats, two leaders of the same term are the same node, and no term was ever won
  twice. It holds although a heartbeat makes a node forget its vote within a term, since a
  candidate calls every peer before it can win.
\<close>
theorem raft_one_leader_per_term:
  assumes "reach (\<lambda>s. s = raft_new now) (raft_step peers) s"
  shows "(\<forall>i k. role (node s i) = LEADER \<and> role (node s k) = LEADER \<and> currTerm (node s i) = currTerm (node s k) \<longrightarrow> i = k) \<and>
    distinct (map fst (elected s))"
proof -
  have l: "raft_elected peers s" using raft.always [OF assms] by (simp add: raft_inv_def)
  then have d: "distinct (map fst (elected s))"
    and lead: "\<And>i. role (node s i) = LEADER \<Longrightarrow> (currTerm (node s i), i) \<in> set (elected s)"
    unfolding raft_elected_def by blast+
  have "i = k" if "role (node s i) = LEADER" "role (node s k) = LEADER" "currTerm (node s i) = currTerm (node s k)" for i k
    using lead [OF that(1)] lead [OF that(2)] that(3) eq_key_imp_eq_value [OF d] by auto
  with d show ?thesis by blast
qed

text \<open>The run in which node 1 is elected by a cluster of two.\<close>

lemma raft_election_run:
  "\<exists>s. reach (\<lambda>s. s = raft_new (\<lambda>_. 0)) (raft_step [1, 2]) s \<and> role (node s 1) = LEADER \<and> currTerm (node s 1) = 1"
proof -
  let ?R = "reach (\<lambda>s. s = raft_new (\<lambda>_. 0)) (raft_step [1, 2])"
  have 0: "?R (raft_new (\<lambda>_. 0))" by (rule reach_init) simp
  obtain a where 1: "?R a" "activity a 1 = Electing [2] 1" "\<not> electing a 2"
      "node a 1 = becomeCandidate 0 (raft_node_new 0 1)" "node a 2 = raft_node_new 0 2"
    using reach_step [OF 0 raft_step.start_election [of 1 "[1, 2]" "raft_new (\<lambda>_. 0)" 0]]
    by (auto simp: raft_new_def raft_node_new_def)
  have v: "requestVote 0 (currTerm (node a 1)) (nodeId (node a 1)) (node a 2) =
      (True, \<lparr>nodeId = 2, currTerm = 1, role = FOLLOWER, votedFor = 1, lastHeartbeat = 0\<rparr>)"
    unfolding 1(4,5) by (simp add: requestVote_def becomeCandidate_def raft_node_new_def)
  obtain b where 2: "?R b" "activity b 1 = Electing [] 2" "node b 1 = node a 1"
    using reach_step [OF 1(1) raft_step.ask_vote [OF 1(2,3) v]] by auto
  have "hasQuorum 2 (length [1, 2 :: nat])" by (simp add: hasQuorum_def)
  note 3 = reach_step [OF 2(1) raft_step.win [OF 2(2) this]]
  show ?thesis
    by (rule exI, rule conjI [OF 3]) (simp add: 2(3) 1(4) becomeLeader_def becomeCandidate_def raft_node_new_def del: One_nat_def)
qed

theorem raft_one_leader_per_term_witness:
  "\<exists>s :: cluster. role (node s 1) = LEADER \<and> currTerm (node s 1) = 1 \<and> distinct (map fst (elected s))"
proof -
  obtain s where s: "reach (\<lambda>s. s = raft_new (\<lambda>_. 0)) (raft_step [1, 2]) s" "role (node s 1) = LEADER" "currTerm (node s 1) = 1"
    using raft_election_run by (elim exE conjE)
  show ?thesis
    by (rule exI [of _ s], intro conjI s(2,3), rule conjunct2 [OF raft_one_leader_per_term [OF s(1)]])
qed

lemma both_electing:
  assumes "i \<in> set peers" "k \<in> set peers" "i \<noteq> k"
  shows "\<exists>s. reach (\<lambda>s. s = raft_new now) (raft_step peers) s \<and>
    activity s i = Electing (filter (\<lambda>j. j \<noteq> i) peers) 1 \<and> activity s k = Electing (filter (\<lambda>j. j \<noteq> k) peers) 1 \<and>
    (\<forall>j. j \<noteq> i \<and> j \<noteq> k \<longrightarrow> \<not> electing s j)"
proof -
  let ?R = "reach (\<lambda>s. s = raft_new now) (raft_step peers)"
  have 0: "?R (raft_new now)" by (rule reach_init) simp
  have run: "activity (raft_new now) j = Running" "role (node (raft_new now) j) \<noteq> LEADER" for j
    by (simp_all add: raft_new_def raft_node_new_def)
  define a where "a = (raft_new now)\<lparr>node := (node (raft_new now))(i := becomeCandidate 0 (node (raft_new now) i)),
      activity := (activity (raft_new now))(i := Electing (filter (\<lambda>j. j \<noteq> i) peers) 1)\<rparr>"
  have a: "?R a" unfolding a_def by (rule reach_step [OF 0]) (rule raft_step.start_election [OF assms(1) run])
  have a': "activity a k = Running" "role (node a k) \<noteq> LEADER" using assms(3) run by (simp_all add: a_def)
  define b where "b = a\<lparr>node := (node a)(k := becomeCandidate 0 (node a k)),
      activity := (activity a)(k := Electing (filter (\<lambda>j. j \<noteq> k) peers) 1)\<rparr>"
  have b: "?R b" unfolding b_def by (rule reach_step [OF a]) (rule raft_step.start_election [OF assms(2) a'])
  show ?thesis by (rule exI [of _ b]) (use assms(3) b run in \<open>simp add: b_def a_def\<close>)
qed

lemma blocked_reachable:
  assumes "i \<in> set peers" "k \<in> set peers" "i \<noteq> k"
  shows "\<exists>s. reach (\<lambda>s. s = raft_new now) (raft_step peers) s \<and> blocked s i k"
proof -
  let ?R = "reach (\<lambda>s. s = raft_new now) (raft_step peers)"
  let ?others = "\<lambda>i. filter (\<lambda>j. j \<noteq> i) peers"
  have "k \<in> set (?others i)" "i \<in> set (?others k)" using assms by auto
  then obtain xs js ys ks where f: "?others i = xs @ k # js" "k \<notin> set xs" "?others k = ys @ i # ks" "i \<notin> set ys"
    by (metis split_list_first)
  have "i \<notin> set (?others i)" "k \<notin> set (?others k)" by simp_all
  then have own: "i \<notin> set xs" "k \<notin> set ys" unfolding f(1,3) by simp_all
  obtain b where b: "?R b" "activity b i = Electing (xs @ k # js) 1" "activity b k = Electing (ys @ i # ks) 1"
    and idle: "\<And>j. j \<noteq> i \<Longrightarrow> j \<noteq> k \<Longrightarrow> \<not> electing b j"
    using both_electing [OF assms, of now] unfolding f(1,3) by blast
  have "\<forall>j \<in> set xs. \<not> electing b j" using idle own(1) f(2) by metis
  from ask_all [OF b(1,2) this own(1)]
  obtain c v where c: "?R c" "activity c = (activity b)(i := Electing (k # js) v)" by blast
  have "activity c k = Electing (ys @ i # ks) 1" using c(2) b(3) assms(3) by simp
  moreover have "\<forall>j \<in> set ys. \<not> electing c j"
    using idle own(2) f(4) c(2) by (metis fun_upd_other)
  ultimately obtain d w where d: "?R d" "activity d = (activity c)(k := Electing (i # ks) w)"
    using ask_all [OF c(1) _ _ own(2)] by blast
  have "blocked d i k" unfolding blocked_def using d(2) c(2) assms(3) by auto
  with d(1) show ?thesis by (intro exI [of _ d] conjI)
qed

text \<open>
  C31. Two elections can block each other for ever. In a cluster with any number of nodes, once two nodes
  are both in an election and neither has asked the other, this stays so in every state reached
  from then on, so neither election ever ends; and from the initial state any two different nodes
  can reach the state, for ever after, in which each holds its own mutex and waits for the other's.
\<close>
theorem raft_elections_deadlock:
  assumes "i \<in> set peers" "k \<in> set peers" "i \<noteq> k"
  shows "(\<forall>s t. crossed s i k \<and> (raft_step peers)\<^sup>*\<^sup>* s t \<longrightarrow> crossed t i k) \<and>
    (\<exists>s. reach (\<lambda>s. s = raft_new now) (raft_step peers) s \<and>
      (\<forall>t. (raft_step peers)\<^sup>*\<^sup>* s t \<longrightarrow> blocked t i k))"
proof -
  obtain d where d: "reach (\<lambda>s. s = raft_new now) (raft_step peers) d" "blocked d i k"
    using blocked_reachable [OF assms, of now] by (elim exE conjE)
  have "\<forall>t. (raft_step peers)\<^sup>*\<^sup>* d t \<longrightarrow> blocked t i k" using d(2) by (blast intro: blocked_for_ever)
  then show ?thesis using crossed_for_ever d(1) by (intro conjI exI [of _ d]) blast+
qed

theorem raft_elections_deadlock_witness:
  "\<exists>s. reach (\<lambda>s. s = raft_new (\<lambda>_. 0)) (raft_step [1, 2, 3]) s \<and> blocked s 2 3"
proof -
  have "2 \<in> set [1, 2, 3 :: nat]" "3 \<in> set [1, 2, 3 :: nat]" "2 \<noteq> (3 :: nat)" by simp_all
  from raft_elections_deadlock [OF this, of "\<lambda>_. 0"]
  obtain s where "reach (\<lambda>s. s = raft_new (\<lambda>_. 0)) (raft_step [1, 2, 3]) s" "blocked s 2 3" by blast
  then show ?thesis by (intro exI [of _ s] conjI)
qed

end
