(* ===== verification/Allocator.thy ===== *)
theory Allocator
  imports Prelude
begin

text \<open>
  The first-fit allocator of \<^verbatim>\<open>algorithms/DynamicMemeoryAllocator.cpp\<close>: free and allocated blocks in two
  ordered maps from start address to size. The theory shows that the blocks tile the memory, that
  adjacent free blocks are always merged, and what a request returns.
\<close>

record allocator =
  available :: "(int, int) smap"
  allocated :: "(int, int) smap"

definition alloc_new :: "int \<Rightarrow> allocator" where
  "alloc_new TotalMemory = \<lparr>available = [(0, TotalMemory)], allocated = []\<rparr>"

text \<open>The loop of \<^verbatim>\<open>custom_malloc\<close> over the free blocks in address order.\<close>

fun first_fit :: "int \<Rightarrow> (int, int) smap \<Rightarrow> (int \<times> int) option" where
  "first_fit r [] = None"
| "first_fit r ((block_start, block_size) # m) =
     (if r \<le> block_size then Some (block_start, block_size) else first_fit r m)"

definition custom_malloc :: "int \<Rightarrow> allocator \<Rightarrow> int \<times> allocator" where
  "custom_malloc r a =
     (case first_fit r (available a) of
        None \<Rightarrow> (- 1, a)
      | Some (block_start, block_size) \<Rightarrow>
          (let av = AList.delete block_start (available a);
               al = sm_put block_start r (allocated a)
           in (block_start,
               \<lparr>available = (if r < block_size then sm_put (block_start + r) (block_size - r) av else av),
                allocated = al\<rparr>)))"

text \<open>The entries after and before the iterator at a key.\<close>

definition sm_next :: "int \<Rightarrow> (int, int) smap \<Rightarrow> (int \<times> int) option" where
  "sm_next k m = List.find (\<lambda>e. k < fst e) m"

definition sm_prev :: "int \<Rightarrow> (int, int) smap \<Rightarrow> (int \<times> int) option" where
  "sm_prev k m = List.find (\<lambda>e. fst e < k) (rev m)"

definition merge_next :: "int \<Rightarrow> int \<Rightarrow> (int, int) smap \<Rightarrow> int \<times> (int, int) smap" where
  "merge_next p n av =
     (case sm_next p av of
        Some (p', n') \<Rightarrow> if p + n = p' then (n + n', AList.delete p' (sm_put p (n + n') av)) else (n, av)
      | None \<Rightarrow> (n, av))"

definition merge_prev :: "int \<Rightarrow> int \<Rightarrow> (int, int) smap \<Rightarrow> (int, int) smap" where
  "merge_prev p n av =
     (case sm_prev p av of
        Some (p', n') \<Rightarrow> if p' + n' = p then AList.delete p (sm_put p' (n' + n) av) else av
      | None \<Rightarrow> av)"

definition custom_free :: "int \<Rightarrow> allocator \<Rightarrow> allocator" where
  "custom_free address a =
     (case map_of (allocated a) address of
        None \<Rightarrow> a
      | Some block_size \<Rightarrow>
          (let (n, av) = merge_next address block_size (sm_put address block_size (available a))
           in \<lparr>available = merge_prev address n av, allocated = AList.delete address (allocated a)\<rparr>))"

datatype alloc_op = Malloc int | Free int

fun alloc_step :: "alloc_op \<Rightarrow> allocator \<Rightarrow> allocator" where
  "alloc_step (Malloc r) a = snd (custom_malloc r a)"
| "alloc_step (Free p) a = custom_free p a"

section \<open>Blocks that contain an address\<close>

abbreviation cell :: "int \<Rightarrow> int \<Rightarrow> int \<Rightarrow> nat" where
  "cell x s n \<equiv> (if s \<le> x \<and> x < s + n then 1 else 0)"

definition occ :: "int \<Rightarrow> (int, int) smap \<Rightarrow> nat" where
  "occ x m = sum_list (map (\<lambda>(s, n). cell x s n) m)"

lemma occ_delete: "distinct (map fst m) \<Longrightarrow> map_of m s = Some n \<Longrightarrow> occ x m = cell x s n + occ x (AList.delete s m)"
proof (induction m)
  case (Cons e m)
  have "s \<notin> fst ` set m \<Longrightarrow> AList.delete s m = m" by (rule um_erase_absent) (simp add: map_of_eq_None_iff)
  with Cons show ?case by (cases e) (auto simp: occ_def split: if_splits)
qed simp

lemma occ_put: "map_of m s = None \<Longrightarrow> occ x (sm_put s n m) = cell x s n + occ x m"
  by (induction m) (auto simp: occ_def split: if_splits)

lemma occ_pos: "0 < occ x m \<longleftrightarrow> (\<exists>(s, n) \<in> set m. s \<le> x \<and> x < s + n)"
  by (induction m) (auto simp: occ_def split: if_splits)

lemma sm_put_delete: "sm_ok m \<Longrightarrow> sm_put s n (AList.delete s m) = sm_put s n m"
proof (induction m)
  case (Cons e m)
  have d: "s < fst e \<or> s = fst e \<Longrightarrow> AList.delete s m = m"
    using Cons.prems by (intro um_erase_absent) (auto simp: sm_ok_def map_of_eq_None_iff)
  have "s = fst e \<Longrightarrow> sm_put s n m = (s, n) # m"
    using Cons.prems by (cases m) (auto simp: sm_ok_def)
  with d Cons show ?case by (cases e) (auto simp: sm_ok_def)
qed simp

lemma occ_update:
  assumes "sm_ok m" "map_of m s = Some n"
  shows "occ x (sm_put s n' m) + cell x s n = occ x m + cell x s n'"
proof -
  have "map_of (AList.delete s m) s = None" by (simp add: um_find_erase)
  then have "occ x (sm_put s n' (AList.delete s m)) = cell x s n' + occ x (AList.delete s m)" by (rule occ_put)
  then show ?thesis using occ_delete [OF sm_ok_distinct [OF assms(1)] assms(2), of x] sm_put_delete [OF assms(1)] by simp
qed

section \<open>Tilings\<close>

definition tiled :: "int \<Rightarrow> (int, int) smap \<Rightarrow> (int, int) smap \<Rightarrow> bool" where
  "tiled T av al \<longleftrightarrow> sm_ok av \<and> sm_ok al \<and>
     (\<forall>s n. map_of av s = Some n \<or> map_of al s = Some n \<longrightarrow> 0 < n) \<and>
     (\<forall>x. occ x av + occ x al = (if 0 \<le> x \<and> x < T then 1 else 0))"

lemma tiledD:
  assumes "tiled T av al"
  shows "sm_ok av" "sm_ok al" "map_of av s = Some n \<Longrightarrow> 0 < n" "map_of al s = Some n \<Longrightarrow> 0 < n"
    "occ x av + occ x al = (if 0 \<le> x \<and> x < T then 1 else 0)"
  using assms unfolding tiled_def by blast+

lemma tiled_at_most_one: "tiled T av al \<Longrightarrow> occ x av + occ x al \<le> 1"
  by (simp add: tiledD(5))

lemma occ_at: "sm_ok m \<Longrightarrow> map_of m s = Some n \<Longrightarrow> s \<le> x \<Longrightarrow> x < s + n \<Longrightarrow> 0 < occ x m"
  by (force simp: occ_pos dest: map_of_SomeD)

lemma tiled_disjoint:
  assumes "tiled T av al" "map_of av s = Some n" "map_of av s' = Some n'" "s < s'"
  shows "s + n \<le> s'"
proof (rule ccontr)
  assume *: "\<not> s + n \<le> s'"
  have "map_of (AList.delete s av) s' = Some n'" using assms(3,4) by (simp add: um_find_erase)
  then have "0 < occ s' (AList.delete s av)"
    using assms(1,3) tiledD(3) [OF assms(1,3)] by (intro occ_at [of _ s' n']) (auto intro: sm_ok_erase tiledD)
  then show False
    using occ_delete [OF sm_ok_distinct [OF tiledD(1) [OF assms(1)]] assms(2), of s'] tiled_at_most_one [OF assms(1), of s'] * assms(4)
    by simp
qed

lemma tiled_apart:
  assumes "tiled T av al" "map_of av s = Some n" "map_of al s' = Some n'"
  shows "s + n \<le> s' \<or> s' + n' \<le> s"
proof (rule ccontr)
  assume *: "\<not> (s + n \<le> s' \<or> s' + n' \<le> s)"
  let ?x = "max s s'"
  have "0 < occ ?x av" "0 < occ ?x al"
    using * assms tiledD(3) [OF assms(1,2)] tiledD(4) [OF assms(1,3)]
    by (auto intro!: occ_at [OF tiledD(1) [OF assms(1)] assms(2)] occ_at [OF tiledD(2) [OF assms(1)] assms(3)])
  then show False using tiled_at_most_one [OF assms(1), of ?x] by simp
qed

lemma tiled_merge:
  assumes t: "tiled T av al" and p: "map_of av p = Some n" and q: "map_of av (p + n) = Some n'"
  shows "tiled T (AList.delete (p + n) (sm_put p (n + n') av)) al"
proof -
  have pos: "0 < n" "0 < n'" using tiledD(3) [OF t] p q by blast+
  note ok = tiledD(1) [OF t]
  have m: "map_of (sm_put p (n + n') av) (p + n) = Some n'" using q pos by (simp add: sm_find_put)
  have o: "occ x (AList.delete (p + n) (sm_put p (n + n') av)) = occ x av" for x
    using occ_update [OF ok p, of x "n + n'"] occ_delete [OF sm_ok_distinct [OF sm_ok_put [OF ok]] m, of x] pos
    by (auto split: if_splits)
  have "\<And>s k. map_of (AList.delete (p + n) (sm_put p (n + n') av)) s = Some k \<Longrightarrow> 0 < k"
    using tiledD(3) [OF t] pos by (auto simp: um_find_erase sm_find_put split: if_splits)
  then show ?thesis
    using ok tiledD(2,4,5) [OF t] unfolding tiled_def o by (auto intro: sm_ok_erase sm_ok_put)
qed

lemma find_sorted:
  assumes "sm_ok m" "map_of m s = Some n" "k < s" "\<And>s'. s' \<in> fst ` set m \<Longrightarrow> k < s' \<Longrightarrow> s \<le> s'"
  shows "sm_next k m = Some (s, n)"
  using assms
proof (induction m)
  case (Cons e m)
  show ?case
  proof (cases "fst e = s")
    case True
    then show ?thesis using Cons.prems by (cases e) (simp add: sm_next_def)
  next
    case False
    then have "s \<in> fst ` set m" using Cons.prems(2) by (force dest!: map_of_SomeD)
    then have "fst e < s" using Cons.prems(1) by (auto simp: sm_ok_def)
    then have "\<not> k < fst e" using Cons.prems(4) [of "fst e"] by auto
    moreover have "sm_next k m = Some (s, n)"
      by (rule Cons.IH) (use Cons.prems False in \<open>auto simp: sm_ok_def split: if_splits\<close>)
    ultimately show ?thesis by (simp add: sm_next_def)
  qed
qed simp

lemma find_sorted_rev:
  assumes "sm_ok m" "map_of m s = Some n" "s < k" "\<And>s'. s' \<in> fst ` set m \<Longrightarrow> s' < k \<Longrightarrow> s' \<le> s"
  shows "sm_prev k m = Some (s, n)"
  using assms
proof (induction m rule: rev_induct)
  case (snoc e m)
  show ?case
  proof (cases "fst e = s")
    case True
    have "s \<notin> fst ` set m" using snoc.prems(1) True by (auto simp: sm_ok_def sorted_wrt_append)
    then have "map_of m s = None" by (simp add: map_of_eq_None_iff)
    then show ?thesis using snoc.prems True by (cases e) (auto simp: sm_prev_def map_add_def)
  next
    case False
    then have s: "map_of m s = Some n" using snoc.prems(2) by (cases e) (auto simp: map_add_def split: option.splits)
    then have "s < fst e" using snoc.prems(1) by (force simp: sm_ok_def sorted_wrt_append dest!: map_of_SomeD)
    then have "\<not> fst e < k" using snoc.prems(4) [of "fst e"] by auto
    moreover have "sm_prev k m = Some (s, n)"
      by (rule snoc.IH) (use snoc.prems s in \<open>auto simp: sm_ok_def sorted_wrt_append\<close>)
    ultimately show ?thesis by (simp add: sm_prev_def)
  qed
qed simp

lemma next_adjacent:
  assumes t: "tiled T av al" and p: "map_of av p = Some n" and q: "map_of av (p + n) = Some n'"
  shows "sm_next p av = Some (p + n, n')"
proof (rule find_sorted [OF tiledD(1) [OF t] q])
  show "p < p + n" using tiledD(3) [OF t p] by simp
next
  fix s' assume "s' \<in> fst ` set av" "p < s'"
  then obtain k where "map_of av s' = Some k" by (auto simp: map_of_eq_None_iff dest: weak_map_of_SomeI)
  then show "p + n \<le> s'" using tiled_disjoint [OF t p _ \<open>p < s'\<close>] by blast
qed

lemma prev_adjacent:
  assumes t: "tiled T av al" and q: "map_of av q = Some m" and p: "map_of av (q + m) = Some n"
  shows "sm_prev (q + m) av = Some (q, m)"
proof (rule find_sorted_rev [OF tiledD(1) [OF t] q])
  show "q < q + m" using tiledD(3) [OF t q] by simp
next
  fix s' assume s': "s' \<in> fst ` set av" "s' < q + m"
  then obtain k where "map_of av s' = Some k" by (auto simp: map_of_eq_None_iff dest: weak_map_of_SomeI)
  then show "s' \<le> q" using tiled_disjoint [OF t q, of s' k] s'(2) by linarith
qed

lemma find_SomeD: "List.find P xs = Some x \<Longrightarrow> x \<in> set xs \<and> P x"
  by (auto simp: find_Some_iff)

lemma sm_next_sound: "sm_ok m \<Longrightarrow> sm_next k m = Some (s, n) \<Longrightarrow> map_of m s = Some n \<and> k < s"
  using find_SomeD [of "\<lambda>e. k < fst e" m "(s, n)"] by (simp add: sm_next_def sm_ok_distinct)

lemma sm_prev_sound: "sm_ok m \<Longrightarrow> sm_prev k m = Some (s, n) \<Longrightarrow> map_of m s = Some n \<and> s < k"
  using find_SomeD [of "\<lambda>e. fst e < k" "rev m" "(s, n)"] by (simp add: sm_prev_def sm_ok_distinct)

lemma first_fit_Some: "first_fit r m = Some (s, n) \<Longrightarrow> (s, n) \<in> set m \<and> r \<le> n"
  by (induction r m rule: first_fit.induct) (auto split: if_splits)

lemma first_fit_None: "first_fit r m = None \<Longrightarrow> (s, n) \<in> set m \<Longrightarrow> n < r"
  by (induction r m rule: first_fit.induct) (auto split: if_splits)

section \<open>Merging\<close>

text \<open>No free block ends where another begins, except perhaps at the address given.\<close>

definition coalesced_but :: "int option \<Rightarrow> (int, int) smap \<Rightarrow> bool" where
  "coalesced_but q av \<longleftrightarrow> (\<forall>s n. map_of av s = Some n \<and> Some (s + n) \<noteq> q \<longrightarrow> map_of av (s + n) = None)"

lemma coalesced_butD: "coalesced_but q av \<Longrightarrow> map_of av s = Some n \<Longrightarrow> Some (s + n) \<noteq> q \<Longrightarrow> map_of av (s + n) = None"
  unfolding coalesced_but_def by blast

lemma merge_next_tiled:
  assumes t: "tiled T av al" and p: "map_of av p = Some n"
    and c: "\<And>s k. map_of av s = Some k \<Longrightarrow> s \<noteq> p \<Longrightarrow> s + k \<noteq> p \<Longrightarrow> map_of av (s + k) = None"
    and m: "merge_next p n av = (n1, av1)"
  shows "tiled T av1 al \<and> map_of av1 p = Some n1 \<and> coalesced_but (Some p) av1"
proof (cases "map_of av (p + n)")
  case None
  have "sm_next p av \<noteq> Some (p + n, k)" for k using sm_next_sound [OF tiledD(1) [OF t], of p "p + n" k] None by auto
  then have "n1 = n \<and> av1 = av" using m by (force simp: merge_next_def split: option.splits if_splits)
  moreover have "coalesced_but (Some p) av" unfolding coalesced_but_def using None p c by force
  ultimately show ?thesis using t p by simp
next
  case (Some n')
  have av1: "n1 = n + n'" "av1 = AList.delete (p + n) (sm_put p (n + n') av)"
    using m next_adjacent [OF t p Some] by (auto simp: merge_next_def)
  have n: "0 < n" using tiledD(3) [OF t p] .
  have at: "map_of av1 s = (if s = p + n then None else if s = p then Some n1 else map_of av s)" for s
    using n by (auto simp: av1 um_find_erase sm_find_put)
  have "map_of av (p + n + n') = None" using c [OF Some] n tiledD(3) [OF t Some] by auto
  then have "coalesced_but (Some p) av1"
    unfolding coalesced_but_def at using c n tiledD(3) [OF t Some] by (auto simp: av1(1) add.assoc)
  then show ?thesis using tiled_merge [OF t p Some] at [of p] n by (simp add: av1)
qed

lemma merge_prev_tiled:
  assumes t: "tiled T av al" and p: "map_of av p = Some n" and c: "coalesced_but (Some p) av"
  shows "tiled T (merge_prev p n av) al \<and> coalesced_but None (merge_prev p n av)"
proof (cases "\<exists>q m. map_of av q = Some m \<and> q + m = p")
  case False
  have "merge_prev p n av = av"
    using False sm_prev_sound [OF tiledD(1) [OF t], of p] by (auto simp: merge_prev_def split: option.splits)
  moreover have "coalesced_but None av" using False c unfolding coalesced_but_def by (metis option.inject)
  ultimately show ?thesis using t by simp
next
  case True
  then obtain q m where q: "map_of av q = Some m" "p = q + m" by blast
  note p' = p [unfolded q(2)]
  have pos: "0 < m" "0 < n" using tiledD(3) [OF t] q(1) p by blast+
  have r: "merge_prev p n av = AList.delete (q + m) (sm_put q (m + n) av)"
    using prev_adjacent [OF t q(1) p'] by (simp add: merge_prev_def q(2))
  have at: "map_of (merge_prev p n av) s = (if s = p then None else if s = q then Some (m + n) else map_of av s)" for s
    unfolding r using pos by (auto simp: q(2) um_find_erase sm_find_put)
  have "map_of av (p + n) = None" using coalesced_butD [OF c p] pos by simp
  moreover have "s + k \<noteq> q" if "map_of av s = Some k" for s k
    using coalesced_butD [OF c that] q pos by force
  ultimately have "coalesced_but None (merge_prev p n av)"
    unfolding coalesced_but_def at using coalesced_butD [OF c] pos q(2) by (auto simp: add.assoc)
  then show ?thesis using tiled_merge [OF t q(1) p'] by (simp add: r)
qed

section \<open>The invariant\<close>

definition alloc_inv :: "int \<Rightarrow> allocator \<Rightarrow> bool" where
  "alloc_inv T a \<longleftrightarrow> tiled T (available a) (allocated a) \<and> coalesced_but None (available a)"

lemma alloc_inv_new: "0 < T \<Longrightarrow> alloc_inv T (alloc_new T)"
  by (auto simp: alloc_inv_def alloc_new_def tiled_def coalesced_but_def occ_def sm_ok_def)

lemma alloc_inv_free:
  assumes "alloc_inv T a"
  shows "alloc_inv T (custom_free p a)"
proof (cases "map_of (allocated a) p")
  case None
  then show ?thesis using assms by (simp add: custom_free_def)
next
  case (Some n)
  let ?av = "sm_put p n (available a)" and ?al = "AList.delete p (allocated a)"
  have t: "tiled T (available a) (allocated a)" and c: "coalesced_but None (available a)"
    using assms by (simp_all add: alloc_inv_def)
  have n: "0 < n" using tiledD(4) [OF t Some] .
  have "map_of (available a) p = None"
    using tiled_apart [OF t _ Some, of p] tiledD(3) [OF t, of p] n by (cases "map_of (available a) p") auto
  then have o: "occ x ?av + occ x ?al = occ x (available a) + occ x (allocated a)" for x
    using occ_put [of "available a" p x n] occ_delete [OF sm_ok_distinct [OF tiledD(2) [OF t]] Some, of x] by simp
  have pos: "\<And>s k. map_of ?av s = Some k \<or> map_of ?al s = Some k \<Longrightarrow> 0 < k"
    using tiledD(3,4) [OF t] n by (auto simp: sm_find_put um_find_erase split: if_splits)
  have t': "tiled T ?av ?al"
    unfolding tiled_def o using pos tiledD(1,2,5) [OF t] by (auto intro: sm_ok_put sm_ok_erase)
  obtain n1 av1 where m: "merge_next p n ?av = (n1, av1)" by fastforce
  have "tiled T av1 ?al \<and> map_of av1 p = Some n1 \<and> coalesced_but (Some p) av1"
    by (rule merge_next_tiled [OF t' _ _ m]) (use coalesced_butD [OF c] in \<open>auto simp: sm_find_put split: if_splits\<close>)
  then have "tiled T (merge_prev p n1 av1) ?al \<and> coalesced_but None (merge_prev p n1 av1)"
    using merge_prev_tiled by blast
  then show ?thesis by (simp add: alloc_inv_def custom_free_def Some m)
qed

lemma alloc_inv_malloc:
  assumes "alloc_inv T a" "0 < r"
  shows "alloc_inv T (snd (custom_malloc r a))"
proof (cases "first_fit r (available a)")
  case None
  then show ?thesis using assms by (simp add: custom_malloc_def)
next
  case (Some e)
  then obtain p n where e: "first_fit r (available a) = Some (p, n)" by (cases e) simp
  have t: "tiled T (available a) (allocated a)" and c: "coalesced_but None (available a)"
    using assms by (simp_all add: alloc_inv_def)
  have p: "map_of (available a) p = Some n" and rn: "r \<le> n"
    using first_fit_Some [OF e] sm_ok_distinct [OF tiledD(1) [OF t]] by auto
  let ?al = "sm_put p r (allocated a)"
  let ?av = "if r < n then sm_put (p + r) (n - r) (AList.delete p (available a)) else AList.delete p (available a)"
  have al: "map_of (allocated a) p = None"
    using tiled_apart [OF t p, of p] tiledD(4) [OF t, of p] assms(2) rn by (cases "map_of (allocated a) p") auto
  have av: "map_of (available a) s = None" if "p < s" "s < p + n" for s
    using tiled_disjoint [OF t p, of s] that by (cases "map_of (available a) s") auto
  have at: "map_of ?av s = (if r < n \<and> s = p + r then Some (n - r) else if s = p then None else map_of (available a) s)" for s
    using assms(2) by (auto simp: sm_find_put um_find_erase)
  have "occ x ?av + occ x ?al = occ x (available a) + occ x (allocated a)" for x
    using occ_put [OF al, of x r] occ_delete [OF sm_ok_distinct [OF tiledD(1) [OF t]] p, of x]
      occ_put [of "AList.delete p (available a)" "p + r" x "n - r"] av [of "p + r"] assms(2) rn
    by (auto simp: um_find_erase)
  moreover have "0 < k" if "map_of ?av s = Some k \<or> map_of ?al s = Some k" for s k
    using that tiledD(3,4) [OF t] assms(2) unfolding at by (auto simp: sm_find_put split: if_splits)
  ultimately have "tiled T ?av ?al"
    unfolding tiled_def using tiledD(1,2,5) [OF t] by (auto intro: sm_ok_put sm_ok_erase)
  moreover have "s + k \<noteq> p + r" if "map_of (available a) s = Some k" "s \<noteq> p" for s k
    using tiled_disjoint [OF t p that(1)] tiled_disjoint [OF t that(1) p] that(2) tiledD(3) [OF t that(1)] assms(2) rn
    by (cases "p < s") auto
  then have "coalesced_but None ?av"
    unfolding coalesced_but_def at using coalesced_butD [OF c] p assms(2) by (auto split: if_splits)
  ultimately show ?thesis by (simp add: alloc_inv_def custom_malloc_def e Let_def)
qed

section \<open>Free blocks are the maximal gaps\<close>

lemma occ_free:
  assumes "tiled T av al" "0 < occ x av"
  obtains q m where "map_of av q = Some m" "q \<le> x" "x < q + m"
  using assms sm_ok_distinct [OF tiledD(1) [OF assms(1)]] by (auto simp: occ_pos)

lemma free_block_maximal:
  assumes t: "tiled T av al" and c: "coalesced_but None av" and b: "map_of av s = Some n"
  shows "occ (s - 1) av = 0 \<and> occ (s + n) av = 0"
proof (intro conjI; rule ccontr)
  assume "occ (s - 1) av \<noteq> 0"
  then obtain q m where q: "map_of av q = Some m" "q \<le> s - 1" "s - 1 < q + m" using occ_free [OF t] by blast
  then have "q + m = s" using tiled_disjoint [OF t q(1) b] by simp
  then show False using coalesced_butD [OF c q(1)] b by simp
next
  assume "occ (s + n) av \<noteq> 0"
  then obtain q m where q: "map_of av q = Some m" "q \<le> s + n" "s + n < q + m" using occ_free [OF t] by blast
  have "s < q" using q b tiled_disjoint [OF t q(1) b] tiledD(3) [OF t b] by (cases q s rule: linorder_cases) auto
  then have "q = s + n" using tiled_disjoint [OF t b q(1)] q(2) by simp
  then show False using coalesced_butD [OF c b] q(1) by simp
qed

lemma free_block_iff:
  assumes t: "tiled T av al" and c: "coalesced_but None av"
  shows "map_of av s = Some n \<longleftrightarrow>
    0 < n \<and> (\<forall>x. s \<le> x \<and> x < s + n \<longrightarrow> 0 < occ x av) \<and> occ (s - 1) av = 0 \<and> occ (s + n) av = 0"
proof
  assume b: "map_of av s = Some n"
  show "0 < n \<and> (\<forall>x. s \<le> x \<and> x < s + n \<longrightarrow> 0 < occ x av) \<and> occ (s - 1) av = 0 \<and> occ (s + n) av = 0"
    using free_block_maximal [OF t c b] tiledD(3) [OF t b] occ_at [OF tiledD(1) [OF t] b] by simp
next
  assume r: "0 < n \<and> (\<forall>x. s \<le> x \<and> x < s + n \<longrightarrow> 0 < occ x av) \<and> occ (s - 1) av = 0 \<and> occ (s + n) av = 0"
  then have "0 < occ s av" by simp
  then obtain q m where q: "map_of av q = Some m" "q \<le> s" "s < q + m" by (rule occ_free [OF t])
  note in_block = occ_at [OF tiledD(1) [OF t] q(1)]
  have "q = s" using in_block [of "s - 1"] r q(2,3) by (cases "q = s") auto
  moreover have "\<not> n < m" using in_block [of "s + n"] r \<open>q = s\<close> by auto
  moreover have "\<not> m < n" using free_block_maximal [OF t c q(1)] r [THEN conjunct2, THEN conjunct1, THEN spec, of "s + m"] \<open>q = s\<close>
      tiledD(3) [OF t q(1)] by auto
  ultimately show "map_of av s = Some n" using q(1) by simp
qed

lemma sm_ext:
  assumes "sm_ok m" "sm_ok m'" "map_of m = map_of m'"
  shows "m = m'"
proof -
  have d: "distinct (map fst m)" "distinct (map fst m')" using assms(1,2) sm_ok_distinct by blast+
  have "set m = set m'" using assms(3) by (simp add: map_of_inject_set [OF d, symmetric])
  moreover have "sorted (map fst m)" "sorted (map fst m')" using assms(1,2) by (simp_all add: sm_ok_def strict_sorted_iff)
  moreover have "inj_on fst (set m \<union> set m')" using d(1) calculation(1) by (simp add: distinct_map)
  ultimately show ?thesis using d by (intro map_sorted_distinct_set_unique [of fst])
qed

lemma free_determined:
  assumes "alloc_inv T a" "alloc_inv T b" "allocated a = allocated b"
  shows "available a = available b"
proof -
  have ta: "tiled T (available a) (allocated a)" "coalesced_but None (available a)"
    and tb: "tiled T (available b) (allocated a)" "coalesced_but None (available b)"
    using assms unfolding alloc_inv_def by (simp_all only:)
  have "occ x (available a) = occ x (available b)" for x using tiledD(5) [OF ta(1), of x] tiledD(5) [OF tb(1), of x] by simp
  then have "map_of (available a) s = Some n \<longleftrightarrow> map_of (available b) s = Some n" for s n
    unfolding free_block_iff [OF ta] free_block_iff [OF tb] by simp
  then have "map_of (available a) = map_of (available b)" by (metis (no_types) ext option.exhaust)
  then show ?thesis using sm_ext tiledD(1) [OF ta(1)] tiledD(1) [OF tb(1)] by blast
qed

definition positive_request :: "alloc_op \<Rightarrow> bool" where
  "positive_request p = (case p of Malloc r \<Rightarrow> 0 < r | Free _ \<Rightarrow> True)"

lemma alloc_inv_run: "alloc_inv T a \<Longrightarrow> list_all positive_request ops \<Longrightarrow> alloc_inv T (fold alloc_step ops a)"
proof (induction ops arbitrary: a)
  case (Cons p ops)
  then have "alloc_inv T (alloc_step p a)"
    by (cases p) (auto simp: positive_request_def intro: alloc_inv_malloc alloc_inv_free)
  with Cons show ?case by simp
qed simp

section \<open>What the allocator promises\<close>

text \<open>
  C12. After any requests of positive size and any releases, every address of the memory is in exactly
  one block, free or allocated, and no address outside it is in a block; no free block ends where
  another begins, and if nothing is allocated the whole memory is one free block. A request fails
  exactly when every free block is smaller.
\<close>
theorem alloc_tiles:
  assumes "0 < T" "list_all positive_request ops" "a = fold alloc_step ops (alloc_new T)"
  shows "(\<forall>x. occ x (available a) + occ x (allocated a) = (if 0 \<le> x \<and> x < T then 1 else 0)) \<and>
    (\<forall>s n. map_of (available a) s = Some n \<longrightarrow> map_of (available a) (s + n) = None) \<and>
    (allocated a = [] \<longrightarrow> available a = [(0, T)]) \<and>
    (\<forall>r > 0. fst (custom_malloc r a) = - 1 \<longleftrightarrow> (\<forall>(s, n) \<in> set (available a). n < r))"
proof -
  have i: "alloc_inv T a" using alloc_inv_run [OF alloc_inv_new [OF assms(1)] assms(2)] assms(3) by simp
  then have t: "tiled T (available a) (allocated a)" and c: "coalesced_but None (available a)"
    by (simp_all add: alloc_inv_def)
  have 1: "allocated a = [] \<longrightarrow> available a = [(0, T)]"
    using free_determined [OF i alloc_inv_new [OF assms(1)]] by (simp add: alloc_new_def)
  have "s \<noteq> - 1" if "(s, n) \<in> set (available a)" for s n
  proof -
    have b: "map_of (available a) s = Some n" using that sm_ok_distinct [OF tiledD(1) [OF t]] by simp
    then have "0 < occ s (available a)" using occ_at [OF tiledD(1) [OF t] b, of s] tiledD(3) [OF t b] by simp
    then show ?thesis using tiledD(5) [OF t, of s] by (auto split: if_splits)
  qed
  note start = this
  have 2: "fst (custom_malloc r a) = - 1 \<longleftrightarrow> (\<forall>(s, n) \<in> set (available a). n < r)" for r
  proof (cases "first_fit r (available a)")
    case None
    then show ?thesis using first_fit_None [OF None] by (auto simp: custom_malloc_def)
  next
    case (Some e)
    then obtain s n where e: "first_fit r (available a) = Some (s, n)" by (cases e) simp
    then have "fst (custom_malloc r a) = s" by (simp add: custom_malloc_def Let_def)
    then show ?thesis using first_fit_Some [OF e] start [of s n] by fastforce
  qed
  show ?thesis using tiledD(5) [OF t] coalesced_butD [OF c] 1 2 by simp
qed

theorem alloc_tiles_witness:
  "(let a = fold alloc_step [Malloc 100, Malloc 200, Malloc 150, Free 100, Free 0, Free 300] (alloc_new 1000)
    in available a = [(0, 1000)])"
proof -
  let ?a = "fold alloc_step [Malloc 100, Malloc 200, Malloc 150, Free 100, Free 0, Free 300] (alloc_new 1000)"
  have e: "allocated ?a = []" by code_simp
  have l: "list_all positive_request [Malloc 100, Malloc 200, Malloc 150, Free 100, Free 0, Free 300]" by code_simp
  have "(0::int) < 1000" by simp
  note P = alloc_tiles [OF this l refl]
  show ?thesis unfolding Let_def by (rule P [THEN conjunct2, THEN conjunct2, THEN conjunct1, rule_format, OF e])
qed

text \<open>
  Releasing a block just obtained restores the allocator: after any history, the two maps are
  what they were before the request, entry for entry.
\<close>
theorem alloc_round_trip:
  assumes "0 < T" "list_all positive_request ops" "a = fold alloc_step ops (alloc_new T)"
    and "0 < r" "custom_malloc r a = (p, b)" "p \<noteq> - 1"
  shows "custom_free p b = a"
proof -
  have i: "alloc_inv T a" using alloc_inv_run [OF alloc_inv_new [OF assms(1)] assms(2)] assms(3) by simp
  then have t: "tiled T (available a) (allocated a)" by (simp add: alloc_inv_def)
  have j: "alloc_inv T (custom_free p b)"
    using alloc_inv_free [OF alloc_inv_malloc [OF i assms(4)]] assms(5) by (metis snd_conv)
  obtain n where e: "first_fit r (available a) = Some (p, n)" and b: "allocated b = sm_put p r (allocated a)"
    using assms(5,6) by (auto simp: custom_malloc_def Let_def split: option.splits)
  have p: "map_of (available a) p = Some n" and rn: "r \<le> n"
    using first_fit_Some [OF e] sm_ok_distinct [OF tiledD(1) [OF t]] by auto
  have "map_of (allocated a) p = None"
    using tiled_apart [OF t p, of p] tiledD(4) [OF t, of p] assms(4) rn by (cases "map_of (allocated a) p") auto
  then have "map_of (AList.delete p (sm_put p r (allocated a))) = map_of (allocated a)"
    by (auto simp: um_find_erase sm_find_put fun_eq_iff)
  then have "AList.delete p (sm_put p r (allocated a)) = allocated a"
    using tiledD(2) [OF t] by (intro sm_ext sm_ok_erase sm_ok_put)
  then have "allocated (custom_free p b) = allocated a"
    by (simp add: custom_free_def b sm_find_put split: prod.splits)
  then show ?thesis using free_determined [OF j i] by (cases a, cases "custom_free p b") simp
qed

theorem alloc_round_trip_witness:
  "custom_free 0 (snd (custom_malloc 40 (fold alloc_step [Malloc 100, Malloc 200, Free 0] (alloc_new 1000)))) =
     fold alloc_step [Malloc 100, Malloc 200, Free 0] (alloc_new 1000)"
proof -
  let ?a = "fold alloc_step [Malloc 100, Malloc 200, Free 0] (alloc_new 1000)"
  have "custom_malloc 40 ?a = (0, snd (custom_malloc 40 ?a))"
    "list_all positive_request [Malloc 100, Malloc 200, Free 0]" by code_simp+
  then show ?thesis by (intro alloc_round_trip [of 1000 _ ?a 40 0, OF _ _ refl]) simp_all
qed

end
