(* ===== verification/Merge_Sort.thy ===== *)
theory Merge_Sort
  imports Prelude "HOL-Library.Monad_Syntax"
begin

text \<open>
  The in-place merge sort of \<^verbatim>\<open>algorithms/MergeSort_parallel.cpp\<close>. Array accesses are checked, so the
  value \<^const>\<open>None\<close> is an access out of range. Above the depth limit the two halves are sorted by two
  threads; as they touch disjoint ranges, the model runs them one after the other, in an order
  given by a parameter. The theory shows that the result is the sorted array whatever the order and
  the depth limit.
\<close>

definition vec_at :: "int list \<Rightarrow> int \<Rightarrow> int option" where
  "vec_at arr i = (if 0 \<le> i \<and> i < int (length arr) then Some (arr ! nat i) else None)"

text \<open>The three loops of \<^verbatim>\<open>merge\<close> that fill \<^verbatim>\<open>temp\<close>, and the loop that writes it back.\<close>

function merge_loop :: "int list \<Rightarrow> int \<Rightarrow> int \<Rightarrow> int \<Rightarrow> int \<Rightarrow> int list \<Rightarrow> (int \<times> int \<times> int list) option" where
  "merge_loop arr i mid j right temp =
     (if i \<le> mid \<and> j \<le> right
      then do {
        a \<leftarrow> vec_at arr i;
        b \<leftarrow> vec_at arr j;
        (if a \<le> b then merge_loop arr (i + 1) mid j right (temp @ [a])
         else merge_loop arr i mid (j + 1) right (temp @ [b]))
      }
      else Some (i, j, temp))"
  by pat_completeness auto
termination
  by (relation "measure (\<lambda>(arr, i, mid, j, right, temp). nat (mid + 1 - i) + nat (right + 1 - j))") auto

function copy_loop :: "int list \<Rightarrow> int \<Rightarrow> int \<Rightarrow> int list \<Rightarrow> int list option" where
  "copy_loop arr i mid temp =
     (if i \<le> mid
      then do {
        a \<leftarrow> vec_at arr i;
        copy_loop arr (i + 1) mid (temp @ [a])
      }
      else Some temp)"
  by pat_completeness auto
termination by (relation "measure (\<lambda>(arr, i, mid, temp). nat (mid + 1 - i))") auto

fun write_back :: "int \<Rightarrow> int list \<Rightarrow> int list \<Rightarrow> int list option" where
  "write_back p [] arr = Some arr"
| "write_back p (x # temp) arr =
     (if 0 \<le> p \<and> p < int (length arr) then write_back (p + 1) temp (arr[nat p := x]) else None)"

definition merge :: "int list \<Rightarrow> int \<Rightarrow> int \<Rightarrow> int \<Rightarrow> int list option" where
  "merge arr left mid right =
     do {
       (i, j, temp) \<leftarrow> merge_loop arr left mid (mid + 1) right [];
       temp \<leftarrow> copy_loop arr i mid temp;
       temp \<leftarrow> copy_loop arr j right temp;
       write_back left temp arr
     }"

function merge_sort :: "(int \<Rightarrow> int \<Rightarrow> bool) \<Rightarrow> int list \<Rightarrow> int \<Rightarrow> int \<Rightarrow> int \<Rightarrow> int \<Rightarrow> int list option" where
  "merge_sort right_first arr left right curr_depth max_depth =
     (if left \<ge> right then Some arr
      else let mid = left + (right - left) div 2
           in do {
             arr \<leftarrow> (if curr_depth < max_depth \<and> right_first left right
               then do {
                 arr \<leftarrow> merge_sort right_first arr (mid + 1) right (curr_depth + 1) max_depth;
                 merge_sort right_first arr left mid (curr_depth + 1) max_depth
               }
               else do {
                 arr \<leftarrow> merge_sort right_first arr left mid (curr_depth + 1) max_depth;
                 merge_sort right_first arr (mid + 1) right (curr_depth + 1) max_depth
               });
             merge arr left mid right
           })"
  by pat_completeness auto
termination
  by (relation "measure (\<lambda>(f, arr, left, right, d, m). nat (right - left))") auto

definition ParallelMergeSort_sort :: "(int \<Rightarrow> int \<Rightarrow> bool) \<Rightarrow> int \<Rightarrow> int list \<Rightarrow> int list option" where
  "ParallelMergeSort_sort right_first max_depth arr = merge_sort right_first arr 0 (int (length arr) - 1) 0 max_depth"

declare merge_loop.simps [simp del] copy_loop.simps [simp del] merge_sort.simps [simp del]

section \<open>Segments\<close>

definition seg :: "int list \<Rightarrow> int \<Rightarrow> int \<Rightarrow> int list" where
  "seg arr i j = take (nat (j + 1) - nat i) (drop (nat i) arr)"

lemma seg_empty: "j < i \<Longrightarrow> seg arr i j = []"
  by (simp add: seg_def)

lemma seg_Cons:
  assumes "0 \<le> i" "i \<le> j" "j < int (length arr)"
  shows "vec_at arr i = Some (arr ! nat i)" "seg arr i j = arr ! nat i # seg arr (i + 1) j"
proof -
  have "nat (j + 1) - nat i = Suc (nat (j + 1) - nat (i + 1))" "nat (i + 1) = Suc (nat i)" "nat i < length arr"
    using assms by auto
  then show "seg arr i j = arr ! nat i # seg arr (i + 1) j" by (simp add: seg_def Cons_nth_drop_Suc [symmetric])
  show "vec_at arr i = Some (arr ! nat i)" using assms by (simp add: vec_at_def)
qed

fun merge_ref :: "int list \<Rightarrow> int list \<Rightarrow> int list" where
  "merge_ref [] ys = ys"
| "merge_ref xs [] = xs"
| "merge_ref (x # xs) (y # ys) = (if x \<le> y then x # merge_ref xs (y # ys) else y # merge_ref (x # xs) ys)"

lemma mset_merge_ref: "mset (merge_ref xs ys) = mset xs + mset ys"
  by (induction xs ys rule: merge_ref.induct) auto

lemma set_merge_ref: "set (merge_ref xs ys) = set xs \<union> set ys"
  using arg_cong [OF mset_merge_ref, of set_mset] by simp

lemma sorted_merge_ref: "sorted xs \<Longrightarrow> sorted ys \<Longrightarrow> sorted (merge_ref xs ys)"
  by (induction xs ys rule: merge_ref.induct) (auto simp: set_merge_ref)

lemma merge_ref_sort: "merge_ref (sort xs) (sort ys) = sort (xs @ ys)"
  by (rule properties_for_sort [symmetric]) (simp_all add: mset_merge_ref sorted_merge_ref)

lemma copy_loop_seg:
  "0 \<le> i \<Longrightarrow> mid < int (length arr) \<Longrightarrow> copy_loop arr i mid temp = Some (temp @ seg arr i mid)"
proof (induction arr i mid temp rule: copy_loop.induct)
  case (1 arr i mid temp)
  show ?case
  proof (cases "i \<le> mid")
    case True
    then show ?thesis
      using 1 seg_Cons [of i mid arr] by (subst copy_loop.simps) simp
  qed (subst copy_loop.simps, simp add: seg_empty)
qed

lemma merge_loop_seg:
  assumes "0 \<le> i" "mid < int (length arr)" "0 \<le> j" "right < int (length arr)"
  shows "\<exists>i' j' temp'. merge_loop arr i mid j right temp = Some (i', j', temp') \<and> i \<le> i' \<and> j \<le> j' \<and>
    temp' @ seg arr i' mid @ seg arr j' right = temp @ merge_ref (seg arr i mid) (seg arr j right)"
  using assms
proof (induction arr i mid j right temp rule: merge_loop.induct)
  case (1 arr i mid j right temp)
  show ?case
  proof (cases "i \<le> mid \<and> j \<le> right")
    case False
    then have "seg arr i mid = [] \<or> seg arr j right = []" by (auto simp: seg_empty)
    then have "merge_ref (seg arr i mid) (seg arr j right) = seg arr i mid @ seg arr j right"
      by (cases "seg arr i mid") auto
    moreover have "merge_loop arr i mid j right temp = Some (i, j, temp)"
      using False by (subst merge_loop.simps) auto
    ultimately show ?thesis by simp
  next
    case True
    have a: "vec_at arr i = Some (arr ! nat i)" "seg arr i mid = arr ! nat i # seg arr (i + 1) mid"
      and b: "vec_at arr j = Some (arr ! nat j)" "seg arr j right = arr ! nat j # seg arr (j + 1) right"
      using seg_Cons [of i mid arr] seg_Cons [of j right arr] True "1.prems" by simp_all
    show ?thesis
    proof (cases "arr ! nat i \<le> arr ! nat j")
      case le: True
      obtain i' j' t where "merge_loop arr (i + 1) mid j right (temp @ [arr ! nat i]) = Some (i', j', t)" "i + 1 \<le> i'" "j \<le> j'"
        "t @ seg arr i' mid @ seg arr j' right = (temp @ [arr ! nat i]) @ merge_ref (seg arr (i + 1) mid) (seg arr j right)"
        using "1.IH"(1) [OF True, of "arr ! nat i" "arr ! nat j"] True le "1.prems" a(1) b(1) by auto
      moreover have "merge_loop arr i mid j right temp = merge_loop arr (i + 1) mid j right (temp @ [arr ! nat i])"
        using True le a(1) b(1) by (subst merge_loop.simps) simp
      ultimately show ?thesis using le by (intro exI [of _ i'] exI [of _ j'] exI [of _ t]) (simp add: a(2) b(2))
    next
      case gt: False
      obtain i' j' t where "merge_loop arr i mid (j + 1) right (temp @ [arr ! nat j]) = Some (i', j', t)" "i \<le> i'" "j + 1 \<le> j'"
        "t @ seg arr i' mid @ seg arr j' right = (temp @ [arr ! nat j]) @ merge_ref (seg arr i mid) (seg arr (j + 1) right)"
        using "1.IH"(2) [OF True, of "arr ! nat i" "arr ! nat j"] True gt "1.prems" a(1) b(1) by auto
      moreover have "merge_loop arr i mid j right temp = merge_loop arr i mid (j + 1) right (temp @ [arr ! nat j])"
        using True gt a(1) b(1) by (subst merge_loop.simps) simp
      ultimately show ?thesis using gt by (intro exI [of _ i'] exI [of _ j'] exI [of _ t]) (simp add: a(2) b(2))
    qed
  qed
qed

lemma write_back_eq:
  "0 \<le> p \<Longrightarrow> nat p + length temp \<le> length arr \<Longrightarrow>
     write_back p temp arr = Some (take (nat p) arr @ temp @ drop (nat p + length temp) arr)"
proof (induction p temp arr rule: write_back.induct)
  case (2 p x temp arr)
  then have p: "nat (p + 1) = Suc (nat p)" "nat p < length arr" "p < int (length arr)" by auto
  then have "(take (nat p) arr @ [arr ! nat p])[nat p := x] = take (nat p) arr @ [x]" by (simp add: list_update_append)
  with 2 p show ?case by (simp add: take_Suc_conv_app_nth take_update_swap)
qed simp

lemma length_seg: "0 \<le> i \<Longrightarrow> i \<le> j + 1 \<Longrightarrow> j < int (length arr) \<Longrightarrow> length (seg arr i j) = nat (j + 1) - nat i"
  by (simp add: seg_def)

definition replace_seg :: "int list \<Rightarrow> int \<Rightarrow> int \<Rightarrow> int list \<Rightarrow> int list" where
  "replace_seg arr i j xs = take (nat i) arr @ xs @ drop (nat (j + 1)) arr"

lemma merge_seg:
  assumes "0 \<le> left" "left \<le> mid" "mid < right" "right < int (length arr)"
  shows "merge arr left mid right =
    Some (replace_seg arr left right (merge_ref (seg arr left mid) (seg arr (mid + 1) right)))"
proof -
  obtain i j temp where l: "merge_loop arr left mid (mid + 1) right [] = Some (i, j, temp)" "left \<le> i" "mid + 1 \<le> j"
    and t: "temp @ seg arr i mid @ seg arr j right = merge_ref (seg arr left mid) (seg arr (mid + 1) right)"
    using merge_loop_seg [of left mid arr "mid + 1" right "[]"] assms by auto
  let ?m = "merge_ref (seg arr left mid) (seg arr (mid + 1) right)"
  have "size (mset ?m) = length (seg arr left mid) + length (seg arr (mid + 1) right)"
    unfolding mset_merge_ref by simp
  then have n: "length ?m = nat (right + 1) - nat left" using assms by (simp add: length_seg)
  have "merge arr left mid right = write_back left ?m arr"
    using l assms by (simp add: merge_def copy_loop_seg flip: t)
  also have "\<dots> = Some (replace_seg arr left right ?m)"
    using assms n by (subst write_back_eq) (auto simp: replace_seg_def)
  finally show ?thesis .
qed

section \<open>Sorting\<close>

text \<open>Sorting one half leaves the other half as it is.\<close>

lemma length_replace_seg:
  "0 \<le> i \<Longrightarrow> i \<le> j + 1 \<Longrightarrow> j < int (length arr) \<Longrightarrow> length xs = nat (j + 1) - nat i \<Longrightarrow>
     length (replace_seg arr i j xs) = length arr"
  by (simp add: replace_seg_def)

lemma replace_seg_split:
  assumes "0 \<le> l" "l \<le> m" "m \<le> r" "r < int (length arr)"
    "length xs = nat (m + 1) - nat l" "length ys = nat (r + 1) - nat (m + 1)"
  shows "replace_seg (replace_seg arr l m xs) (m + 1) r ys = replace_seg arr l r (xs @ ys)"
    "replace_seg (replace_seg arr (m + 1) r ys) l m xs = replace_seg arr l r (xs @ ys)"
    "seg (replace_seg arr l m xs) (m + 1) r = seg arr (m + 1) r"
    "seg (replace_seg arr (m + 1) r ys) l m = seg arr l m"
    "seg (replace_seg arr l r (xs @ ys)) l m = xs"
    "seg (replace_seg arr l r (xs @ ys)) (m + 1) r = ys"
    "replace_seg (replace_seg arr l r (xs @ ys)) l r zs = replace_seg arr l r zs"
    "seg arr l r = seg arr l m @ seg arr (m + 1) r"
proof -
  obtain a b c where abc: "nat l = a" "nat (m + 1) = a + b" "nat (r + 1) = a + b + c" "a + b + c \<le> length arr"
    using assms that [of "nat l" "nat (m + 1) - nat l" "nat (r + 1) - nat (m + 1)"] by simp
  obtain p x y q where arr: "arr = p @ x @ y @ q" and n: "length p = a" "length x = b" "length y = c"
  proof (rule that)
    show "arr = take a arr @ take b (drop a arr) @ take c (drop b (drop a arr)) @ drop c (drop b (drop a arr))"
      by (simp only: append_take_drop_id)
  qed (use abc(4) in auto)
  have m: "length xs = length x" "length ys = length y" using assms(5,6) abc n by simp_all
  show "replace_seg (replace_seg arr l m xs) (m + 1) r ys = replace_seg arr l r (xs @ ys)"
    "replace_seg (replace_seg arr (m + 1) r ys) l m xs = replace_seg arr l r (xs @ ys)"
    "seg (replace_seg arr l m xs) (m + 1) r = seg arr (m + 1) r"
    "seg (replace_seg arr (m + 1) r ys) l m = seg arr l m"
    "seg (replace_seg arr l r (xs @ ys)) l m = xs"
    "seg (replace_seg arr l r (xs @ ys)) (m + 1) r = ys"
    "replace_seg (replace_seg arr l r (xs @ ys)) l r zs = replace_seg arr l r zs"
    "seg arr l r = seg arr l m @ seg arr (m + 1) r"
    unfolding replace_seg_def seg_def abc arr by (simp_all add: m flip: n)
qed

lemma replace_seg_id:
  assumes "0 \<le> i" "i \<le> j + 1"
  shows "replace_seg arr i j (seg arr i j) = arr"
proof -
  have "nat (j + 1) = (nat (j + 1) - nat i) + nat i" using assms by simp
  then have "drop (nat (j + 1)) arr = drop (nat (j + 1) - nat i) (drop (nat i) arr)" by (metis drop_drop)
  then show ?thesis unfolding replace_seg_def seg_def by (simp only: append_take_drop_id)
qed

lemma merge_sort_seg:
  assumes "0 \<le> left" "left \<le> right + 1" "right < int (length arr)"
  shows "merge_sort f arr left right d dmax = Some (replace_seg arr left right (sort (seg arr left right)))"
  using assms
proof (induction f arr left right d dmax rule: merge_sort.induct)
  case (1 f arr left right d dmax)
  show ?case
  proof (cases "left \<ge> right")
    case True
    then have "length (seg arr left right) \<le> 1" using "1.prems" by (subst length_seg) auto
    then have "sort (seg arr left right) = seg arr left right" by (intro sorted_sort_id sorted01)
    moreover have "replace_seg arr left right (seg arr left right) = arr" using "1.prems" by (simp add: replace_seg_id)
    ultimately show ?thesis using True by (subst merge_sort.simps) simp
  next
    case False
    define mid where "mid = left + (right - left) div 2"
    have mid: "0 \<le> left" "left \<le> mid" "mid < right" "mid \<le> right" "right < int (length arr)" using False "1.prems" by (auto simp: mid_def)
    let ?xs = "sort (seg arr left mid)" and ?ys = "sort (seg arr (mid + 1) right)"
    have n: "length ?xs = nat (mid + 1) - nat left" "length ?ys = nat (right + 1) - nat (mid + 1)"
      using mid by (simp_all add: length_seg)
    note split = replace_seg_split [OF mid(1,2,4,5) n]
    have len: "length (replace_seg arr left mid ?xs) = length arr" "length (replace_seg arr (mid + 1) right ?ys) = length arr"
      "length (replace_seg arr left right (?xs @ ?ys)) = length arr"
      using mid n by (simp_all add: length_replace_seg)
    note IH = "1.IH" [OF False mid_def]
    have left_first: "merge_sort f arr left mid (d + 1) dmax = Some (replace_seg arr left mid ?xs)"
      "merge_sort f (replace_seg arr left mid ?xs) (mid + 1) right (d + 1) dmax = Some (replace_seg arr left right (?xs @ ?ys))"
      if "\<not> (d < dmax \<and> f left right)"
      using IH(3) [OF that] IH(4) [OF that, of "replace_seg arr left mid ?xs"] mid len split by simp_all
    have right_first: "merge_sort f arr (mid + 1) right (d + 1) dmax = Some (replace_seg arr (mid + 1) right ?ys)"
      "merge_sort f (replace_seg arr (mid + 1) right ?ys) left mid (d + 1) dmax = Some (replace_seg arr left right (?xs @ ?ys))"
      if "d < dmax \<and> f left right"
      using IH(1) [OF that] IH(2) [OF that, of "replace_seg arr (mid + 1) right ?ys"] mid len split by simp_all
    have "merge_sort f arr left right d dmax = merge (replace_seg arr left right (?xs @ ?ys)) left mid right"
      using False left_first right_first by (subst merge_sort.simps) (simp add: Let_def mid_def [symmetric])
    also have "\<dots> = Some (replace_seg arr left right (sort (seg arr left right)))"
      using mid len by (simp add: merge_seg split merge_ref_sort)
    finally show ?thesis .
  qed
qed

text \<open>
  C13. The parallel merge sort returns the sorted array: for every array, every depth limit and either
  order of the two halves at every parallel level, it ends, makes no access out of range and its
  result is the sorted permutation of the input.
\<close>
theorem merge_sort_sorts: "ParallelMergeSort_sort right_first max_depth arr = Some (sort arr)"
proof -
  have "seg arr 0 (int (length arr) - 1) = arr" by (simp add: seg_def)
  then show ?thesis
    unfolding ParallelMergeSort_sort_def by (subst merge_sort_seg) (simp_all add: replace_seg_def)
qed

end
