(* ===== verification/Tries.thy ===== *)
theory Tries
  imports Cxx_Streams "HOL-Library.Monad_Syntax" "HOL-Library.Sublist" "HOL-Library.Multiset"
begin

text \<open>
  The tries of \<^verbatim>\<open>Trie/\<close> that are indexed by the letters of a word: the prefix tree with frequencies and
  the dictionary of \<^verbatim>\<open>replaceWords\<close>. Both walk down an array of 26 children; an index outside the array
  is undefined and is the value \<^const>\<open>None\<close>. A node has one parent, so a pointer is the subtree it leads
  to, and a null pointer is an absent subtree.
\<close>

section \<open>Walks\<close>

text \<open>
  A node with its data and its children. The function \<open>key\<close> gives the index of a character, if it has
  one. The two walks of the tries: to the node of a word, and along a word, creating nodes that are
  missing, changing the data of every node below the root and then that of the last node.
\<close>

datatype ('k, 'a) TrieNode = TrieNode (data: 'a) (children: "'k \<Rightarrow> ('k, 'a) TrieNode option")

fun findNode :: "('c \<Rightarrow> 'k option) \<Rightarrow> 'c list \<Rightarrow> ('k, 'a) TrieNode \<Rightarrow> ('k, 'a) TrieNode option option" where
  "findNode key [] p = Some (Some p)"
| "findNode key (ch # word) p =
     do {
       i \<leftarrow> key ch;
       (case children p i of
          None \<Rightarrow> Some None
        | Some q \<Rightarrow> findNode key word q)
     }"

fun insert_walk :: "('c \<Rightarrow> 'k option) \<Rightarrow> 'a \<Rightarrow> ('a \<Rightarrow> 'a) \<Rightarrow> ('a \<Rightarrow> 'a) \<Rightarrow> 'c list \<Rightarrow> ('k, 'a) TrieNode \<Rightarrow> ('k, 'a) TrieNode option" where
  "insert_walk key d pass stop [] p = Some (TrieNode (stop (data p)) (children p))"
| "insert_walk key d pass stop (ch # word) p =
     do {
       i \<leftarrow> key ch;
       let q = (case children p i of None \<Rightarrow> TrieNode d (\<lambda>_. None) | Some q \<Rightarrow> q);
       q \<leftarrow> insert_walk key d pass stop word (TrieNode (pass (data q)) (children q));
       Some (TrieNode (data p) ((children p)(i \<mapsto> q)))
     }"

text \<open>The walk of \<^verbatim>\<open>erase\<close>, which dereferences every child without a check.\<close>

fun update_walk :: "('c \<Rightarrow> 'k option) \<Rightarrow> ('a \<Rightarrow> 'a) \<Rightarrow> ('a \<Rightarrow> 'a) \<Rightarrow> 'c list \<Rightarrow> ('k, 'a) TrieNode \<Rightarrow> ('k, 'a) TrieNode option" where
  "update_walk key pass stop [] p = Some (TrieNode (stop (data p)) (children p))"
| "update_walk key pass stop (ch # word) p =
     do {
       i \<leftarrow> key ch;
       q \<leftarrow> children p i;
       q \<leftarrow> update_walk key pass stop word (TrieNode (pass (data q)) (children q));
       Some (TrieNode (data p) ((children p)(i \<mapsto> q)))
     }"

definition data_at :: "('c \<Rightarrow> 'k option) \<Rightarrow> 'c list \<Rightarrow> ('k, 'a) TrieNode \<Rightarrow> 'a option" where
  "data_at key w p = (case findNode key w p of Some (Some q) \<Rightarrow> Some (data q) | _ \<Rightarrow> None)"

lemma data_at_Nil [simp]: "data_at key [] p = Some (data p)"
  by (simp add: data_at_def)

lemma data_at_Cons:
  "data_at key (c # w) p = (case key c of None \<Rightarrow> None | Some i \<Rightarrow> (case children p i of None \<Rightarrow> None | Some q \<Rightarrow> data_at key w q))"
  by (auto simp: data_at_def split: option.splits)

text \<open>
  An alphabet: different characters have different indices. A walk along a word changes the data
  of the prefixes of the word and of nothing else.
\<close>

locale alphabet =
  fixes key :: "'c \<Rightarrow> 'k option"
  assumes key_inj: "key c = Some i \<Longrightarrow> key c' = Some i \<Longrightarrow> c = c'"
begin

definition spelled :: "'c list \<Rightarrow> bool" where
  "spelled w \<longleftrightarrow> (\<forall>c \<in> set w. key c \<noteq> None)"

lemma spelled_Cons: "spelled (c # w) \<longleftrightarrow> (\<exists>i. key c = Some i) \<and> spelled w"
  by (auto simp: spelled_def)

definition walked :: "('a \<Rightarrow> 'a) \<Rightarrow> ('a \<Rightarrow> 'a) \<Rightarrow> 'c list \<Rightarrow> 'c list \<Rightarrow> 'a \<Rightarrow> 'a" where
  "walked pass stop v w a = (if w = v then stop else id) ((if w = [] then id else pass) a)"

lemma walked_Cons: "u \<noteq> [] \<Longrightarrow> walked pass stop (c # v) (c # u) = walked pass stop v u"
  by (auto simp: walked_def fun_eq_iff)

lemma insert_walk_data:
  "spelled v \<Longrightarrow> \<exists>p'. insert_walk key d pass stop v p = Some p' \<and>
     (\<forall>w. data_at key w p' = (if prefix w v then Some (walked pass stop v w (case data_at key w p of None \<Rightarrow> d | Some a \<Rightarrow> a))
        else data_at key w p))"
proof (induction v arbitrary: p)
  case Nil
  have "data_at key w (TrieNode (stop (data p)) (children p)) =
      (if prefix w [] then Some (walked pass stop [] w (case data_at key w p of None \<Rightarrow> d | Some a \<Rightarrow> a)) else data_at key w p)" for w
    by (cases w) (auto simp: walked_def data_at_Cons split: option.split)
  then show ?case by simp
next
  case (Cons c v)
  then obtain i where i: "key c = Some i" and v: "spelled v" by (auto simp: spelled_Cons)
  define q where "q = (case children p i of None \<Rightarrow> TrieNode d (\<lambda>_. None) | Some q \<Rightarrow> q)"
  obtain q' where q': "insert_walk key d pass stop v (TrieNode (pass (data q)) (children q)) = Some q'"
    and IH: "\<And>w. data_at key w q' = (if prefix w v then Some (walked pass stop v w
        (case data_at key w (TrieNode (pass (data q)) (children q)) of None \<Rightarrow> d | Some a \<Rightarrow> a))
        else data_at key w (TrieNode (pass (data q)) (children q)))"
    using Cons.IH [OF v] by blast
  let ?p' = "TrieNode (data p) ((children p)(i \<mapsto> q'))"
  have "data_at key w ?p' = (if prefix w (c # v) then Some (walked pass stop (c # v) w (case data_at key w p of None \<Rightarrow> d | Some a \<Rightarrow> a))
      else data_at key w p)" for w
  proof (cases w)
    case (Cons c' u)
    show ?thesis
    proof (cases "c' = c")
      case True
      have "data_at key w p = (case children p i of None \<Rightarrow> None | Some q \<Rightarrow> data_at key u q)"
        using Cons True i by (simp add: data_at_Cons)
      then show ?thesis
        using Cons True i IH [of u]
        by (cases u) (auto simp: data_at_Cons walked_def q_def split: option.splits)
    next
      case False
      then have "key c' \<noteq> Some i" using key_inj i by blast
      then show ?thesis using Cons False by (auto simp: data_at_Cons split: option.splits)
    qed
  qed (simp add: walked_def)
  then show ?case using i q' by (simp add: q_def)
qed

lemma update_walk_data:
  "data_at key v p \<noteq> None \<Longrightarrow> \<exists>p'. update_walk key pass stop v p = Some p' \<and>
     (\<forall>w. data_at key w p' = (if prefix w v then map_option (walked pass stop v w) (data_at key w p) else data_at key w p))"
proof (induction v arbitrary: p)
  case Nil
  have "data_at key w (TrieNode (stop (data p)) (children p)) =
      (if prefix w [] then map_option (walked pass stop [] w) (data_at key w p) else data_at key w p)" for w
    by (cases w) (auto simp: walked_def data_at_Cons split: option.split)
  then show ?case by simp
next
  case (Cons c v)
  then obtain i q where i: "key c = Some i" and q: "children p i = Some q" and v: "data_at key v q \<noteq> None"
    by (auto simp: data_at_Cons split: option.splits)
  let ?q = "TrieNode (pass (data q)) (children q)"
  have "data_at key v ?q \<noteq> None" using v by (cases v) (auto simp: data_at_Cons split: option.splits)
  from Cons.IH [OF this] obtain q' where q': "update_walk key pass stop v ?q = Some q'"
    and IH: "\<And>w. data_at key w q' = (if prefix w v then map_option (walked pass stop v w) (data_at key w ?q) else data_at key w ?q)"
    by blast
  let ?p' = "TrieNode (data p) ((children p)(i \<mapsto> q'))"
  have "data_at key w ?p' = (if prefix w (c # v) then map_option (walked pass stop (c # v) w) (data_at key w p) else data_at key w p)" for w
  proof (cases w)
    case (Cons c' u)
    show ?thesis
    proof (cases "c' = c")
      case True
      then show ?thesis
        using Cons i q IH [of u] by (cases u) (auto simp: data_at_Cons walked_Cons walked_def [of _ _ _ "[]"] walked_def [of _ _ _ "[_]"] split: option.splits)
    next
      case False
      then have "key c' \<noteq> Some i" using key_inj i by blast
      then show ?thesis using Cons False by (auto simp: data_at_Cons split: option.splits)
    qed
  qed (simp add: walked_def)
  then show ?case using i q q' by simp
qed

lemma findNode_spelled: "spelled w \<Longrightarrow> \<exists>n. findNode key w p = Some n \<and> data_at key w p = map_option data n"
  by (induction w arbitrary: p) (auto simp: spelled_Cons data_at_Cons split: option.splits)

end

section \<open>Letters\<close>

definition ALPHABET_SIZE :: int where
  "ALPHABET_SIZE = 26"

definition letter_index :: "char \<Rightarrow> int option" where
  "letter_index ch = (let idx = int (of_char ch) - 97 in if 0 \<le> idx \<and> idx < ALPHABET_SIZE then Some idx else None)"

interpretation letters: alphabet letter_index
  by unfold_locales (auto simp: letter_index_def Let_def split: if_splits)

abbreviation lower :: "string \<Rightarrow> bool" where
  "lower \<equiv> letters.spelled"

section \<open>Prefix tree with frequencies\<close>

record freq =
  wordCount :: int
  prefixCount :: int

type_synonym freq_trie = "(int, freq) TrieNode"

definition freq_zero :: freq where
  "freq_zero = \<lparr>wordCount = 0, prefixCount = 0\<rparr>"

definition freq_new :: freq_trie where
  "freq_new = TrieNode freq_zero (\<lambda>_. None)"

definition countWordsEqualTo :: "string \<Rightarrow> freq_trie \<Rightarrow> int option" where
  "countWordsEqualTo word t =
     do {
       node \<leftarrow> findNode letter_index word t;
       Some (case node of Some p \<Rightarrow> wordCount (data p) | None \<Rightarrow> 0)
     }"

definition countWordsStartingWith :: "string \<Rightarrow> freq_trie \<Rightarrow> int option" where
  "countWordsStartingWith word t =
     do {
       node \<leftarrow> findNode letter_index word t;
       Some (case node of Some p \<Rightarrow> prefixCount (data p) | None \<Rightarrow> 0)
     }"

definition freq_insert :: "string \<Rightarrow> freq_trie \<Rightarrow> freq_trie option" where
  "freq_insert = insert_walk letter_index freq_zero
     (\<lambda>a. a\<lparr>prefixCount := prefixCount a + 1\<rparr>) (\<lambda>a. a\<lparr>wordCount := wordCount a + 1\<rparr>)"

definition freq_erase :: "string \<Rightarrow> freq_trie \<Rightarrow> freq_trie option" where
  "freq_erase = update_walk letter_index
     (\<lambda>a. a\<lparr>prefixCount := prefixCount a - 1\<rparr>) (\<lambda>a. a\<lparr>wordCount := wordCount a - 1\<rparr>)"

datatype word_op = Insert_word string | Erase_word string

fun freq_run :: "word_op list \<Rightarrow> freq_trie \<Rightarrow> freq_trie option" where
  "freq_run [] t = Some t"
| "freq_run (Insert_word w # ops) t = freq_insert w t \<bind> freq_run ops"
| "freq_run (Erase_word w # ops) t = freq_erase w t \<bind> freq_run ops"

text \<open>The multiset of words a history leaves, provided it erases only words that are present.\<close>

fun words_after :: "word_op list \<Rightarrow> string multiset \<Rightarrow> string multiset option" where
  "words_after [] M = Some M"
| "words_after (Insert_word w # ops) M = (if lower w then words_after ops (add_mset w M) else None)"
| "words_after (Erase_word w # ops) M = (if w \<in># M then words_after ops (M - {#w#}) else None)"

definition counts_ok :: "string multiset \<Rightarrow> string \<Rightarrow> freq \<Rightarrow> bool" where
  "counts_ok M w a \<longleftrightarrow> wordCount a = int (count M w) \<and>
     prefixCount a = (if w = [] then 0 else int (size (filter_mset (prefix w) M)))"

definition freq_rep :: "freq_trie \<Rightarrow> string multiset \<Rightarrow> bool" where
  "freq_rep t M \<longleftrightarrow>
     (\<forall>w. data_at letter_index w t = None \<longrightarrow> filter_mset (prefix w) M = {#}) \<and>
     (\<forall>w a. data_at letter_index w t = Some a \<longrightarrow> counts_ok M w a)"

lemma freq_repD:
  assumes "freq_rep t M"
  shows "data_at letter_index w t = None \<Longrightarrow> filter_mset (prefix w) M = {#}"
    "data_at letter_index w t = Some a \<Longrightarrow> counts_ok M w a"
  using assms unfolding freq_rep_def by blast+

lemma count_no_prefix: "filter_mset (prefix w) M = {#} \<Longrightarrow> count M w = 0"
  by (metis count_filter_mset count_empty prefix_order.refl)

lemma freq_rep_insert:
  assumes "freq_rep t M" "lower v"
  obtains t' where "freq_insert v t = Some t'" "freq_rep t' (add_mset v M)"
proof -
  let ?pass = "\<lambda>a. a\<lparr>prefixCount := prefixCount a + 1\<rparr>" and ?stop = "\<lambda>a. a\<lparr>wordCount := wordCount a + 1\<rparr>"
  let ?old = "\<lambda>w. case data_at letter_index w t of None \<Rightarrow> freq_zero | Some a \<Rightarrow> a"
  obtain t' where t': "freq_insert v t = Some t'" and d: "\<And>w. data_at letter_index w t' =
      (if prefix w v then Some (letters.walked ?pass ?stop v w (?old w)) else data_at letter_index w t)"
    using letters.insert_walk_data [OF assms(2), of freq_zero ?pass ?stop t] unfolding freq_insert_def by blast
  have old: "counts_ok M w (?old w)" for w
  proof (cases "data_at letter_index w t")
    case None
    then show ?thesis using freq_repD(1) [OF assms(1) None] count_no_prefix [of w M] by (simp add: counts_ok_def freq_zero_def)
  qed (simp add: freq_repD(2) [OF assms(1)])
  have "counts_ok (add_mset v M) w (letters.walked ?pass ?stop v w (?old w))" if "prefix w v" for w
    using old [of w] that by (auto simp: counts_ok_def letters.walked_def)
  moreover have "counts_ok (add_mset v M) w a" if "data_at letter_index w t = Some a" "\<not> prefix w v" for w a
    using freq_repD(2) [OF assms(1) that(1)] that(2) by (auto simp: counts_ok_def)
  ultimately have "freq_rep t' (add_mset v M)"
    unfolding freq_rep_def d using freq_repD(1) [OF assms(1)] by (auto split: if_splits)
  with t' that show thesis by blast
qed

lemma freq_rep_erase:
  assumes "freq_rep t M" "v \<in># M"
  obtains t' where "freq_erase v t = Some t'" "freq_rep t' (M - {#v#})"
proof -
  let ?pass = "\<lambda>a. a\<lparr>prefixCount := prefixCount a - 1\<rparr>" and ?stop = "\<lambda>a. a\<lparr>wordCount := wordCount a - 1\<rparr>"
  obtain N where M: "M = add_mset v N" using assms(2) by (metis mset_add)
  have "data_at letter_index v t \<noteq> None" using freq_repD(1) [OF assms(1), of v] by (auto simp: M)
  then obtain t' where t': "freq_erase v t = Some t'" and d: "\<And>w. data_at letter_index w t' =
      (if prefix w v then map_option (letters.walked ?pass ?stop v w) (data_at letter_index w t) else data_at letter_index w t)"
    using letters.update_walk_data [of v t ?pass ?stop] unfolding freq_erase_def by blast
  have "counts_ok N w (letters.walked ?pass ?stop v w a)" if "prefix w v" "counts_ok M w a" for w a
    using that by (auto simp: counts_ok_def letters.walked_def M)
  moreover have "counts_ok N w a" if "counts_ok M w a" "\<not> prefix w v" for w a
    using that by (auto simp: counts_ok_def M)
  moreover have "filter_mset (prefix w) N = {#}" if "data_at letter_index w t = None" for w
    using freq_repD(1) [OF assms(1) that] by (auto simp: M split: if_splits)
  ultimately have "freq_rep t' N"
    unfolding freq_rep_def d using freq_repD(2) [OF assms(1)] by (auto split: if_splits)
  with t' that show thesis by (simp add: M)
qed

lemma freq_rep_run:
  "words_after ops M = Some N \<Longrightarrow> freq_rep t M \<Longrightarrow> \<exists>t'. freq_run ops t = Some t' \<and> freq_rep t' N"
proof (induction ops M arbitrary: t rule: words_after.induct)
  case (2 w ops M)
  then have "lower w" by (auto split: if_splits)
  from freq_rep_insert [OF "2.prems"(2) this] obtain t' where "freq_insert w t = Some t'" "freq_rep t' (add_mset w M)" .
  with 2 show ?case by (auto split: if_splits)
next
  case (3 w ops M)
  then have "w \<in># M" by (auto split: if_splits)
  from freq_rep_erase [OF "3.prems"(2) this] obtain t' where "freq_erase w t = Some t'" "freq_rep t' (M - {#w#})" .
  with 3 show ?case by (auto split: if_splits)
qed simp

lemma freq_rep_new: "freq_rep freq_new {#}"
proof -
  have "data_at letter_index w freq_new = (if w = [] then Some freq_zero else None)" for w
    by (cases w) (auto simp: freq_new_def data_at_Cons split: option.splits)
  then show ?thesis by (simp add: freq_rep_def counts_ok_def freq_zero_def)
qed

text \<open>
  C36. After any history of inserted lower-case words and erased words that were present, no walk
  leaves the trie, the count of a word is the number of its occurrences left, and the count of a
  non-empty prefix is the number of words left that begin with it. The empty prefix counts 0.
\<close>
theorem trie_counts:
  assumes "words_after ops {#} = Some M"
  shows "\<exists>t. freq_run ops freq_new = Some t \<and>
    (\<forall>w. lower w \<longrightarrow> countWordsEqualTo w t = Some (int (count M w)) \<and>
      countWordsStartingWith w t = Some (if w = [] then 0 else int (size (filter_mset (prefix w) M))))"
proof -
  obtain t where t: "freq_run ops freq_new = Some t" "freq_rep t M" using freq_rep_run [OF assms freq_rep_new] by blast
  have "countWordsEqualTo w t = Some (int (count M w)) \<and>
      countWordsStartingWith w t = Some (if w = [] then 0 else int (size (filter_mset (prefix w) M)))" if w: "lower w" for w
  proof -
    obtain n where n: "findNode letter_index w t = Some n" "data_at letter_index w t = map_option data n"
      using letters.findNode_spelled [OF w] by blast
    show ?thesis
    proof (cases n)
      case None
      then have "filter_mset (prefix w) M = {#}" using freq_repD(1) [OF t(2)] n by simp
      then show ?thesis using None n count_no_prefix [of w M]
        by (simp add: countWordsEqualTo_def countWordsStartingWith_def)
    next
      case (Some p)
      then have "counts_ok M w (data p)" using freq_repD(2) [OF t(2)] n by simp
      then show ?thesis using Some n by (simp add: counts_ok_def countWordsEqualTo_def countWordsStartingWith_def)
    qed
  qed
  with t(1) show ?thesis by blast
qed

theorem trie_counts_witness:
  "\<exists>t. freq_run [Insert_word ''apple'', Insert_word ''app'', Insert_word ''apple'', Erase_word ''apple''] freq_new = Some t \<and>
     countWordsEqualTo ''apple'' t = Some 1 \<and> countWordsStartingWith ''app'' t = Some 2"
proof -
  have "words_after [Insert_word ''apple'', Insert_word ''app'', Insert_word ''apple'', Erase_word ''apple''] {#} =
      Some {#''app'', ''apple''#}"
    by (simp add: letters.spelled_def letter_index_def ALPHABET_SIZE_def)
  from trie_counts [OF this] obtain t
    where t: "freq_run [Insert_word ''apple'', Insert_word ''app'', Insert_word ''apple'', Erase_word ''apple''] freq_new = Some t"
      and c: "\<And>w. lower w \<Longrightarrow> countWordsEqualTo w t = Some (int (count {#''app'', ''apple''#} w)) \<and>
        countWordsStartingWith w t = Some (if w = [] then 0 else int (size (filter_mset (prefix w) {#''app'', ''apple''#})))"
    by blast
  have "lower ''apple''" "lower ''app''" by (simp_all add: letters.spelled_def letter_index_def ALPHABET_SIZE_def)
  from c [OF this(1)] c [OF this(2)] t show ?thesis by (intro exI [of _ t]) simp
qed

section \<open>Replacing words by dictionary prefixes\<close>

type_synonym dict_trie = "(int, bool) TrieNode"

definition dict_new :: dict_trie where
  "dict_new = TrieNode False (\<lambda>_. None)"

text \<open>The loop of \<^verbatim>\<open>findRoot\<close>; it gives \<^const>\<open>None\<close> inside when it ends without finding a prefix.\<close>

fun root_walk :: "dict_trie \<Rightarrow> string \<Rightarrow> string \<Rightarrow> string option option" where
  "root_walk p result [] = Some None"
| "root_walk p result (ch # word) =
     do {
       idx \<leftarrow> letter_index ch;
       (case children p idx of
          None \<Rightarrow> Some None
        | Some p \<Rightarrow>
            let result = result @ [ch]
            in if data p then Some (Some result) else root_walk p result word)
     }"

definition findRoot :: "string \<Rightarrow> dict_trie \<Rightarrow> string option" where
  "findRoot word root =
     do {
       r \<leftarrow> root_walk root [] word;
       Some (case r of Some result \<Rightarrow> result | None \<Rightarrow> word)
     }"

definition dict_insert :: "string \<Rightarrow> dict_trie \<Rightarrow> dict_trie option" where
  "dict_insert = insert_walk letter_index False id (\<lambda>_. True)"

fun dict_insert_all :: "string list \<Rightarrow> dict_trie \<Rightarrow> dict_trie option" where
  "dict_insert_all [] t = Some t"
| "dict_insert_all (word # dict) t = dict_insert word t \<bind> dict_insert_all dict"

text \<open>The loop \<^verbatim>\<open>while (ss >> word)\<close>.\<close>

function replace_loop :: "dict_trie \<Rightarrow> istream \<Rightarrow> string \<Rightarrow> string \<Rightarrow> string option" where
  "replace_loop root ss word result =
     (case read_word ss word of
        (_, None) \<Rightarrow> Some result
      | (word, Some rest) \<Rightarrow>
          do {
            let result = (if result \<noteq> [] then result @ '' '' else result);
            r \<leftarrow> findRoot word root;
            replace_loop root (Some rest) word (result @ r)
          })"
  by pat_completeness auto
termination
  by (relation "measure (\<lambda>(root, ss, word, result). istream_size ss)") (auto dest!: read_word_size_Some [OF sym])

declare replace_loop.simps [simp del]

definition replaceWords :: "string list \<Rightarrow> string \<Rightarrow> dict_trie \<Rightarrow> string option" where
  "replaceWords dict sentence root =
     do {
       root \<leftarrow> dict_insert_all dict root;
       replace_loop root (Some sentence) [] []
     }"

text \<open>A dictionary trie marks exactly the words inserted.\<close>

definition dict_rep :: "dict_trie \<Rightarrow> string set \<Rightarrow> bool" where
  "dict_rep t D \<longleftrightarrow> (\<forall>w. data_at letter_index w t = Some True \<longleftrightarrow> w \<in> D)"

lemma dict_rep_insert:
  assumes "dict_rep t D" "lower v"
  shows "\<exists>t'. dict_insert v t = Some t' \<and> dict_rep t' (insert v D)"
proof -
  obtain t' where t': "dict_insert v t = Some t'" and d: "\<And>w. data_at letter_index w t' =
      (if prefix w v then Some (letters.walked id (\<lambda>_. True) v w (case data_at letter_index w t of None \<Rightarrow> False | Some a \<Rightarrow> a))
       else data_at letter_index w t)"
    using letters.insert_walk_data [OF assms(2), of False id "\<lambda>_. True" t] unfolding dict_insert_def by blast
  have "data_at letter_index w t' = Some True \<longleftrightarrow> w = v \<or> data_at letter_index w t = Some True" for w
    unfolding d by (auto simp: letters.walked_def split: option.splits)
  then show ?thesis using t' assms(1) by (auto simp: dict_rep_def)
qed

lemma dict_rep_insert_all:
  "list_all lower ws \<Longrightarrow> dict_rep t D \<Longrightarrow> \<exists>t'. dict_insert_all ws t = Some t' \<and> dict_rep t' (D \<union> set ws)"
proof (induction ws arbitrary: t D)
  case (Cons w ws)
  then obtain t' where t': "dict_insert w t = Some t'" "dict_rep t' (insert w D)" using dict_rep_insert by fastforce
  with Cons.IH [OF _ t'(2)] Cons.prems(1) show ?case by auto
qed simp

lemma dict_rep_new: "dict_rep dict_new {}"
proof -
  have "data_at letter_index w dict_new = (if w = [] then Some False else None)" for w
    by (cases w) (auto simp: dict_new_def data_at_Cons split: option.splits)
  then show ?thesis by (simp add: dict_rep_def)
qed

text \<open>The shortest non-empty prefix of a word in the dictionary, or the word.\<close>

definition shortest_root :: "string set \<Rightarrow> string \<Rightarrow> string" where
  "shortest_root D w =
     (case List.find (\<lambda>n. take n w \<in> D) [1..<Suc (length w)] of None \<Rightarrow> w | Some n \<Rightarrow> take n w)"

lemma find_upt_Suc: "List.find P [Suc m..<Suc n] = map_option Suc (List.find (P \<circ> Suc) [m..<n])"
proof -
  have "List.find P (map Suc xs) = map_option Suc (List.find (P \<circ> Suc) xs)" for xs by (induction xs) auto
  then show ?thesis by (simp add: map_Suc_upt [symmetric] del: upt_Suc)
qed

lemma root_walk_find:
  "lower w \<Longrightarrow> root_walk p u w =
     Some (map_option (\<lambda>n. u @ take n w) (List.find (\<lambda>n. data_at letter_index (take n w) p = Some True) [1..<Suc (length w)]))"
proof (induction w arbitrary: p u)
  case (Cons c w)
  then obtain i where i: "letter_index c = Some i" and w: "lower w" by (auto simp: letters.spelled_Cons)
  let ?P = "\<lambda>p n. data_at letter_index (take n (c # w)) p = Some True"
  have split: "[1..<Suc (length (c # w))] = 1 # [Suc 1..<Suc (Suc (length w))]" by (simp add: upt_conv_Cons del: upt_Suc)
  have find: "List.find (?P p) [1..<Suc (length (c # w))] =
      (if ?P p 1 then Some 1 else map_option Suc (List.find (?P p \<circ> Suc) [1..<Suc (length w)]))"
    unfolding split by (simp only: find.simps find_upt_Suc)
  show ?case
  proof (cases "children p i")
    case None
    then have no: "\<not> ?P p (Suc n)" for n using i by (simp add: data_at_Cons)
    then have "List.find (?P p) [1..<Suc (length (c # w))] = None"
      unfolding find_None_iff by (auto simp: Suc_le_eq gr0_conv_Suc simp del: take_Suc_Cons upt_Suc)
    then show ?thesis using i None by simp
  next
    case (Some q)
    then have "(?P p \<circ> Suc) = (\<lambda>n. data_at letter_index (take n w) q = Some True)" "?P p 1 \<longleftrightarrow> data q"
      using i by (auto simp: data_at_Cons fun_eq_iff)
    then show ?thesis unfolding find using i Some Cons.IH [OF w, of q "u @ [c]"]
      by (auto simp: option.map_comp o_def simp del: upt_Suc)
  qed
qed simp

lemma findRoot_shortest: "dict_rep t D \<Longrightarrow> lower w \<Longrightarrow> findRoot w t = Some (shortest_root D w)"
  by (auto simp: findRoot_def root_walk_find dict_rep_def shortest_root_def simp del: upt_Suc split: option.splits)

fun join_words :: "string list \<Rightarrow> string" where
  "join_words [] = []"
| "join_words [w] = w"
| "join_words (w # v # ws) = w @ '' '' @ join_words (v # ws)"

definition plain_word :: "string \<Rightarrow> bool" where
  "plain_word w \<longleftrightarrow> w \<noteq> [] \<and> lower w"

lemma plain_word_is_word: "plain_word w \<Longrightarrow> is_word w"
  by (auto simp: plain_word_def is_word_def letters.spelled_def letter_index_def Let_def is_ws_def ALPHABET_SIZE_def split: if_splits)

lemma shortest_root_nonempty: "w \<noteq> [] \<Longrightarrow> shortest_root D w \<noteq> []"
  by (auto simp: shortest_root_def find_Some_iff simp del: upt_Suc split: option.splits)

lemma join_words_Cons: "join_words (w # ws) = w @ (if ws = [] then [] else '' '' @ join_words ws)"
  by (cases ws) auto

lemma replace_loop_rest:
  assumes "dict_rep t D" "list_all plain_word ws" "result \<noteq> []"
  shows "replace_loop t (Some (if ws = [] then [] else '' '' @ join_words ws)) old result =
    Some (result @ (if ws = [] then [] else '' '' @ join_words (map (shortest_root D) ws)))"
  using assms(2,3)
proof (induction ws arbitrary: old result)
  case Nil
  have "read_word (Some []) old = (old, None)" by (rule read_word_blank) simp
  then show ?case by (subst replace_loop.simps) simp
next
  case (Cons w ws)
  let ?r = "if ws = [] then [] else '' '' @ join_words ws"
  have w: "is_word w" "lower w" using Cons.prems(1) by (auto simp: plain_word_is_word plain_word_def)
  have "read_word (Some ('' '' @ w @ ?r)) old = (w, Some ?r)" by (rule read_word_word [OF _ w(1)]) auto
  moreover have "replace_loop t (Some ?r) w (result @ '' '' @ shortest_root D w) =
      Some ((result @ '' '' @ shortest_root D w) @ (if ws = [] then [] else '' '' @ join_words (map (shortest_root D) ws)))"
    using Cons.prems by (intro Cons.IH) auto
  ultimately show ?case
    using Cons.prems(2) findRoot_shortest [OF assms(1) w(2)] by (subst replace_loop.simps) (simp add: join_words_Cons)
qed

text \<open>
  For a dictionary of lower-case words and a sentence of lower-case words, \<^verbatim>\<open>replaceWords\<close> on a new
  trie returns the sentence in which each word is replaced by its shortest non-empty prefix in the
  dictionary, and by itself if it has none.
\<close>
theorem replace_words_shortest:
  assumes "list_all lower dict" "list_all plain_word ws"
  shows "replaceWords dict (join_words ws) dict_new = Some (join_words (map (shortest_root (set dict)) ws))"
proof -
  obtain t where t: "dict_insert_all dict dict_new = Some t" "dict_rep t (set dict)"
    using dict_rep_insert_all [OF assms(1) dict_rep_new] by auto
  have "replace_loop t (Some (join_words ws)) [] [] = Some (join_words (map (shortest_root (set dict)) ws))"
  proof (cases ws)
    case Nil
    have "read_word (Some []) [] = ([], None)" by (rule read_word_blank) simp
    then show ?thesis using Nil by (subst replace_loop.simps) simp
  next
    case (Cons w vs)
    let ?r = "if vs = [] then [] else '' '' @ join_words vs"
    have w: "is_word w" "lower w" "w \<noteq> []" "list_all plain_word vs"
      using assms(2) Cons by (auto simp: plain_word_is_word plain_word_def)
    have "read_word (Some ([] @ w @ ?r)) [] = (w, Some ?r)" by (rule read_word_word [OF _ w(1)]) auto
    then show ?thesis
      using findRoot_shortest [OF t(2) w(2)] replace_loop_rest [OF t(2) w(4) shortest_root_nonempty [OF w(3)], of w] Cons
      by (subst replace_loop.simps) (simp add: join_words_Cons)
  qed
  with t(1) show ?thesis by (simp add: replaceWords_def)
qed

theorem replace_words_shortest_witness:
  "replaceWords [''cat'', ''rat''] ''the cattle'' dict_new = Some ''the cat''"
proof -
  have "list_all lower [''cat'', ''rat'']" "list_all plain_word [''the'', ''cattle'']"
    by (simp_all add: plain_word_def letters.spelled_def letter_index_def ALPHABET_SIZE_def)
  from replace_words_shortest [OF this]
  show ?thesis by (simp add: shortest_root_def upt_rec)
qed

end
