(* ===== verification/Max_XOR.thy ===== *)
theory Max_XOR
  imports Tries "HOL-Library.Word"
begin

text \<open>
  The bitwise trie of \<^verbatim>\<open>Trie/maximum_XOR_of_2_numbers.cpp\<close>: numbers are 32-bit words, a path is the bits
  of a number from the most significant one. The theory shows that the greedy search finds the
  greatest exclusive or of two numbers of an array without negative numbers.
\<close>

unbundle bit_operations_syntax

type_synonym bit_trie = "(bool, unit) TrieNode"

definition bit_new :: bit_trie where
  "bit_new = TrieNode () (\<lambda>_. None)"

text \<open>\<^verbatim>\<open>(num >> bit) & 1\<close> for \<^verbatim>\<open>bit\<close> from 31 down to 0.\<close>

definition num_bit :: "32 word \<Rightarrow> nat \<Rightarrow> bool" where
  "num_bit num k \<longleftrightarrow> signed_drop_bit k num AND 1 = 1"

definition down_from :: "nat \<Rightarrow> nat list" where
  "down_from n = rev [0..<n]"

definition xor_insert :: "32 word \<Rightarrow> bit_trie \<Rightarrow> bit_trie option" where
  "xor_insert num = insert_walk Some () id id (map (num_bit num) (down_from 32))"

text \<open>The loop of \<^verbatim>\<open>getMaxXOR\<close>; the pointer \<^verbatim>\<open>p\<close> may become null, and then following it is undefined.\<close>

fun max_walk :: "nat list \<Rightarrow> 32 word \<Rightarrow> 32 word \<Rightarrow> bit_trie option \<Rightarrow> 32 word option" where
  "max_walk [] num ans p = Some ans"
| "max_walk (k # ks) num ans None = None"
| "max_walk (k # ks) num ans (Some p) =
     (let b = num_bit num k; opposite = (\<not> b)
      in case children p opposite of
           Some q \<Rightarrow> max_walk ks num (ans OR push_bit k 1) (Some q)
         | None \<Rightarrow> max_walk ks num ans (children p b))"

definition getMaxXOR :: "32 word \<Rightarrow> bit_trie \<Rightarrow> 32 word option" where
  "getMaxXOR num root = max_walk (down_from 32) num 0 (Some root)"

definition signed_max :: "32 word \<Rightarrow> 32 word \<Rightarrow> 32 word" where
  "signed_max a b = (if sint a < sint b then b else a)"

fun xor_insert_all :: "32 word list \<Rightarrow> bit_trie \<Rightarrow> bit_trie option" where
  "xor_insert_all [] root = Some root"
| "xor_insert_all (num # nums) root = xor_insert num root \<bind> xor_insert_all nums"

fun max_loop :: "32 word list \<Rightarrow> 32 word \<Rightarrow> bit_trie \<Rightarrow> 32 word option" where
  "max_loop [] ans root = Some ans"
| "max_loop (num # nums) ans root =
     do {
       x \<leftarrow> getMaxXOR num root;
       max_loop nums (signed_max ans x) root
     }"

definition findMaximumXOR :: "32 word list \<Rightarrow> 32 word option" where
  "findMaximumXOR nums =
     do {
       root \<leftarrow> xor_insert_all nums bit_new;
       max_loop nums 0 root
     }"

section \<open>The numbers in a trie\<close>

interpretation bits: alphabet "Some :: bool \<Rightarrow> bool option"
  by unfold_locales simp

text \<open>The paths below a node are the prefixes of a set of bit strings.\<close>

definition paths :: "bit_trie \<Rightarrow> bool list set \<Rightarrow> bool" where
  "paths p S \<longleftrightarrow> (\<forall>w. data_at Some w p \<noteq> None \<longleftrightarrow> w = [] \<or> (\<exists>v \<in> S. prefix w v))"

lemma paths_insert:
  assumes "paths p S"
  obtains p' where "insert_walk Some () id id v p = Some p'" "paths p' (insert v S)"
proof -
  have "bits.spelled v" by (simp add: bits.spelled_def)
  from bits.insert_walk_data [OF this, of "()" id id p] obtain p' where p': "insert_walk Some () id id v p = Some p'"
    and d: "\<And>w. data_at Some w p' = (if prefix w v then Some (bits.walked id id v w (case data_at Some w p of None \<Rightarrow> () | Some a \<Rightarrow> a))
        else data_at Some w p)" by blast
  have "paths p' (insert v S)" using assms unfolding paths_def d by auto
  with p' that show thesis by blast
qed

lemma Cons_prefix_iff: "prefix (b # w) v \<longleftrightarrow> (\<exists>u. v = b # u \<and> prefix w u)"
  by (cases v) auto

lemma paths_child: "paths p S \<Longrightarrow> children p b = Some q \<Longrightarrow> {v. b # v \<in> S} \<noteq> {} \<and> paths q {v. b # v \<in> S}"
proof -
  assume a: "paths p S" "children p b = Some q"
  have "data_at Some w q \<noteq> None \<longleftrightarrow> (\<exists>v. b # v \<in> S \<and> prefix w v)" for w
  proof -
    have "data_at Some w q \<noteq> None \<longleftrightarrow> data_at Some (b # w) p \<noteq> None" using a(2) by (simp add: data_at_Cons)
    also have "\<dots> \<longleftrightarrow> (\<exists>v \<in> S. prefix (b # w) v)" using a(1) by (simp add: paths_def)
    also have "\<dots> \<longleftrightarrow> (\<exists>v. b # v \<in> S \<and> prefix w v)" by (auto simp: Cons_prefix_iff)
    finally show ?thesis .
  qed
  note * = this
  have "{v. b # v \<in> S} \<noteq> {}" using * [of "[]"] by auto
  then show ?thesis unfolding paths_def using * by auto
qed

lemma paths_no_child: "paths p S \<Longrightarrow> children p b = None \<Longrightarrow> b # v \<notin> S"
proof
  assume a: "paths p S" "children p b = None" "b # v \<in> S"
  then have "data_at Some [b] p \<noteq> None" unfolding paths_def by fastforce
  then show False using a(2) by (simp add: data_at_Cons)
qed

section \<open>The greedy search\<close>

lemma num_bit_bit: "k < 32 \<Longrightarrow> num_bit num k \<longleftrightarrow> bit num k"
proof -
  assume "k < 32"
  have "num_bit num k \<longleftrightarrow> bit (signed_drop_bit k num) 0"
    unfolding num_bit_def by (simp add: and_one_eq odd_iff_mod_2_eq_one bit_0)
  also have "\<dots> \<longleftrightarrow> bit num k" using \<open>k < 32\<close> by (simp add: bit_signed_drop_bit_iff)
  finally show ?thesis .
qed

text \<open>The exclusive or of a number and a bit string, from a list of positions.\<close>

fun xor_val :: "nat list \<Rightarrow> 32 word \<Rightarrow> bool list \<Rightarrow> nat" where
  "xor_val (k # ks) num (b # v) = (if num_bit num k \<noteq> b then 2 ^ k else 0) + xor_val ks num v"
| "xor_val _ _ _ = 0"

lemma down_from_Suc: "down_from (Suc n) = n # down_from n"
  by (simp add: down_from_def)

lemma length_down_from: "length (down_from n) = n"
  by (simp add: down_from_def)

lemma xor_val_bound: "xor_val (down_from n) num v < 2 ^ n"
proof (induction n arbitrary: v)
  case (Suc n)
  then show ?case
  proof (cases v)
    case (Cons b u)
    then show ?thesis using Suc [of u] by (simp add: down_from_Suc)
  qed (simp add: down_from_Suc)
qed (simp add: down_from_def)

lemma or_push_bit: "take_bit (Suc k) (ans :: 32 word) = 0 \<Longrightarrow> k < 32 \<Longrightarrow> ans OR push_bit k 1 = ans + 2 ^ k \<and> take_bit k (ans + 2 ^ k) = 0"
proof -
  assume a: "take_bit (Suc k) ans = 0" "k < 32"
  then have z: "\<not> bit ans j" if "j \<le> k" for j
    using that bit_take_bit_iff [of "Suc k" ans j] by (auto simp: less_Suc_eq_le)
  have "ans AND push_bit k 1 = 0"
    by (rule bit_eqI) (use z in \<open>auto simp: bit_and_iff bit_exp_iff\<close>)
  then have o: "ans OR push_bit k 1 = ans + push_bit k 1" by (simp add: disjunctive_add_eq_or)
  moreover have "take_bit k (ans OR push_bit k 1) = 0"
    by (rule bit_eqI) (use z in \<open>auto simp: bit_take_bit_iff bit_or_iff bit_exp_iff\<close>)
  ultimately show ?thesis by (simp add: push_bit_eq_mult)
qed

lemma max_walk_greatest:
  assumes "paths p S" "S \<noteq> {}" "\<forall>v \<in> S. length v = n" "n \<le> 32" "take_bit n ans = 0"
  shows "\<exists>v \<in> S. max_walk (down_from n) num ans (Some p) = Some (ans + of_nat (xor_val (down_from n) num v)) \<and>
    (\<forall>u \<in> S. xor_val (down_from n) num u \<le> xor_val (down_from n) num v)"
  using assms
proof (induction n arbitrary: p S ans)
  case 0
  then have "S = {[]}" by auto
  then show ?case by (simp add: down_from_def)
next
  case (Suc n)
  let ?b = "num_bit num n"
  have n: "n < 32" using Suc.prems(4) by simp
  show ?case
  proof (cases "children p (\<not> ?b)")
    case (Some q)
    let ?S = "{v. (\<not> ?b) # v \<in> S}"
    note q = paths_child [OF Suc.prems(1) Some] and o = or_push_bit [OF Suc.prems(5) n]
    have len: "\<forall>v \<in> ?S. length v = n" using Suc.prems(3) by fastforce
    obtain v where v: "v \<in> ?S" and r: "max_walk (down_from n) num (ans + 2 ^ n) (Some q) = Some (ans + 2 ^ n + of_nat (xor_val (down_from n) num v))"
      and m: "\<forall>u \<in> ?S. xor_val (down_from n) num u \<le> xor_val (down_from n) num v"
      using Suc.IH [OF conjunct2 [OF q] conjunct1 [OF q] len _ conjunct2 [OF o]] n by fastforce
    have "xor_val (n # down_from n) num u \<le> xor_val (n # down_from n) num ((\<not> ?b) # v)" if "u \<in> S" for u
    proof (cases u)
      case (Cons c w)
      then show ?thesis using m that xor_val_bound [of n num w] by (cases "c = ?b") auto
    qed simp
    moreover have "max_walk (n # down_from n) num ans (Some p) = Some (ans + of_nat (xor_val (n # down_from n) num ((\<not> ?b) # v)))"
      using Some o r by (simp add: Let_def add.assoc)
    ultimately show ?thesis using v unfolding down_from_Suc by blast
  next
    case None
    let ?S = "{v. ?b # v \<in> S}"
    have S: "\<exists>w. u = ?b # w \<and> w \<in> ?S" if "u \<in> S" for u
    proof -
      have "length u = Suc n" using Suc.prems(3) that by blast
      then obtain c w where "u = c # w" by (cases u) auto
      then show ?thesis using that paths_no_child [OF Suc.prems(1) None, of w] by (cases "c = ?b") auto
    qed
    then obtain w where "?b # w \<in> S" using Suc.prems(2) by fastforce
    then obtain q where some: "children p ?b = Some q" using paths_no_child [OF Suc.prems(1)] by fastforce
    note q = paths_child [OF Suc.prems(1) some]
    have len: "\<forall>v \<in> ?S. length v = n" using Suc.prems(3) by fastforce
    have zero: "take_bit n ans = 0"
    proof -
      have "take_bit n (take_bit (Suc n) ans) = take_bit n ans" by (simp add: min_def)
      then show ?thesis using Suc.prems(5) by simp
    qed
    obtain v where v: "v \<in> ?S" and r: "max_walk (down_from n) num ans (Some q) = Some (ans + of_nat (xor_val (down_from n) num v))"
      and m: "\<forall>u \<in> ?S. xor_val (down_from n) num u \<le> xor_val (down_from n) num v"
      using Suc.IH [OF conjunct2 [OF q] conjunct1 [OF q] len _ zero] n by fastforce
    have "xor_val (n # down_from n) num u \<le> xor_val (n # down_from n) num (?b # v)" if "u \<in> S" for u
      using S [OF that] m by auto
    moreover have "max_walk (n # down_from n) num ans (Some p) = Some (ans + of_nat (xor_val (n # down_from n) num (?b # v)))"
      using None some r by (simp add: Let_def)
    ultimately show ?thesis using v unfolding down_from_Suc by blast
  qed
qed

lemma xor_val_xor:
  "n \<le> 32 \<Longrightarrow> xor_val (down_from n) x (map (num_bit y) (down_from n)) = take_bit n (unat (x XOR y))"
proof (induction n)
  case (Suc n)
  have "bit (unat (x XOR y)) n \<longleftrightarrow> num_bit x n \<noteq> num_bit y n"
    using Suc.prems by (simp add: bit_unsigned_iff bit_xor_iff num_bit_bit)
  then show ?case using Suc by (simp add: down_from_Suc take_bit_Suc_from_most)
qed (simp add: down_from_def)

lemma xor_insert_all_paths:
  "paths root S \<Longrightarrow> \<exists>root'. xor_insert_all nums root = Some root' \<and>
     paths root' (S \<union> (\<lambda>y. map (num_bit y) (down_from 32)) ` set nums)"
proof (induction nums arbitrary: root S)
  case (Cons x nums)
  obtain r where r: "xor_insert x root = Some r" "paths r (insert (map (num_bit x) (down_from 32)) S)"
    using paths_insert [OF Cons.prems] unfolding xor_insert_def by blast
  with Cons.IH [OF r(2)] show ?case by (auto simp: insert_commute Un_commute)
qed simp

lemma paths_new: "paths bit_new {}"
proof -
  have "data_at Some w bit_new = (if w = [] then Some () else None)" for w
    by (cases w) (auto simp: bit_new_def data_at_Cons)
  then show ?thesis by (simp add: paths_def)
qed

lemma getMaxXOR_greatest:
  assumes "paths root ((\<lambda>y. map (num_bit y) (down_from 32)) ` Y)" "Y \<noteq> {}"
  shows "\<exists>y \<in> Y. getMaxXOR x root = Some (x XOR y) \<and> (\<forall>z \<in> Y. unat (x XOR z) \<le> unat (x XOR y))"
proof -
  let ?f = "\<lambda>y. map (num_bit y) (down_from 32)"
  have val: "xor_val (down_from 32) x (?f y) = unat (x XOR y)" for y
  proof -
    have "unat (x XOR y) < 2 ^ 32" using unsigned_less [of "x XOR y"] by simp
    then show ?thesis using xor_val_xor [of 32 x y] by (simp add: take_bit_nat_eq_self)
  qed
  have "\<exists>v \<in> ?f ` Y. max_walk (down_from 32) x 0 (Some root) = Some (0 + of_nat (xor_val (down_from 32) x v)) \<and>
      (\<forall>u \<in> ?f ` Y. xor_val (down_from 32) x u \<le> xor_val (down_from 32) x v)"
    by (rule max_walk_greatest [OF assms(1)]) (use assms(2) in \<open>auto simp: length_down_from\<close>)
  then show ?thesis unfolding getMaxXOR_def by (auto simp: val)
qed

definition non_negative :: "32 word \<Rightarrow> bool" where
  "non_negative x \<longleftrightarrow> 0 \<le> sint x"

lemma non_negative_bit: "non_negative x \<longleftrightarrow> \<not> bit x 31"
  using bit_last_iff [of x] by (simp add: non_negative_def not_less)

lemma non_negative_xor: "non_negative x \<Longrightarrow> non_negative y \<Longrightarrow> non_negative (x XOR y)"
  by (simp add: non_negative_bit bit_xor_iff)

lemma sint_non_negative: "non_negative x \<Longrightarrow> sint x = int (unat x)"
proof -
  assume "non_negative x"
  then have "\<not> bit (uint x) 31" by (simp add: non_negative_bit bit_uint_iff)
  then have "signed_take_bit 31 (uint x) = take_bit 31 (uint x)" by (rule signed_take_bit_eq_if_positive)
  moreover have "uint x < 2 ^ 31"
  proof (rule ccontr)
    assume "\<not> uint x < 2 ^ 31"
    moreover have "uint x < 2 ^ 32" using uint_lt2p [of x] by simp
    ultimately have "(uint x - 2 ^ 31 + 1 * 2 ^ 31) div 2 ^ 31 = 1"
      by (subst div_mult_self1) (simp_all add: div_pos_pos_trivial)
    then show False using \<open>\<not> bit (uint x) 31\<close> by (simp add: bit_iff_odd)
  qed
  ultimately have "sint x = uint x" using sint_uint [of x] by (simp add: take_bit_int_eq_self)
  then show ?thesis by simp
qed

lemma max_loop_max:
  assumes "\<And>x. x \<in> set nums \<Longrightarrow> getMaxXOR x root = Some (g x)"
  shows "\<exists>r. max_loop nums ans root = Some r \<and> r \<in> insert ans (g ` set nums) \<and> sint ans \<le> sint r \<and>
    (\<forall>x \<in> set nums. sint (g x) \<le> sint r)"
  using assms
proof (induction nums arbitrary: ans)
  case (Cons x nums)
  obtain r where r: "max_loop nums (signed_max ans (g x)) root = Some r" "r \<in> insert (signed_max ans (g x)) (g ` set nums)"
    "sint (signed_max ans (g x)) \<le> sint r" "\<forall>x \<in> set nums. sint (g x) \<le> sint r"
    using Cons.IH [of "signed_max ans (g x)"] Cons.prems by auto
  then show ?case using Cons.prems [of x] by (auto simp: signed_max_def split: if_splits)
qed simp

text \<open>
  C37. For a non-empty array without negative numbers, \<^verbatim>\<open>findMaximumXOR\<close> follows no null pointer and
  returns the exclusive or of two elements of the array, and no two elements have a greater one.
\<close>
theorem max_xor_greatest:
  assumes "nums \<noteq> []" "list_all non_negative nums"
  shows "\<exists>r. findMaximumXOR nums = Some r \<and> (\<exists>x \<in> set nums. \<exists>y \<in> set nums. r = x XOR y) \<and>
    (\<forall>x \<in> set nums. \<forall>y \<in> set nums. sint (x XOR y) \<le> sint r)"
proof -
  obtain root where root: "xor_insert_all nums bit_new = Some root"
    and p: "paths root ((\<lambda>y. map (num_bit y) (down_from 32)) ` set nums)"
    using xor_insert_all_paths [OF paths_new, of nums] by auto
  have "\<forall>x. \<exists>y. y \<in> set nums \<and> getMaxXOR x root = Some (x XOR y) \<and> (\<forall>z \<in> set nums. unat (x XOR z) \<le> unat (x XOR y))"
    using getMaxXOR_greatest [OF p] assms(1) by auto
  then obtain h where h: "\<And>x. h x \<in> set nums" "\<And>x. getMaxXOR x root = Some (x XOR h x)"
    "\<And>x z. z \<in> set nums \<Longrightarrow> unat (x XOR z) \<le> unat (x XOR h x)"
    by metis
  have pos: "non_negative (x XOR y)" if "x \<in> set nums" "y \<in> set nums" for x y
    using that assms(2) by (auto simp: list_all_iff intro: non_negative_xor)
  obtain r where r: "max_loop nums 0 root = Some r" "r \<in> insert 0 ((\<lambda>x. x XOR h x) ` set nums)"
    "\<forall>x \<in> set nums. sint (x XOR h x) \<le> sint r"
    using max_loop_max [of nums root "\<lambda>x. x XOR h x" 0] h(2) by auto
  have "sint (x XOR y) \<le> sint r" if "x \<in> set nums" "y \<in> set nums" for x y
  proof -
    have "sint (x XOR y) \<le> sint (x XOR h x)"
      unfolding sint_non_negative [OF pos [OF that]] sint_non_negative [OF pos [OF that(1) h(1)]]
      using h(3) [OF that(2), of x] by (simp only: of_nat_le_iff)
    also have "\<dots> \<le> sint r" using r(3) that(1) by blast
    finally show ?thesis .
  qed
  moreover have "\<exists>x \<in> set nums. \<exists>y \<in> set nums. r = x XOR y"
  proof (cases "r = 0")
    case True
    then have "r = hd nums XOR hd nums" by simp
    then show ?thesis using hd_in_set [OF assms(1)] by blast
  qed (use r(2) h(1) in blast)
  ultimately show ?thesis using root r(1) by (simp add: findMaximumXOR_def)
qed

theorem max_xor_greatest_witness:
  "\<exists>r. findMaximumXOR [3, 10, 5, 25, 2, 8] = Some r \<and> 28 \<le> sint r"
proof -
  have "list_all non_negative [3, 10, 5, 25, 2, 8]" by (simp add: non_negative_def)
  note P = max_xor_greatest [OF list.distinct(2) this]
  obtain r where r: "findMaximumXOR [3, 10, 5, 25, 2, 8] = Some r"
    and m: "\<forall>x \<in> set [3 :: 32 word, 10, 5, 25, 2, 8]. \<forall>y \<in> set [3, 10, 5, 25, 2, 8]. sint (x XOR y) \<le> sint r"
    using P by (elim exE conjE)
  have "(5 :: 32 word) \<in> set [3, 10, 5, 25, 2, 8]" "(25 :: 32 word) \<in> set [3, 10, 5, 25, 2, 8]"
    by (simp_all only: list.set insert_iff simp_thms)
  then have "sint ((5 :: 32 word) XOR 25) \<le> sint r" using m by blast
  moreover have "sint ((5 :: 32 word) XOR 25) = 28" by simp
  ultimately have "28 \<le> sint r" by (simp only:)
  with r show ?thesis by (intro exI [of _ r] conjI)
qed

text \<open>With numbers of both signs the search prefers the sign bit and misses the greatest value: 0 and 1 give 1.\<close>

lemma max_xor_mixed_signs: "findMaximumXOR [-1, 0, 1] = Some 0"
  by code_simp

end
