(* ===== verification/Query_Operators.thy ===== *)
theory Query_Operators
  imports Prelude "HOL-Library.Monad_Syntax" "HOL-Library.Multiset"
begin

text \<open>
  The query operators of \<^verbatim>\<open>database-internals/\<close>: the iterator model (table scan, filter, projection, sort,
  index scan), the hash join, grouping, and the operator trees that evaluate to a vector.
\<close>

section \<open>The iterator interface\<close>

text \<open>
  \<^verbatim>\<open>bool next(Row &row)\<close> on a state and the old value of \<^verbatim>\<open>row\<close>: whether there was a row, the new value of
  \<^verbatim>\<open>row\<close>, and the state; \<^const>\<open>None\<close> if the call does not return. The loop \<^verbatim>\<open>while (it.next(row))\<close> that
  collects the rows.
\<close>

type_synonym ('s, 'r) next_op = "'s \<Rightarrow> 'r \<Rightarrow> (bool \<times> 'r \<times> 's) option"

partial_function (option) drain :: "('s, 'r) next_op \<Rightarrow> 's \<Rightarrow> 'r \<Rightarrow> 'r list \<Rightarrow> ('r list \<times> 's) option" where
  "drain nxt s row rows =
     do {
       (more, row, s) \<leftarrow> nxt s row;
       (if more then drain nxt s row (rows @ [row]) else Some (rows, s))
     }"

text \<open>An iterator delivers a list of rows, one at a time, and then stays at its end.\<close>

locale iterator =
  fixes nxt :: "('s, 'r) next_op" and rest :: "'s \<Rightarrow> 'r list" and ok :: "'s \<Rightarrow> bool"
  assumes next_end: "ok s \<Longrightarrow> rest s = [] \<Longrightarrow> \<exists>row' s'. nxt s row = Some (False, row', s') \<and> ok s' \<and> rest s' = []"
    and next_row: "ok s \<Longrightarrow> rest s = r # rs \<Longrightarrow> \<exists>s'. nxt s row = Some (True, r, s') \<and> ok s' \<and> rest s' = rs"
begin

lemma drain_all: "ok s \<Longrightarrow> \<exists>s'. drain nxt s row rows = Some (rows @ rest s, s') \<and> ok s' \<and> rest s' = []"
proof (induction "rest s" arbitrary: s row rows)
  case Nil
  then show ?case using next_end [of s row] by (subst drain.simps) auto
next
  case (Cons r rs)
  obtain s' where s': "nxt s row = Some (True, r, s')" "ok s'" "rest s' = rs"
    using next_row [OF Cons.prems] Cons.hyps(2) by metis
  then show ?case using Cons.hyps(1) [OF s'(3) [symmetric] s'(2), of r "rows @ [r]"] Cons.hyps(2) [symmetric]
    by (subst drain.simps) simp
qed

end

section \<open>Table scan, filter and projection\<close>

record 'r TableScan =
  scan_table :: "'r list"
  scan_index :: int

definition scan_new :: "'r list \<Rightarrow> 'r TableScan" where
  "scan_new rows = \<lparr>scan_table = rows, scan_index = 0\<rparr>"

definition scan_open :: "'r TableScan \<Rightarrow> 'r TableScan" where
  "scan_open s = s\<lparr>scan_index := 0\<rparr>"

definition scan_next :: "('r TableScan, 'r) next_op" where
  "scan_next s row =
     (if scan_index s \<ge> int (length (scan_table s)) then Some (False, row, s)
      else Some (True, scan_table s ! nat (scan_index s), s\<lparr>scan_index := scan_index s + 1\<rparr>))"

definition scan_rest :: "'r TableScan \<Rightarrow> 'r list" where
  "scan_rest s = drop (nat (scan_index s)) (scan_table s)"

interpretation scan: iterator scan_next scan_rest "\<lambda>s. 0 \<le> scan_index s"
proof (unfold_locales, goal_cases)
  case (1 s row)
  then show ?case by (auto simp: scan_next_def scan_rest_def)
next
  case (2 s r rs row)
  then have i: "nat (scan_index s) < length (scan_table s)" "nat (scan_index s + 1) = Suc (nat (scan_index s))"
    by (auto simp: scan_rest_def dest!: arg_cong [where f = length])
  then have "r = scan_table s ! nat (scan_index s) \<and> rs = drop (Suc (nat (scan_index s))) (scan_table s)"
    using 2(2) by (simp add: scan_rest_def Cons_nth_drop_Suc [symmetric])
  then show ?case using 2(1) i by (auto simp: scan_next_def scan_rest_def)
qed

record Row =
  row_id :: int
  row_name :: string
  age :: int

text \<open>\<^verbatim>\<open>Filter::next\<close> pulls from its child until a row passes; \<^verbatim>\<open>Project::next\<close> prints two columns of the row.\<close>

partial_function (option) filter_next :: "('s, Row) next_op \<Rightarrow> 's \<Rightarrow> Row \<Rightarrow> (bool \<times> Row \<times> 's) option" where
  "filter_next child s row =
     do {
       (more, row, s) \<leftarrow> child s row;
       (if more then (if age row \<ge> 30 then Some (True, row, s) else filter_next child s row)
        else Some (False, row, s))
     }"

record 's Project =
  project_child :: 's
  project_out :: "(int \<times> string) list"

definition project_next :: "('s, Row) next_op \<Rightarrow> ('s Project, Row) next_op" where
  "project_next child s row =
     do {
       (more, row, c) \<leftarrow> child (project_child s) row;
       (if \<not> more then Some (False, row, s\<lparr>project_child := c\<rparr>)
        else Some (True, row, s\<lparr>project_child := c, project_out := project_out s @ [(row_id row, row_name row)]\<rparr>))
     }"

definition project_new :: "'s \<Rightarrow> 's Project" where
  "project_new c = \<lparr>project_child = c, project_out = []\<rparr>"

locale pulled = iterator nxt rest ok for nxt :: "('s, Row) next_op" and rest ok
begin

definition passing :: "'s \<Rightarrow> Row list" where
  "passing s = filter (\<lambda>r. age r \<ge> 30) (rest s)"

lemma filter_next_rest:
  "ok s \<Longrightarrow> (case passing s of
      [] \<Rightarrow> \<exists>row' s'. filter_next nxt s row = Some (False, row', s') \<and> ok s' \<and> passing s' = []
    | r # rs \<Rightarrow> \<exists>s'. filter_next nxt s row = Some (True, r, s') \<and> ok s' \<and> passing s' = rs)"
proof (induction "rest s" arbitrary: s row)
  case Nil
  then show ?case using next_end [of s row] by (subst (1 2) filter_next.simps) (auto simp: passing_def)
next
  case (Cons r rs)
  obtain s' where s': "nxt s row = Some (True, r, s')" "ok s'" "rest s' = rs"
    using next_row [OF Cons.prems] Cons.hyps(2) by metis
  show ?case
  proof (cases "age r \<ge> 30")
    case True
    then show ?thesis using s' Cons.hyps(2) [symmetric]
      by (subst (1 2) filter_next.simps) (simp add: passing_def)
  next
    case False
    then have "passing s = passing s'" using s'(3) Cons.hyps(2) [symmetric] by (simp add: passing_def)
    moreover have "filter_next nxt s row = filter_next nxt s' r" using s'(1) False by (subst filter_next.simps) simp
    ultimately show ?thesis using Cons.hyps(1) [OF s'(3) [symmetric] s'(2), of r] by (simp only:)
  qed
qed

end

sublocale pulled \<subseteq> filtered: iterator "filter_next nxt" passing ok
proof (unfold_locales, goal_cases)
  case (1 s row)
  then show ?case using filter_next_rest [of s row] by simp
next
  case (2 s r rs row)
  then show ?case using filter_next_rest [of s row] by simp
qed

text \<open>What the projection has printed and will print is fixed by the rows of its child.\<close>

locale projected = iterator nxt rest ok for nxt :: "('s, Row) next_op" and rest ok
begin

definition columns :: "Row \<Rightarrow> int \<times> string" where
  "columns r = (row_id r, row_name r)"

lemma project_drain:
  "ok (project_child s) \<Longrightarrow> \<exists>s'. drain (project_next nxt) s row rows = Some (rows @ rest (project_child s), s') \<and>
     project_out s' = project_out s @ map columns (rest (project_child s))"
proof (induction "rest (project_child s)" arbitrary: s row rows)
  case Nil
  then obtain row' c where "nxt (project_child s) row = Some (False, row', c)" "rest c = []" using next_end by metis
  then show ?case using Nil by (subst drain.simps) (simp add: project_next_def)
next
  case (Cons r rs)
  obtain c where c: "nxt (project_child s) row = Some (True, r, c)" "ok c" "rest c = rs"
    using next_row [OF Cons.prems] Cons.hyps(2) by metis
  let ?s = "s\<lparr>project_child := c, project_out := project_out s @ [columns r]\<rparr>"
  have "project_next nxt s row = Some (True, r, ?s)" using c(1) by (simp add: project_next_def columns_def)
  then show ?case
    using Cons.hyps(1) [of ?s r "rows @ [r]"] c(2,3) Cons.hyps(2) [symmetric] by (subst drain.simps) simp
qed

end

interpretation volcano: pulled scan_next scan_rest "\<lambda>s. 0 \<le> scan_index s" ..

interpretation volcano_output: projected "filter_next scan_next" volcano.passing "\<lambda>s. 0 \<le> scan_index s" ..

text \<open>The query of \<^verbatim>\<open>main\<close>: open the projection, pull until the end, and look at what was printed.\<close>

definition volcano_query :: "Row list \<Rightarrow> Row \<Rightarrow> (int \<times> string) list option" where
  "volcano_query table row =
     do {
       (_, s) \<leftarrow> drain (project_next (filter_next scan_next)) (project_new (scan_open (scan_new table))) row [];
       Some (project_out s)
     }"

text \<open>
  The pipeline of projection, filter and table scan ends on every table and prints exactly the
  row numbers and names of the rows with age at least 30, in table order.
\<close>
theorem volcano_pipeline:
  "volcano_query table row = Some [(row_id r, row_name r). r \<leftarrow> table, age r \<ge> 30]"
proof -
  let ?s = "project_new (scan_open (scan_new table))"
  have ok: "0 \<le> scan_index (project_child ?s)" and r: "scan_rest (project_child ?s) = table"
    by (simp_all add: project_new_def scan_open_def scan_new_def scan_rest_def)
  obtain s' where "drain (project_next (filter_next scan_next)) ?s row [] = Some (volcano.passing (project_child ?s), s')"
    "project_out s' = map volcano_output.columns (volcano.passing (project_child ?s))"
    using volcano_output.project_drain [OF ok, of row "[]"] by (auto simp: project_new_def)
  moreover have "map volcano_output.columns (filter (\<lambda>r. age r \<ge> 30) table) = [(row_id r, row_name r). r \<leftarrow> table, age r \<ge> 30]"
    by (induction table) (simp_all add: volcano_output.columns_def)
  ultimately show ?thesis by (simp add: volcano_query_def volcano.passing_def r)
qed

section \<open>Sort operator\<close>

text \<open>
  \<^verbatim>\<open>std::sort\<close> with the comparison of salaries leaves the order of equal salaries open; it is a parameter
  of which only the documented behaviour is used.
\<close>

record SalaryRow =
  srow_id :: int
  srow_name :: string
  salary :: int

definition sorts_by_salary :: "(SalaryRow list \<Rightarrow> SalaryRow list) \<Rightarrow> bool" where
  "sorts_by_salary std_sort \<longleftrightarrow> (\<forall>xs. mset (std_sort xs) = mset xs \<and> sorted (map salary (std_sort xs)))"

record 's SortOperator =
  sort_child :: 's
  sort_rows :: "SalaryRow list"
  sort_index :: nat

definition sort_new :: "'s \<Rightarrow> 's SortOperator" where
  "sort_new c = \<lparr>sort_child = c, sort_rows = [], sort_index = 0\<rparr>"

definition sort_open :: "(SalaryRow list \<Rightarrow> SalaryRow list) \<Rightarrow> ('s \<Rightarrow> 's) \<Rightarrow> ('s, SalaryRow) next_op \<Rightarrow> SalaryRow \<Rightarrow>
    's SortOperator \<Rightarrow> 's SortOperator option" where
  "sort_open std_sort child_open child_next row s =
     do {
       (rows, c) \<leftarrow> drain child_next (child_open (sort_child s)) row [];
       Some (s\<lparr>sort_child := c, sort_rows := std_sort rows, sort_index := 0\<rparr>)
     }"

definition sort_next :: "('s SortOperator, SalaryRow) next_op" where
  "sort_next s row =
     (if sort_index s \<ge> length (sort_rows s) then Some (False, row, s)
      else Some (True, sort_rows s ! sort_index s, s\<lparr>sort_index := sort_index s + 1\<rparr>))"

interpretation sorted_rows: iterator sort_next "\<lambda>s. drop (sort_index s) (sort_rows s)" "\<lambda>_. True"
proof (unfold_locales, goal_cases)
  case (1 s row)
  then show ?case by (simp add: sort_next_def)
next
  case (2 s r rs row)
  then have "sort_index s < length (sort_rows s)" by (metis drop_all linorder_not_less list.discI)
  then show ?case using 2(2) by (simp add: sort_next_def Cons_nth_drop_Suc [symmetric])
qed

definition sort_query :: "(SalaryRow list \<Rightarrow> SalaryRow list) \<Rightarrow> SalaryRow list \<Rightarrow> SalaryRow \<Rightarrow> SalaryRow list option" where
  "sort_query std_sort table row =
     do {
       s \<leftarrow> sort_open std_sort scan_open scan_next row (sort_new (scan_new table));
       (rows, _) \<leftarrow> drain sort_next s row [];
       Some rows
     }"

lemma sort_query_eq: "sort_query std_sort table row = Some (std_sort table)"
proof -
  have "scan_rest (scan_open (scan_new table)) = table" "0 \<le> scan_index (scan_open (scan_new table))"
    by (simp_all add: scan_rest_def scan_open_def scan_new_def)
  then obtain c where "drain scan_next (scan_open (scan_new table)) row [] = Some (table, c)"
    using scan.drain_all [of "scan_open (scan_new table)" row "[]"] by auto
  moreover obtain s' where "drain sort_next \<lparr>sort_child = c, sort_rows = std_sort table, sort_index = 0\<rparr> row [] = Some (std_sort table, s')"
    using sorted_rows.drain_all [of "\<lparr>sort_child = c, sort_rows = std_sort table, sort_index = 0\<rparr>" row "[]"] by auto
  ultimately show ?thesis by (simp add: sort_query_def sort_open_def sort_new_def)
qed

section \<open>Index scan\<close>

type_synonym B_plus_Tree = "(int, SalaryRow) umap"

definition bpt_insert :: "SalaryRow \<Rightarrow> B_plus_Tree \<Rightarrow> B_plus_Tree" where
  "bpt_insert row t = um_put (srow_id row) row t"

definition bpt_search :: "int \<Rightarrow> B_plus_Tree \<Rightarrow> SalaryRow option" where
  "bpt_search k t = um_find t k"

record IndexScan =
  ix_tree :: B_plus_Tree
  searchKey :: int
  returned :: bool

definition index_new :: "B_plus_Tree \<Rightarrow> int \<Rightarrow> IndexScan" where
  "index_new t k = \<lparr>ix_tree = t, searchKey = k, returned = False\<rparr>"

definition index_open :: "IndexScan \<Rightarrow> IndexScan" where
  "index_open s = s\<lparr>returned := False\<rparr>"

definition index_next :: "(IndexScan, SalaryRow) next_op" where
  "index_next s row =
     (if returned s then Some (False, row, s)
      else case bpt_search (searchKey s) (ix_tree s) of
             None \<Rightarrow> Some (False, row, s)
           | Some r \<Rightarrow> Some (True, r, s\<lparr>returned := True\<rparr>))"

definition index_rest :: "IndexScan \<Rightarrow> SalaryRow list" where
  "index_rest s = (if returned s then [] else case bpt_search (searchKey s) (ix_tree s) of None \<Rightarrow> [] | Some r \<Rightarrow> [r])"

interpretation index: iterator index_next index_rest "\<lambda>_. True"
proof (unfold_locales, goal_cases)
  case (1 s row)
  then have "index_next s row = Some (False, row, s)"
    by (auto simp: index_next_def index_rest_def split: if_splits option.splits)
  with 1 show ?case by blast
next
  case (2 s r rs row)
  then show ?case by (auto simp: index_next_def index_rest_def split: if_splits option.splits)
qed

lemma bpt_search_rows:
  "bpt_search k (foldl (\<lambda>t r. bpt_insert r t) [] rows) = List.find (\<lambda>r. srow_id r = k) (rev rows)"
  by (induction rows rule: rev_induct) (auto simp: bpt_search_def bpt_insert_def um_find_put)

text \<open>
  Draining a sort over a table scan ends and yields the rows of the table, each as often as in the
  table, by rising salary; draining an index scan over an index built from a table yields the last
  row inserted with the search key, or nothing.
\<close>
theorem sort_and_index_scans:
  assumes "sorts_by_salary std_sort"
  shows "\<exists>rows s. sort_query std_sort table row = Some rows \<and> mset rows = mset table \<and> sorted (map salary rows) \<and>
    drain index_next (index_open (index_new (foldl (\<lambda>t r. bpt_insert r t) [] table) k)) row [] =
      Some (case List.find (\<lambda>r. srow_id r = k) (rev table) of None \<Rightarrow> [] | Some r \<Rightarrow> [r], s)"
proof -
  let ?s = "index_open (index_new (foldl (\<lambda>t r. bpt_insert r t) [] table) k)"
  have "index_rest ?s = (case List.find (\<lambda>r. srow_id r = k) (rev table) of None \<Rightarrow> [] | Some r \<Rightarrow> [r])"
    by (simp add: index_rest_def index_open_def index_new_def bpt_search_rows)
  moreover obtain s where "drain index_next ?s row [] = Some (index_rest ?s, s)"
    using index.drain_all [of ?s row "[]"] by auto
  ultimately show ?thesis using assms by (simp add: sort_query_eq sorts_by_salary_def)
qed

theorem sort_and_index_scans_witness:
  "\<exists>rows. sort_query (sort_key salary) [\<lparr>srow_id = 1, srow_name = ''A'', salary = 9\<rparr>, \<lparr>srow_id = 2, srow_name = ''B'', salary = 5\<rparr>]
     \<lparr>srow_id = 0, srow_name = [], salary = 0\<rparr> = Some rows \<and> sorted (map salary rows)"
proof -
  have "sorts_by_salary (sort_key salary)" by (simp add: sorts_by_salary_def)
  from sort_and_index_scans [OF this] show ?thesis by blast
qed

section \<open>Hash join\<close>

record Employee =
  emp_id :: int
  emp_name :: string
  emp_dept_id :: int

record Department =
  dept_id :: int
  dept_name :: string

type_synonym hash_table = "(int, Department list) umap"

definition buildHashtable :: "Department list \<Rightarrow> hash_table \<Rightarrow> hash_table" where
  "buildHashtable departments h =
     foldl (\<lambda>h dept. um_put (dept_id dept) ((case um_find h (dept_id dept) of Some ds \<Rightarrow> ds | None \<Rightarrow> []) @ [dept]) h) h departments"

text \<open>The lines printed: employee number, employee name and department name.\<close>

definition probe :: "Employee list \<Rightarrow> hash_table \<Rightarrow> (int \<times> string \<times> string) list" where
  "probe employees h =
     concat (map (\<lambda>emp. case um_find h (emp_dept_id emp) of
         None \<Rightarrow> []
       | Some ds \<Rightarrow> map (\<lambda>dept. (emp_id emp, emp_name emp, dept_name dept)) ds) employees)"

definition join_execute :: "Employee list \<Rightarrow> Department list \<Rightarrow> hash_table \<Rightarrow> (int \<times> string \<times> string) list \<times> hash_table" where
  "join_execute employees departments h = (let h = buildHashtable departments h in (probe employees h, h))"

definition bucket :: "hash_table \<Rightarrow> int \<Rightarrow> Department list" where
  "bucket h k = (case um_find h k of Some ds \<Rightarrow> ds | None \<Rightarrow> [])"

lemma bucket_build: "bucket (buildHashtable ds h) k = bucket h k @ filter (\<lambda>d. dept_id d = k) ds"
  unfolding buildHashtable_def
proof (induction ds arbitrary: h)
  case (Cons d ds)
  show ?case unfolding foldl_Cons Cons.IH by (auto simp: bucket_def um_find_put)
qed simp

lemma concat_map_if: "concat (map (\<lambda>x. if P x then [f x] else []) xs) = map f (filter P xs)"
  by (induction xs) auto

lemma probe_bucket:
  "probe es h = [(emp_id e, emp_name e, dept_name d). e \<leftarrow> es, d \<leftarrow> bucket h (emp_dept_id e)]"
  by (induction es) (auto simp: probe_def bucket_def split: option.splits)

text \<open>
  C38. The hash join of an operator that has not been executed before, whose hash table is empty, prints
  what nested loops over the two tables print, line for line and in the same order: for each
  employee, each department with the employee's department number. The table is not cleared: an
  operator whose table is not empty prints, for each employee, first the departments its table already
  holds under that number, and then those of the nested loops.
\<close>
theorem hash_join_nested_loops:
  "fst (join_execute employees departments []) =
     [(emp_id e, emp_name e, dept_name d). e \<leftarrow> employees, d \<leftarrow> departments, dept_id d = emp_dept_id e] \<and>
   fst (join_execute employees departments h) =
     [(emp_id e, emp_name e, dept_name d). e \<leftarrow> employees,
        d \<leftarrow> bucket h (emp_dept_id e) @ filter (\<lambda>d. dept_id d = emp_dept_id e) departments]"
  by (simp add: join_execute_def Let_def probe_bucket bucket_build concat_map_if) (simp add: bucket_def)

section \<open>Grouping\<close>

record PaidEmployee =
  pe_name :: string
  pe_dept :: string
  pe_salary :: int

record AggregateState =
  agg_count :: int
  agg_sum :: int

definition aggregate :: "PaidEmployee list \<Rightarrow> (string, AggregateState) umap \<Rightarrow> (string, AggregateState) umap" where
  "aggregate employees groups =
     foldl (\<lambda>groups emp.
       let state = (case um_find groups (pe_dept emp) of Some st \<Rightarrow> st | None \<Rightarrow> \<lparr>agg_count = 0, agg_sum = 0\<rparr>)
       in um_put (pe_dept emp) \<lparr>agg_count = agg_count state + 1, agg_sum = agg_sum state + pe_salary emp\<rparr> groups)
     groups employees"

lemma aggregate_snoc:
  "aggregate (es @ [e]) g =
     (let g = aggregate es g;
          state = (case um_find g (pe_dept e) of Some st \<Rightarrow> st | None \<Rightarrow> \<lparr>agg_count = 0, agg_sum = 0\<rparr>)
      in um_put (pe_dept e) \<lparr>agg_count = agg_count state + 1, agg_sum = agg_sum state + pe_salary e\<rparr> g)"
  by (simp add: aggregate_def Let_def)

text \<open>
  Grouping counts and sums: a department has a group exactly if it has an employee, and its group
  holds the number of its employees and the sum of their salaries.
\<close>
theorem group_by_department:
  "um_find (aggregate employees []) d =
     (if filter (\<lambda>e. pe_dept e = d) employees = [] then None
      else Some \<lparr>agg_count = int (length (filter (\<lambda>e. pe_dept e = d) employees)),
                 agg_sum = sum_list (map pe_salary (filter (\<lambda>e. pe_dept e = d) employees))\<rparr>)"
proof (induction employees rule: rev_induct)
  case Nil
  then show ?case by (simp add: aggregate_def)
next
  case (snoc e es)
  then show ?case by (cases "pe_dept e = d") (auto simp: aggregate_snoc Let_def um_find_put)
qed

section \<open>Operator trees\<close>

datatype PlanNode = Scan "int list" | Filter PlanNode | Join PlanNode PlanNode | Aggregate PlanNode

fun execute :: "PlanNode \<Rightarrow> int list" where
  "execute (Scan d) = d"
| "execute (Filter child) = filter (\<lambda>value. cxx_rem value 2 = 0) (execute child)"
| "execute (Join left right) = execute left @ execute right"
| "execute (Aggregate child) = [foldl (+) 0 (execute child)]"

text \<open>Pushing a filter below a join, and an aggregate over a join as two aggregates.\<close>

lemma filter_pushdown: "execute (Filter (Join l r)) = execute (Join (Filter l) (Filter r))"
  by simp

lemma foldl_sum_list: "foldl (+) (a :: int) xs = a + sum_list xs"
  by (induction xs arbitrary: a) simp_all

lemma aggregate_split: "execute (Aggregate (Join l r)) = execute (Aggregate (Join (Aggregate l) (Aggregate r)))"
  by (simp add: foldl_sum_list)

end
