(* ===== verification/Cluster_Services.thy ===== *)
theory Cluster_Services
  imports Cxx_Streams
begin

text \<open>
  Small services of a cluster: the consistent hash ring, the Bloom filter, the heartbeat manager, the
  two-phase commit coordinator and the RPC dispatcher. The hash function of strings is a parameter;
  nothing is assumed of it.
\<close>

section \<open>Consistent hashing\<close>

definition VIRTUAL_NODE :: int where
  "VIRTUAL_NODE = 3"

type_synonym hash_ring = "(nat, string) smap"

definition ch_addNode :: "(string \<Rightarrow> nat) \<Rightarrow> string \<Rightarrow> hash_ring \<Rightarrow> hash_ring" where
  "ch_addNode hash_of n ring =
     foldl (\<lambda>ring i. sm_put (hash_of (n @ ''#'' @ show_int i)) n ring) ring [0..VIRTUAL_NODE - 1]"

definition lower_bound :: "nat \<Rightarrow> hash_ring \<Rightarrow> (nat \<times> string) option" where
  "lower_bound h ring = List.find (\<lambda>e. h \<le> fst e) ring"

text \<open>Dereferencing the iterator of an empty ring is undefined.\<close>

definition ch_getNode :: "(string \<Rightarrow> nat) \<Rightarrow> string \<Rightarrow> hash_ring \<Rightarrow> string option" where
  "ch_getNode hash_of user ring =
     (case lower_bound (hash_of user) ring of
        Some e \<Rightarrow> Some (snd e)
      | None \<Rightarrow> (case ring of [] \<Rightarrow> None | e # _ \<Rightarrow> Some (snd e)))"

lemma lower_bound_put:
  "lower_bound h (sm_put k n ring) = lower_bound h ring \<or> lower_bound h (sm_put k n ring) = Some (k, n)"
proof (induction ring)
  case (Cons e ring)
  consider "k = fst e" | "k < fst e" | "fst e < k" "k \<noteq> fst e" "\<not> k < fst e" by (metis linorder_less_linear order_less_asym)
  then show ?case
  proof cases
    case 3
    then have "lower_bound h (sm_put k n (e # ring)) = (if h \<le> fst e then Some e else lower_bound h (sm_put k n ring))"
      by (simp add: lower_bound_def)
    moreover have "lower_bound h (e # ring) = (if h \<le> fst e then Some e else lower_bound h ring)"
      by (simp add: lower_bound_def)
    ultimately show ?thesis using Cons.IH by presburger
  qed (simp_all add: lower_bound_def)
qed (simp add: lower_bound_def)

lemma sm_put_hd: "\<exists>e m. sm_put k n ring = e # m \<and> (e = (k, n) \<or> (\<exists>m'. ring = e # m'))"
  by (cases ring) auto

lemma ch_getNode_put:
  assumes "sm_ok ring"
  shows "ch_getNode hash_of u (sm_put k n ring) \<in> {Some n} \<union> (if ring = [] then {} else {ch_getNode hash_of u ring})"
proof -
  let ?h = "hash_of u"
  obtain e m where hd: "sm_put k n ring = e # m" "e = (k, n) \<or> (\<exists>m'. ring = e # m')" using sm_put_hd [of k n ring] by (elim exE conjE)
  consider "lower_bound ?h (sm_put k n ring) = Some (k, n)" | "lower_bound ?h (sm_put k n ring) = lower_bound ?h ring"
    using lower_bound_put [of ?h k n ring] by blast
  then show ?thesis
  proof cases
    case 1
    then show ?thesis by (simp add: ch_getNode_def)
  next
    case 2
    show ?thesis
    proof (cases "lower_bound ?h ring")
      case None
      with 2 hd(1) have "ch_getNode hash_of u (sm_put k n ring) = Some (snd e)" by (simp add: ch_getNode_def)
      with None hd(2) show ?thesis by (auto simp: ch_getNode_def)
    next
      case (Some e)
      then have "ring \<noteq> []" by (auto simp: lower_bound_def)
      with 2 Some show ?thesis by (simp add: ch_getNode_def)
    qed
  qed
qed

lemma ch_puts:
  assumes "sm_ok ring"
  shows "sm_ok (foldl (\<lambda>ring k. sm_put k n ring) ring ks) \<and>
    (ring \<noteq> [] \<longrightarrow> ch_getNode hash_of u (foldl (\<lambda>ring k. sm_put k n ring) ring ks) \<in> {Some n, ch_getNode hash_of u ring}) \<and>
    (ks \<noteq> [] \<longrightarrow> foldl (\<lambda>ring k. sm_put k n ring) ring ks \<noteq> [])"
  using assms
proof (induction ks arbitrary: ring)
  case (Cons k ks)
  have ne: "sm_put k n ring \<noteq> []" using sm_put_hd [of k n ring] by auto
  then have "foldl (\<lambda>ring k. sm_put k n ring) (sm_put k n ring) ks \<noteq> []"
    using Cons.IH [OF sm_ok_put [OF Cons.prems]] by (cases ks) auto
  then show ?case
    using Cons.IH [OF sm_ok_put [OF Cons.prems], of k n] ch_getNode_put [OF Cons.prems, of hash_of u k n] ne by auto
qed simp

lemma ch_addNode_keys: "ch_addNode hash_of n ring = foldl (\<lambda>ring k. sm_put k n ring) ring (map (\<lambda>i. hash_of (n @ ''#'' @ show_int i)) [0..VIRTUAL_NODE - 1])"
  by (simp add: ch_addNode_def foldl_map)

abbreviation ch_ring :: "(string \<Rightarrow> nat) \<Rightarrow> string list \<Rightarrow> hash_ring" where
  "ch_ring hash_of ns \<equiv> foldl (\<lambda>ring n. ch_addNode hash_of n ring) [] ns"

lemma vnodes_nonempty: "[0..VIRTUAL_NODE - 1] \<noteq> []"
  by (simp add: VIRTUAL_NODE_def)

lemma ch_ring_snoc:
  assumes "sm_ok (ch_ring hash_of ns)"
  shows "sm_ok (ch_ring hash_of (ns @ [n])) \<and> ch_ring hash_of (ns @ [n]) \<noteq> [] \<and>
    (ch_ring hash_of ns \<noteq> [] \<longrightarrow> ch_getNode hash_of u (ch_ring hash_of (ns @ [n])) \<in> {Some n, ch_getNode hash_of u (ch_ring hash_of ns)})"
  using ch_puts [OF assms, of n "map (\<lambda>i. hash_of (n @ ''#'' @ show_int i)) [0..VIRTUAL_NODE - 1]" hash_of u] vnodes_nonempty
  by (simp add: ch_addNode_keys)

lemma ch_ring_ok: "sm_ok (ch_ring hash_of ns) \<and> (ns \<noteq> [] \<longrightarrow> ch_ring hash_of ns \<noteq> [])"
proof (induction ns rule: rev_induct)
  case (snoc n ns)
  then show ?case using ch_ring_snoc [of hash_of ns n] by blast
qed (simp add: sm_ok_def)

lemma ch_getNode_mem: "ring \<noteq> [] \<Longrightarrow> \<exists>e \<in> set ring. ch_getNode hash_of u ring = Some (snd e)"
proof (cases "lower_bound (hash_of u) ring")
  case (Some e)
  then have "e \<in> set ring" unfolding lower_bound_def by (metis find_Some_iff nth_mem)
  with Some show ?thesis by (auto simp: ch_getNode_def)
next
  case None
  assume "ring \<noteq> []"
  then obtain e m where "ring = e # m" by (cases ring) auto
  with None show ?thesis by (simp add: ch_getNode_def)
qed

lemma ch_first_node: "ch_getNode hash_of u (ch_ring hash_of [n]) = Some n"
proof -
  have "snd ` set (foldl (\<lambda>ring k. sm_put k n ring) ring ks) \<subseteq> insert n (snd ` set ring)" for ring :: hash_ring and ks
  proof (induction ks arbitrary: ring)
    case (Cons k ks)
    have "set (sm_put k n ring) \<subseteq> insert (k, n) (set ring)" by (induction ring) auto
    then have "snd ` set (sm_put k n ring) \<subseteq> insert n (snd ` set ring)" by (metis image_insert image_mono snd_conv)
    then show ?case using Cons.IH [of "sm_put k n ring"] by simp blast
  qed auto
  from this [of "[]"] have "snd ` set (ch_ring hash_of [n]) \<subseteq> {n}" by (simp add: ch_addNode_keys)
  moreover obtain e where "e \<in> set (ch_ring hash_of [n])" "ch_getNode hash_of u (ch_ring hash_of [n]) = Some (snd e)"
    using ch_getNode_mem [of "ch_ring hash_of [n]" hash_of u] ch_ring_ok [of hash_of "[n]"] by blast
  ultimately show ?thesis by auto
qed

text \<open>
  The ring moves few users: on a ring built from any nodes, a user is always assigned to one of
  them, and after another node is added every user stays where it was or goes to the new node.
\<close>
theorem ring_moves_to_new_node:
  assumes "ns \<noteq> []"
  shows "(\<exists>m \<in> set ns. ch_getNode hash_of u (ch_ring hash_of ns) = Some m) \<and>
    ch_getNode hash_of u (ch_addNode hash_of n (ch_ring hash_of ns)) \<in> {ch_getNode hash_of u (ch_ring hash_of ns), Some n}"
proof
  show "\<exists>m \<in> set ns. ch_getNode hash_of u (ch_ring hash_of ns) = Some m"
    using assms
  proof (induction ns rule: rev_nonempty_induct)
    case (single n)
    then show ?case using ch_first_node [of hash_of u n] by simp
  next
    case (snoc n ns)
    then have "ch_getNode hash_of u (ch_ring hash_of (ns @ [n])) \<in> {Some n, ch_getNode hash_of u (ch_ring hash_of ns)}"
      using ch_ring_snoc [of hash_of ns n u] ch_ring_ok [of hash_of ns] by blast
    with snoc.IH show ?case by auto
  qed
  show "ch_getNode hash_of u (ch_addNode hash_of n (ch_ring hash_of ns)) \<in> {ch_getNode hash_of u (ch_ring hash_of ns), Some n}"
    using ch_ring_snoc [of hash_of ns n u] ch_ring_ok [of hash_of ns] assms by auto
qed

theorem ring_moves_to_new_node_witness:
  "ch_getNode length ''User1'' (ch_addNode length ''B'' (ch_ring length [''NodeA''])) \<in>
     {ch_getNode length ''User1'' (ch_ring length [''NodeA'']), Some ''B''}"
  using ring_moves_to_new_node [of "[''NodeA'']" length "''User1''" "''B''"] by blast

section \<open>Bloom filter\<close>

definition BLOOM_SIZE :: nat where
  "BLOOM_SIZE = 1000"

definition bloom_new :: "bool list" where
  "bloom_new = replicate BLOOM_SIZE False"

definition bloom_h1 :: "(string \<Rightarrow> nat) \<Rightarrow> string \<Rightarrow> nat" where
  "bloom_h1 hash_of k = hash_of k mod BLOOM_SIZE"

definition bloom_h2 :: "(string \<Rightarrow> nat) \<Rightarrow> string \<Rightarrow> nat" where
  "bloom_h2 hash_of k = hash_of (k @ ''salt'') mod BLOOM_SIZE"

definition bloom_insert :: "(string \<Rightarrow> nat) \<Rightarrow> string \<Rightarrow> bool list \<Rightarrow> bool list" where
  "bloom_insert hash_of k bits = (bits[bloom_h1 hash_of k := True])[bloom_h2 hash_of k := True]"

definition possibly_contains :: "(string \<Rightarrow> nat) \<Rightarrow> string \<Rightarrow> bool list \<Rightarrow> bool" where
  "possibly_contains hash_of k bits \<longleftrightarrow> bits ! bloom_h1 hash_of k \<and> bits ! bloom_h2 hash_of k"

lemma bloom_index: "bloom_h1 hash_of k < BLOOM_SIZE" "bloom_h2 hash_of k < BLOOM_SIZE"
  by (simp_all add: bloom_h1_def bloom_h2_def BLOOM_SIZE_def)

lemma bloom_insert_nth:
  "length bits = BLOOM_SIZE \<Longrightarrow> i < BLOOM_SIZE \<Longrightarrow>
     bloom_insert hash_of k bits ! i \<longleftrightarrow> bits ! i \<or> i = bloom_h1 hash_of k \<or> i = bloom_h2 hash_of k"
  using bloom_index [of hash_of k]
  by (cases "i = bloom_h1 hash_of k"; cases "i = bloom_h2 hash_of k") (simp_all add: bloom_insert_def)

lemma length_bloom_insert: "length (bloom_insert hash_of k bits) = length bits"
  by (simp add: bloom_insert_def)

lemma bloom_bits:
  "length (foldl (\<lambda>b k. bloom_insert hash_of k b) bloom_new ks) = BLOOM_SIZE \<and>
   (\<forall>i < BLOOM_SIZE. foldl (\<lambda>b k. bloom_insert hash_of k b) bloom_new ks ! i \<longleftrightarrow>
      (\<exists>k \<in> set ks. i = bloom_h1 hash_of k \<or> i = bloom_h2 hash_of k))"
proof (induction ks rule: rev_induct)
  case (snoc k ks)
  then show ?case by (auto simp: bloom_insert_nth length_bloom_insert)
qed (simp add: bloom_new_def)

lemma bloom_no_false_negatives:
  "k \<in> set ks \<Longrightarrow> possibly_contains hash_of k (foldl (\<lambda>b k. bloom_insert hash_of k b) bloom_new ks)"
  using bloom_bits [of hash_of ks] bloom_index [of hash_of k] unfolding possibly_contains_def by blast

section \<open>Heartbeats\<close>

record HeartbeatManager =
  hb_timeout :: int
  last_Heartbeat :: "(string, int) umap"

definition hb_new :: "int \<Rightarrow> HeartbeatManager" where
  "hb_new t = \<lparr>hb_timeout = t, last_Heartbeat = []\<rparr>"

definition receive_heartbeat :: "string \<Rightarrow> int \<Rightarrow> HeartbeatManager \<Rightarrow> HeartbeatManager" where
  "receive_heartbeat n t m = m\<lparr>last_Heartbeat := um_put n t (last_Heartbeat m)\<rparr>"

definition is_alive :: "string \<Rightarrow> int \<Rightarrow> HeartbeatManager \<Rightarrow> bool" where
  "is_alive n curr_time m =
     (case um_find (last_Heartbeat m) n of None \<Rightarrow> False | Some t \<Rightarrow> curr_time - t \<le> hb_timeout m)"

definition check_dead_nodes :: "int \<Rightarrow> HeartbeatManager \<Rightarrow> string list" where
  "check_dead_nodes curr_time m = map fst (filter (\<lambda>(n, last_seen). curr_time - last_seen > hb_timeout m) (last_Heartbeat m))"

lemma dead_iff_not_alive:
  assumes "um_ok (last_Heartbeat m)"
  shows "n \<in> set (check_dead_nodes now m) \<longleftrightarrow> um_find (last_Heartbeat m) n \<noteq> None \<and> \<not> is_alive n now m"
proof -
  have "(n, t) \<in> set (last_Heartbeat m) \<longleftrightarrow> um_find (last_Heartbeat m) n = Some t" for t
    using assms by (simp add: um_ok_def)
  then show ?thesis by (force simp: check_dead_nodes_def is_alive_def split: option.splits)
qed

section \<open>Two-phase commit\<close>

text \<open>
  What the participants did is logged. The vote of a participant is a parameter of the coordinator;
  \<^verbatim>\<open>Participant::prepare\<close> always votes yes.
\<close>

datatype Tpc_Txnstate = INIT | PREPARED | COMMITTED | ABORTED

datatype tpc_event = Prepare int bool | Commit int | Abort int

record Coordinator =
  participants :: "int list"
  tpc_state :: Tpc_Txnstate
  tpc_log :: "tpc_event list"

definition participant_prepare :: "int \<Rightarrow> bool" where
  "participant_prepare i = True"

definition tpc_new :: Coordinator where
  "tpc_new = \<lparr>participants = [], tpc_state = INIT, tpc_log = []\<rparr>"

definition addParticipant :: "int \<Rightarrow> Coordinator \<Rightarrow> Coordinator" where
  "addParticipant p c = c\<lparr>participants := participants c @ [p]\<rparr>"

definition tpc_abort :: "Coordinator \<Rightarrow> Coordinator" where
  "tpc_abort c = c\<lparr>tpc_log := tpc_log c @ map Abort (participants c), tpc_state := ABORTED\<rparr>"

fun prepare_loop :: "(int \<Rightarrow> bool) \<Rightarrow> int list \<Rightarrow> Coordinator \<Rightarrow> bool \<times> Coordinator" where
  "prepare_loop vote [] c = (True, c\<lparr>tpc_state := PREPARED\<rparr>)"
| "prepare_loop vote (p # ps) c =
     (let c = c\<lparr>tpc_log := tpc_log c @ [Prepare p (vote p)]\<rparr>
      in if vote p = False then (False, tpc_abort c) else prepare_loop vote ps c)"

definition tpc_prepare :: "(int \<Rightarrow> bool) \<Rightarrow> Coordinator \<Rightarrow> bool \<times> Coordinator" where
  "tpc_prepare vote c = prepare_loop vote (participants c) c"

definition tpc_commit :: "Coordinator \<Rightarrow> Coordinator" where
  "tpc_commit c =
     (if tpc_state c \<noteq> PREPARED then c
      else c\<lparr>tpc_log := tpc_log c @ map Commit (participants c), tpc_state := COMMITTED\<rparr>)"

definition tpc_run :: "(int \<Rightarrow> bool) \<Rightarrow> Coordinator \<Rightarrow> Coordinator" where
  "tpc_run vote c = (let (ok, c) = tpc_prepare vote c in if ok then tpc_commit c else c)"

lemma prepare_loop_yes:
  "\<forall>p \<in> set ps. vote p \<Longrightarrow> prepare_loop vote ps c =
     (True, c\<lparr>tpc_log := tpc_log c @ map (\<lambda>p. Prepare p True) ps, tpc_state := PREPARED\<rparr>)"
  by (induction ps arbitrary: c) simp_all

lemma prepare_loop_no:
  "\<exists>p \<in> set ps. \<not> vote p \<Longrightarrow> \<exists>c'. prepare_loop vote ps c = (False, c') \<and> tpc_state c' = ABORTED \<and>
     (\<exists>l. (\<forall>e \<in> set l. \<exists>p b. e = Prepare p b) \<and> tpc_log c' = tpc_log c @ l @ map Abort (participants c))"
proof (induction ps arbitrary: c)
  case (Cons p ps)
  show ?case
  proof (cases "vote p")
    case True
    then obtain c' l where "prepare_loop vote ps (c\<lparr>tpc_log := tpc_log c @ [Prepare p True]\<rparr>) = (False, c')" "tpc_state c' = ABORTED"
      "\<forall>e \<in> set l. \<exists>p b. e = Prepare p b" "tpc_log c' = (tpc_log c @ [Prepare p True]) @ l @ map Abort (participants c)"
      using Cons.IH [of "c\<lparr>tpc_log := tpc_log c @ [Prepare p True]\<rparr>"] Cons.prems by auto
    then show ?thesis using True by (auto intro!: exI [of _ "Prepare p True # l"])
  next
    case False
    then show ?thesis by (auto simp: tpc_abort_def intro!: exI [of _ "[Prepare p False]"])
  qed
qed simp

text \<open>
  C29. Two-phase commit is atomic: whatever the votes, either every participant commits and none aborts,
  which happens exactly when all vote yes, or every participant aborts and none commits.
\<close>
theorem tpc_atomic:
  "let c = tpc_run vote (foldl (\<lambda>c p. addParticipant p c) tpc_new ps)
   in if list_all vote ps
    then tpc_state c = COMMITTED \<and> filter (\<lambda>e. \<exists>p. e = Commit p) (tpc_log c) = map Commit ps \<and> (\<forall>p. Abort p \<notin> set (tpc_log c))
    else tpc_state c = ABORTED \<and> filter (\<lambda>e. \<exists>p. e = Abort p) (tpc_log c) = map Abort ps \<and> (\<forall>p. Commit p \<notin> set (tpc_log c))"
proof -
  define c where "c = tpc_run vote (foldl (\<lambda>c p. addParticipant p c) tpc_new ps)"
  have init: "foldl (\<lambda>c p. addParticipant p c) tpc_new ps = \<lparr>participants = ps, tpc_state = INIT, tpc_log = []\<rparr>"
    by (induction ps rule: rev_induct) (simp_all add: tpc_new_def addParticipant_def)
  show ?thesis
  proof (cases "\<forall>p \<in> set ps. vote p")
    case True
    then have "c = \<lparr>participants = ps, tpc_state = COMMITTED, tpc_log = map (\<lambda>p. Prepare p True) ps @ map Commit ps\<rparr>"
      by (simp add: c_def init tpc_run_def tpc_prepare_def prepare_loop_yes tpc_commit_def)
    then show ?thesis unfolding c_def [symmetric] Let_def using True by (auto simp: filter_empty_conv list_all_iff)
  next
    case False
    then obtain c' l where "prepare_loop vote ps \<lparr>participants = ps, tpc_state = INIT, tpc_log = []\<rparr> = (False, c')" "tpc_state c' = ABORTED"
      and l: "\<forall>e \<in> set l. \<exists>p b. e = Prepare p b" "tpc_log c' = l @ map Abort ps"
      using prepare_loop_no [of ps vote "\<lparr>participants = ps, tpc_state = INIT, tpc_log = []\<rparr>"] by auto
    then have "c = c'" by (simp add: c_def init tpc_run_def tpc_prepare_def)
    moreover have "filter (\<lambda>e. \<exists>p. e = Abort p) l = []" using l(1) by (auto simp: filter_empty_conv)
    ultimately show ?thesis unfolding c_def [symmetric] Let_def using False l \<open>tpc_state c' = ABORTED\<close> by (auto simp: list_all_iff)
  qed
qed

section \<open>RPC dispatcher\<close>

text \<open>A dispatch finds the handler to invoke, or reports the method.\<close>

definition register_service :: "string \<Rightarrow> 'h \<Rightarrow> (string, 'h) umap \<Rightarrow> (string, 'h) umap" where
  "register_service method h registry = um_put method h registry"

definition dispatch :: "string \<Rightarrow> (string, 'h) umap \<Rightarrow> string + 'h" where
  "dispatch method registry =
     (case um_find registry method of None \<Rightarrow> Inl (''Method not found : '' @ method) | Some h \<Rightarrow> Inr h)"

lemma dispatch_register:
  "dispatch m (register_service m' h r) = (if m = m' then Inr h else dispatch m r)"
  by (simp add: dispatch_def register_service_def um_find_put)

end
