(* ===== verification/Deadlock_Detector.thy ===== *)
theory Deadlock_Detector
  imports Prelude "HOL-Library.Monad_Syntax"
begin

text \<open>
  The wait-for graph of \<^verbatim>\<open>concurrency/DeadlockDetection.cpp\<close> and its search for a cycle. The search reads the
  graph with \<^verbatim>\<open>operator[]\<close>, which adds an empty entry for a transaction that waits for nobody, while
  \<^verbatim>\<open>detectDeadlock\<close> iterates over the same \<^verbatim>\<open>unordered_map\<close>: the graph is therefore part of the state of the
  search. Adding an entry beyond what the buckets have room for rehashes the map and invalidates the
  iterator of the loop; short of that the loop goes on, and may or may not come to the new entries.
  Fuel bounds the depth of the recursion and the turns of the loop; with more fuel than there are
  transactions the search always returns.
\<close>

type_synonym wait_graph = "(int, int list) umap"

type_synonym dfs_state = "wait_graph \<times> int set \<times> int set"

definition addDependency :: "int \<Rightarrow> int \<Rightarrow> wait_graph \<Rightarrow> wait_graph" where
  "addDependency waitingTxn holdingTxn graph = um_put waitingTxn (um_at [] graph waitingTxn @ [holdingTxn]) graph"

text \<open>\<^verbatim>\<open>graph[txn]\<close>: the transactions waited for, and the graph with an entry for \<^verbatim>\<open>txn\<close>.\<close>

definition waits_for :: "int \<Rightarrow> wait_graph \<Rightarrow> int list \<times> wait_graph" where
  "waits_for txn graph = (um_at [] graph txn, um_touch [] txn graph)"

text \<open>The loop over the successors, given the recursive call, and \<^verbatim>\<open>isCycle\<close> with fuel.\<close>

fun cycle_loop :: "(int \<Rightarrow> dfs_state \<Rightarrow> (bool \<times> dfs_state) option) \<Rightarrow> int list \<Rightarrow> dfs_state \<Rightarrow> (bool \<times> dfs_state) option" where
  "cycle_loop visit [] s = Some (False, s)"
| "cycle_loop visit (t # ts) (graph, visited, rec_stack) =
     do {
       (found, graph, visited, rec_stack) \<leftarrow>
         (if t \<notin> visited then visit t (graph, visited, rec_stack) else Some (False, graph, visited, rec_stack));
       (if found then Some (True, graph, visited, rec_stack)
        else if t \<in> visited \<and> t \<in> rec_stack then Some (True, graph, visited, rec_stack)
        else cycle_loop visit ts (graph, visited, rec_stack))
     }"

fun isCycle :: "nat \<Rightarrow> int \<Rightarrow> dfs_state \<Rightarrow> (bool \<times> dfs_state) option" where
  "isCycle 0 txn s = None"
| "isCycle (Suc fuel) txn (graph, visited, rec_stack) =
     (let (ts, graph) = waits_for txn graph
      in do {
        (found, graph, visited, rec_stack) \<leftarrow>
          cycle_loop (isCycle fuel) ts (graph, insert txn visited, insert txn rec_stack);
        (if found then Some (True, graph, visited, rec_stack) else Some (False, graph, visited, rec_stack - {txn}))
      })"

text \<open>
  The range-based \<^verbatim>\<open>for\<close> over the graph. \<open>room\<close> is the number of entries the map holds without a rehash, its
  bucket count times its maximal load factor; \<open>pending\<close> are the keys the iterator has still to come to,
  and \<open>arrive\<close> tells how the keys added meanwhile join them. Advancing an iterator that a rehash has
  invalidated is undefined in the language: the outcome \<open>Invalidated\<close>.
\<close>

datatype outcome = Answer bool | Invalidated

definition new_keys :: "wait_graph \<Rightarrow> wait_graph \<Rightarrow> int list" where
  "new_keys graph graph' = filter (\<lambda>k. um_find graph k = None) (map fst graph')"

fun detect_loop :: "nat \<Rightarrow> (int list \<Rightarrow> int list \<Rightarrow> int list) \<Rightarrow> nat \<Rightarrow> nat \<Rightarrow> int list \<Rightarrow> dfs_state \<Rightarrow> outcome option" where
  "detect_loop fuel arrive room 0 pending s = None"
| "detect_loop fuel arrive room (Suc turns) [] s = Some (Answer False)"
| "detect_loop fuel arrive room (Suc turns) (txn # pending) (graph, visited, rec_stack) =
     do {
       (found, graph', visited, rec_stack) \<leftarrow>
         (if txn \<notin> visited then isCycle fuel txn (graph, visited, rec_stack) else Some (False, graph, visited, rec_stack));
       (if found then Some (Answer True)
        else if room < um_size graph' then Some Invalidated
        else detect_loop fuel arrive room turns (arrive (new_keys graph graph') pending) (graph', visited, rec_stack))
     }"

definition detectDeadlock :: "nat \<Rightarrow> (int list \<Rightarrow> int list \<Rightarrow> int list) \<Rightarrow> nat \<Rightarrow> wait_graph \<Rightarrow> outcome option" where
  "detectDeadlock fuel arrive room graph = detect_loop fuel arrive room fuel (map fst graph) (graph, {}, {})"

text \<open>
  Without a rehash the loop still comes to every key it had before it, and besides them at most to the
  new ones, each once.
\<close>

definition arrivals_ok :: "(int list \<Rightarrow> int list \<Rightarrow> int list) \<Rightarrow> bool" where
  "arrivals_ok arrive \<longleftrightarrow> (\<forall>new pending. set pending \<subseteq> set (arrive new pending) \<and>
     set (arrive new pending) \<subseteq> set new \<union> set pending \<and> length (arrive new pending) \<le> length new + length pending)"

section \<open>Finished transactions\<close>

definition waits :: "wait_graph \<Rightarrow> (int \<times> int) set" where
  "waits g = {(a, b). b \<in> set (um_at [] g a)}"

definition txns :: "wait_graph \<Rightarrow> int set" where
  "txns g = dom (um_find g) \<union> Range (waits g)"

text \<open>The search has left a set that no wait leads out of and that contains no cycle.\<close>

definition finished :: "wait_graph \<Rightarrow> int set \<Rightarrow> bool" where
  "finished g F \<longleftrightarrow> waits g `` F \<subseteq> F \<and> (\<forall>x \<in> F. (x, x) \<notin> (waits g)\<^sup>+)"

lemma finished_trancl: "(x, y) \<in> (waits g)\<^sup>+ \<Longrightarrow> finished g F \<Longrightarrow> x \<in> F \<Longrightarrow> y \<in> F"
  by (induction rule: trancl_induct) (auto simp: finished_def)

lemma finished_insert:
  assumes "finished g F" "x \<notin> F" "set (um_at [] g x) \<subseteq> F"
  shows "finished g (insert x F)"
proof -
  have "(x, x) \<notin> (waits g)\<^sup>+"
  proof
    assume "(x, x) \<in> (waits g)\<^sup>+"
    then obtain y where "(x, y) \<in> waits g" "(y, x) \<in> (waits g)\<^sup>*" by (meson tranclD)
    then have "y \<in> F" using assms(3) by (auto simp: waits_def)
    with \<open>(y, x) \<in> (waits g)\<^sup>*\<close> have "x \<in> F" using finished_trancl [OF _ assms(1)] by (auto simp: rtrancl_eq_or_trancl)
    with assms(2) show False ..
  qed
  then show ?thesis using assms by (auto simp: finished_def waits_def)
qed

lemma waits_txns: "set (um_at [] g x) \<subseteq> txns g"
  by (auto simp: txns_def waits_def)

lemma waits_dom: "Domain (waits g) \<subseteq> dom (um_find g)"
proof
  fix x assume "x \<in> Domain (waits g)"
  then have "um_find g x \<noteq> None" by (cases "um_find g x") (auto simp: waits_def um_at_def)
  then show "x \<in> dom (um_find g)" by (simp add: domIff)
qed

lemma finite_txns: "finite (txns g)"
proof -
  have "(a, b) \<in> (SIGMA x : dom (um_find g). set (um_at [] g x))" if "(a, b) \<in> waits g" for a b
    using waits_dom [of g] DomainI [OF that] that by (auto simp: waits_def)
  then have "waits g \<subseteq> (SIGMA x : dom (um_find g). set (um_at [] g x))" by (rule subrelI)
  then have "finite (waits g)" by (rule finite_subset) (intro finite_SigmaI finite_dom_map_of finite_set)
  then show ?thesis by (simp add: txns_def finite_dom_map_of finite_Range)
qed

text \<open>The graph the search has made of \<^term>\<open>g\<close>: a visited transaction has an entry, and no wait has changed.\<close>

definition grown :: "wait_graph \<Rightarrow> int set \<Rightarrow> wait_graph \<Rightarrow> bool" where
  "grown g V h \<longleftrightarrow> um_ok h \<and> dom (um_find h) = dom (um_find g) \<union> V \<and> um_at [] h = um_at [] g"

lemma grown_touch: "grown g V h \<Longrightarrow> grown g (insert t V) (um_touch [] t h)"
  by (auto simp: grown_def um_at_upd um_ok_touch um_find_touch)

definition dfs_ok :: "wait_graph \<Rightarrow> int set \<Rightarrow> int set \<Rightarrow> bool" where
  "dfs_ok g V R \<longleftrightarrow> R \<subseteq> V \<and> V \<subseteq> txns g \<and> finished g (V - R)"

definition deadlocked :: "wait_graph \<Rightarrow> bool" where
  "deadlocked g \<longleftrightarrow> (\<exists>x. (x, x) \<in> (waits g)\<^sup>+)"

text \<open>
  What a search started with \<^term>\<open>V\<close> visited and \<^term>\<open>R\<close> active returns: a cycle, or the same active
  path, every transaction of \<^term>\<open>P\<close> visited and left, and a graph grown by what was visited.
\<close>

definition dfs_post :: "wait_graph \<Rightarrow> int set \<Rightarrow> int set \<Rightarrow> int set \<Rightarrow> (bool \<times> dfs_state) option \<Rightarrow> bool" where
  "dfs_post g V R P res = (case res of
      None \<Rightarrow> False
    | Some (b, h, V', R') \<Rightarrow>
        (if b then deadlocked g else R' = R \<and> V \<subseteq> V' \<and> P \<subseteq> V' - R \<and> dfs_ok g V' R \<and> grown g V' h))"

lemma dfs_post_Some:
  "dfs_post g V R P (Some (b, h, V', R')) \<longleftrightarrow>
    (if b then deadlocked g else R' = R \<and> V \<subseteq> V' \<and> P \<subseteq> V' - R \<and> dfs_ok g V' R \<and> grown g V' h)"
  by (simp add: dfs_post_def)

lemma dfs_postE:
  assumes "dfs_post g V R P res"
  obtains s' where "res = Some (True, s')" "deadlocked g"
  | h V' where "res = Some (False, h, V', R)" "V \<subseteq> V'" "P \<subseteq> V' - R" "dfs_ok g V' R" "grown g V' h"
proof -
  obtain b h V' R' where "res = Some (b, h, V', R')" using assms by (cases res) (auto simp: dfs_post_def)
  then show thesis using assms that by (cases b) (auto simp: dfs_post_Some)
qed

lemma dfs_post_True: "deadlocked g \<Longrightarrow> dfs_post g V R P (Some (True, s))"
  by (cases s) (auto simp: dfs_post_Some)

lemma dfs_post_insert:
  "dfs_post g V1 R P res \<Longrightarrow> V \<subseteq> V1 \<Longrightarrow> t \<in> V1 - R \<Longrightarrow> dfs_post g V R (insert t P) res"
  by (elim dfs_postE) (auto simp: dfs_post_Some dfs_post_True)

text \<open>What the loop needs of the recursive call, and what it then gives.\<close>

definition visit_spec :: "wait_graph \<Rightarrow> nat \<Rightarrow> (int \<Rightarrow> dfs_state \<Rightarrow> (bool \<times> dfs_state) option) \<Rightarrow> bool" where
  "visit_spec g n visit \<longleftrightarrow> (\<forall>t V R h. t \<in> txns g - V \<longrightarrow> dfs_ok g V R \<longrightarrow> grown g V h \<longrightarrow> R \<times> {t} \<subseteq> (waits g)\<^sup>+ \<longrightarrow>
     card (txns g - V) \<le> n \<longrightarrow> dfs_post g V R {t} (visit t (h, V, R)))"

lemma visit_specD:
  "visit_spec g n visit \<Longrightarrow> t \<in> txns g - V \<Longrightarrow> dfs_ok g V R \<Longrightarrow> grown g V h \<Longrightarrow> R \<times> {t} \<subseteq> (waits g)\<^sup>+ \<Longrightarrow>
    card (txns g - V) \<le> n \<Longrightarrow> dfs_post g V R {t} (visit t (h, V, R))"
  by (simp add: visit_spec_def)

lemma cycle_loop_spec:
  assumes "visit_spec g n visit" "set ts \<subseteq> txns g" "dfs_ok g V R" "grown g V h"
    "R \<times> set ts \<subseteq> (waits g)\<^sup>+" "card (txns g - V) \<le> n"
  shows "dfs_post g V R (set ts) (cycle_loop visit ts (h, V, R))"
  using assms(2-6)
proof (induction ts arbitrary: V h)
  case (Cons t ts)
  have ts: "set ts \<subseteq> txns g" "R \<times> set ts \<subseteq> (waits g)\<^sup>+" using Cons.prems(1,4) by auto
  show ?case
  proof (cases "t \<in> V")
    case True
    show ?thesis
    proof (cases "t \<in> R")
      case False
      then show ?thesis
        using dfs_post_insert [OF Cons.IH [OF ts(1) Cons.prems(2,3) ts(2) Cons.prems(5)]] True by simp
    next
      case R: True
      then have "(t, t) \<in> (waits g)\<^sup>+" using Cons.prems(4) by auto
      then show ?thesis using True R by (auto simp: dfs_post_Some deadlocked_def)
    qed
  next
    case False
    have t: "t \<in> txns g - V" "R \<times> {t} \<subseteq> (waits g)\<^sup>+" using Cons.prems(1,4) False by auto
    have "dfs_post g V R {t} (visit t (h, V, R))"
      by (rule visit_specD [OF assms(1) t(1) Cons.prems(2,3) t(2) Cons.prems(5)])
    then show ?thesis
    proof (cases rule: dfs_postE)
      case (1 s')
      then show ?thesis using False by (cases s') (simp add: dfs_post_Some)
    next
      case (2 h1 V1)
      have "card (txns g - V1) \<le> card (txns g - V)" using 2(2) finite_txns [of g] by (intro card_mono) auto
      with Cons.prems(5) have "card (txns g - V1) \<le> n" by simp
      from dfs_post_insert [OF Cons.IH [OF ts(1) 2(4,5) ts(2) this] 2(2)] show ?thesis using 2(1,3) False by simp
    qed
  qed
qed (simp add: dfs_post_Some)

lemma dfs_ok_enter: "t \<in> txns g - V \<Longrightarrow> dfs_ok g V R \<Longrightarrow> dfs_ok g (insert t V) (insert t R)"
proof -
  assume "t \<in> txns g - V" "dfs_ok g V R"
  moreover from this have "insert t V - insert t R = V - R" by auto
  ultimately show ?thesis by (auto simp: dfs_ok_def)
qed

lemma dfs_ok_leave:
  assumes "dfs_ok g V (insert t R)" "t \<notin> R" "t \<in> V" "set (um_at [] g t) \<subseteq> V - insert t R"
  shows "dfs_ok g V R"
proof -
  have "finished g (insert t (V - insert t R))" using assms by (intro finished_insert) (auto simp: dfs_ok_def)
  moreover have "insert t (V - insert t R) = V - R" using assms by auto
  ultimately show ?thesis using assms(1) by (auto simp: dfs_ok_def)
qed

lemma path_extend:
  assumes "R \<times> {t} \<subseteq> (waits g)\<^sup>+"
  shows "insert t R \<times> set (um_at [] g t) \<subseteq> (waits g)\<^sup>+"
proof (intro subsetI, elim SigmaE2 SigmaE)
  fix p q u
  assume "p = (q, u)" "q \<in> insert t R" "u \<in> set (um_at [] g t)"
  then have "(t, u) \<in> waits g" "q = t \<or> (q, t) \<in> (waits g)\<^sup>+" using assms by (auto simp: waits_def)
  then show "p \<in> (waits g)\<^sup>+" using \<open>p = (q, u)\<close> by (metis r_into_trancl trancl_into_trancl)
qed

lemma isCycle_spec: "visit_spec g n (isCycle n)"
proof (induction n)
  case 0
  have "\<not> card (txns g - V) \<le> 0" if "t \<in> txns g - V" for t V
    using that finite_txns [of g] by (auto simp: card_eq_0_iff)
  then show ?case by (fastforce simp: visit_spec_def)
next
  case (Suc n)
  show ?case
    unfolding visit_spec_def
  proof (intro allI impI)
    fix t V R h
    assume t: "t \<in> txns g - V" and ok: "dfs_ok g V R" and gr: "grown g V h" and r: "R \<times> {t} \<subseteq> (waits g)\<^sup>+"
      and c: "card (txns g - V) \<le> Suc n"
    have tR: "t \<notin> R" using t ok by (auto simp: dfs_ok_def)
    have "txns g - insert t V = (txns g - V) - {t}" by auto
    then have c1: "card (txns g - insert t V) \<le> n" using c t finite_txns [of g] by (simp add: card_Diff_singleton)
    have w: "waits_for t h = (um_at [] g t, um_touch [] t h)" using gr by (simp add: waits_for_def grown_def)
    have "dfs_post g (insert t V) (insert t R) (set (um_at [] g t))
        (cycle_loop (isCycle n) (um_at [] g t) (um_touch [] t h, insert t V, insert t R))"
      by (rule cycle_loop_spec [OF Suc.IH waits_txns dfs_ok_enter [OF t ok] grown_touch [OF gr] path_extend [OF r] c1])
    then show "dfs_post g V R {t} (isCycle (Suc n) t (h, V, R))"
    proof (cases rule: dfs_postE)
      case (1 s')
      then show ?thesis by (cases s') (simp add: w dfs_post_Some)
    next
      case (2 h' V')
      from 2(2) have "t \<in> V'" by simp
      from dfs_ok_leave [OF 2(4) tR this 2(3)] have "dfs_ok g V' R" .
      then show ?thesis using 2(1,2,5) tR by (simp add: w dfs_post_Some)
    qed
  qed
qed

section \<open>The loop over the graph\<close>

text \<open>
  The keys the loop has left behind are visited, the map has had room for its entries, and the turns
  are enough for the keys to come and for those that may still be added.
\<close>

definition loop_inv :: "wait_graph \<Rightarrow> nat \<Rightarrow> nat \<Rightarrow> int list \<Rightarrow> int set \<Rightarrow> wait_graph \<Rightarrow> bool" where
  "loop_inv g room turns pending V h \<longleftrightarrow> dfs_ok g V {} \<and> grown g V h \<and>
     set pending \<subseteq> dom (um_find h) \<and> dom (um_find h) \<subseteq> V \<union> set pending \<and> um_size h \<le> room \<and>
     length pending + card (txns g - dom (um_find h)) < turns"

definition detect_post :: "wait_graph \<Rightarrow> nat \<Rightarrow> outcome \<Rightarrow> bool" where
  "detect_post g room r = (case r of
      Answer b \<Rightarrow> if b then deadlocked g else \<not> deadlocked g \<and> card (txns g) \<le> room
    | Invalidated \<Rightarrow> room < card (txns g))"

lemma grown_size:
  assumes "grown g V h" "V \<subseteq> txns g"
  shows "um_size h = card (dom (um_find g) \<union> V)" "um_size h \<le> card (txns g)"
proof -
  show s: "um_size h = card (dom (um_find g) \<union> V)" using assms(1) by (simp add: grown_def um_size_eq_card)
  show "um_size h \<le> card (txns g)"
    unfolding s using assms(2) finite_txns [of g] by (intro card_mono) (auto simp: txns_def)
qed

lemma loop_done:
  assumes "loop_inv g room turns [] V h"
  shows "\<not> deadlocked g \<and> card (txns g) \<le> room"
proof -
  have dfs: "dfs_ok g V {}" and gr: "grown g V h" and h: "dom (um_find h) \<subseteq> V" and room: "um_size h \<le> room"
    using assms by (simp_all add: loop_inv_def)
  have ok: "finished g V" "V \<subseteq> txns g" using dfs by (simp_all add: dfs_ok_def)
  have keys: "dom (um_find g) \<subseteq> V" using gr h unfolding grown_def by blast
  have "waits g `` V \<subseteq> V" using ok(1) by (simp add: finished_def)
  then have "Range (waits g) \<subseteq> V" using keys waits_dom [of g] by blast
  then have "txns g = V" using ok(2) keys unfolding txns_def by blast
  moreover have "\<not> deadlocked g"
  proof
    assume "deadlocked g"
    then obtain x where x: "(x, x) \<in> (waits g)\<^sup>+" by (auto simp: deadlocked_def)
    then have "x \<in> V" using keys waits_dom [of g] by (meson DomainI subsetD tranclD)
    then show False using ok(1) x by (auto simp: finished_def)
  qed
  ultimately show ?thesis using grown_size(1) [OF gr ok(2)] room keys by (simp add: Un_absorb1)
qed

lemma new_keys_card:
  assumes "grown g V h" "grown g V' h'" "V \<subseteq> V'" "V' \<subseteq> txns g"
  shows "set (new_keys h h') = dom (um_find h') - dom (um_find h)"
    "length (new_keys h h') + card (txns g - dom (um_find h')) = card (txns g - dom (um_find h))"
proof -
  have "dom (um_find h') = set (map fst h')" by (simp add: dom_map_of_conv_image_fst)
  then show s: "set (new_keys h h') = dom (um_find h') - dom (um_find h)"
    unfolding new_keys_def by (simp add: set_diff_eq domIff)
  have "distinct (new_keys h h')" using assms(2) by (simp add: new_keys_def grown_def um_ok_def)
  then have l: "length (new_keys h h') = card (dom (um_find h') - dom (um_find h))" by (metis distinct_card s)
  have "dom (um_find h) \<subseteq> dom (um_find h')" "dom (um_find h') \<subseteq> txns g"
    using assms unfolding grown_def txns_def by blast+
  then have u: "txns g - dom (um_find h) = (dom (um_find h') - dom (um_find h)) \<union> (txns g - dom (um_find h'))" by blast
  have "card (txns g - dom (um_find h)) = card (dom (um_find h') - dom (um_find h)) + card (txns g - dom (um_find h'))"
    unfolding u by (rule card_Un_disjoint) (use finite_txns [of g] in \<open>auto simp: finite_dom_map_of\<close>)
  then show "length (new_keys h h') + card (txns g - dom (um_find h')) = card (txns g - dom (um_find h))"
    using l by simp
qed

lemma loop_inv_next:
  assumes inv: "loop_inv g room (Suc turns) (t # pending) V h" and arrive: "arrivals_ok arrive"
    and V': "V \<subseteq> V'" "t \<in> V'" "dfs_ok g V' {}" "grown g V' h'" "um_size h' \<le> room"
  shows "loop_inv g room turns (arrive (new_keys h h') pending) V' h'"
proof -
  let ?p = "arrive (new_keys h h') pending"
  have gr: "grown g V h" and p: "set pending \<subseteq> dom (um_find h)" "dom (um_find h) \<subseteq> insert t (V \<union> set pending)"
    and l: "length pending + card (txns g - dom (um_find h)) < turns"
    using inv by (auto simp: loop_inv_def)
  have "V' \<subseteq> txns g" using V'(3) by (simp add: dfs_ok_def)
  note n = new_keys_card [OF gr V'(4) V'(1) this]
  have a: "set pending \<subseteq> set ?p" "set ?p \<subseteq> set (new_keys h h') \<union> set pending"
      "length ?p \<le> length (new_keys h h') + length pending"
    using arrive by (simp_all add: arrivals_ok_def)
  have h': "dom (um_find h') = dom (um_find g) \<union> V'" "dom (um_find h) = dom (um_find g) \<union> V"
    using V'(4) gr by (simp_all add: grown_def)
  have "set ?p \<subseteq> dom (um_find h')" using a(2) p(1) V'(1) unfolding n(1) h' by blast
  moreover have "dom (um_find h') \<subseteq> V' \<union> set ?p" using p(2) a(1) V'(1,2) unfolding h' by blast
  moreover have "length ?p + card (txns g - dom (um_find h')) < turns" using a(3) n(2) l by linarith
  ultimately show ?thesis using V'(3-5) by (simp add: loop_inv_def)
qed

lemma detect_loop_spec:
  assumes "loop_inv g room turns pending V h" "arrivals_ok arrive" "card (txns g) \<le> fuel"
  shows "\<exists>r. detect_loop fuel arrive room turns pending (h, V, {}) = Some r \<and> detect_post g room r"
  using assms(1)
proof (induction turns arbitrary: pending V h)
  case 0
  then show ?case by (simp add: loop_inv_def)
next
  case (Suc turns)
  have ok: "dfs_ok g V {}" "grown g V h" "V \<subseteq> txns g" and room: "um_size h \<le> room"
    using Suc.prems by (simp_all add: loop_inv_def dfs_ok_def)
  show ?case
  proof (cases pending)
    case Nil
    then show ?thesis using loop_done Suc.prems by (auto simp: detect_post_def)
  next
    case (Cons t ts)
    note inv = Suc.prems [unfolded Cons]
    show ?thesis
    proof (cases "t \<in> V")
      case True
      from Suc.IH [OF loop_inv_next [OF inv assms(2) subset_refl True ok(1,2) room]]
      show ?thesis using True Cons room by simp
    next
      case False
      have "card (txns g - V) \<le> card (txns g)" using finite_txns [of g] by (intro card_mono) auto
      then have c: "card (txns g - V) \<le> fuel" using assms(3) by simp
      have "t \<in> dom (um_find h)" using inv by (simp add: loop_inv_def)
      then have t: "t \<in> txns g - V" using ok(2,3) False unfolding grown_def txns_def by blast
      have "dfs_post g V {} {t} (isCycle fuel t (h, V, {}))"
        by (rule visit_specD [OF isCycle_spec t ok(1,2) _ c]) simp
      then show ?thesis
      proof (cases rule: dfs_postE)
        case (1 s')
        then show ?thesis using Cons False by (cases s') (simp add: detect_post_def)
      next
        case (2 h' V')
        show ?thesis
        proof (cases "room < um_size h'")
          case True
          have "V' \<subseteq> txns g" using 2(4) by (simp add: dfs_ok_def)
          then have "room < card (txns g)" using True grown_size(2) [OF 2(5)] by simp
          then show ?thesis using True 2(1) Cons False by (simp add: detect_post_def)
        next
          case small: False
          have "t \<in> V'" "um_size h' \<le> room" using 2(3) small by simp_all
          from Suc.IH [OF loop_inv_next [OF inv assms(2) 2(2) this(1) 2(4,5) this(2)]]
          show ?thesis using small 2(1) Cons False by simp
        qed
      qed
    qed
  qed
qed

section \<open>The graph of the dependencies added\<close>

definition declared :: "(int \<times> int) list \<Rightarrow> wait_graph" where
  "declared ds = foldl (\<lambda>graph (waitingTxn, holdingTxn). addDependency waitingTxn holdingTxn graph) [] ds"

lemma declared_snoc: "declared (ds @ [(w, h)]) = addDependency w h (declared ds)"
  by (simp add: declared_def)

lemma declared_graph: "um_ok (declared ds) \<and> waits (declared ds) = set ds \<and> dom (um_find (declared ds)) = fst ` set ds"
proof (induction ds rule: rev_induct)
  case Nil
  then show ?case by (simp add: declared_def waits_def um_at_def um_ok_def)
next
  case (snoc d ds)
  obtain w h where d: "d = (w, h)" by (cases d)
  have "waits (addDependency w h (declared ds)) = insert (w, h) (waits (declared ds))"
    by (auto simp: waits_def addDependency_def um_at_upd split: if_splits)
  moreover have "dom (um_find (addDependency w h (declared ds))) = insert w (dom (um_find (declared ds)))"
    by (simp add: addDependency_def um_find_put)
  moreover have "um_ok (addDependency w h (declared ds))" using snoc by (simp add: addDependency_def um_ok_put)
  ultimately show ?case using snoc by (simp add: d declared_snoc)
qed

lemma declared_txns: "txns (declared ds) = Field (set ds)"
  using declared_graph [of ds] by (simp add: txns_def Field_def Domain_fst)

lemma declared_deadlocked: "deadlocked (declared ds) \<longleftrightarrow> \<not> acyclic (set ds)"
  using declared_graph [of ds] by (simp add: deadlocked_def acyclic_def)

lemma declared_loop_inv:
  assumes "card (Field (set ds)) < turns" "card (fst ` set ds) \<le> room"
  shows "loop_inv (declared ds) room turns (map fst (declared ds)) {} (declared ds)"
proof -
  let ?g = "declared ds"
  have g: "um_ok ?g" "dom (um_find ?g) = fst ` set ds" using declared_graph [of ds] by simp_all
  then have l: "length ?g = card (fst ` set ds)" by (simp add: um_size_eq_card)
  have "fst ` set ds \<subseteq> Field (set ds)" by (auto simp: Field_def)
  moreover have "finite (Field (set ds))" using finite_txns [of ?g] by (simp add: declared_txns)
  ultimately have "card (fst ` set ds) + card (Field (set ds) - fst ` set ds) = card (Field (set ds))"
    by (simp add: card_Diff_subset finite_subset card_mono)
  then have "length (map fst ?g) + card (txns ?g - dom (um_find ?g)) < turns" using assms(1) l g(2) by (simp add: declared_txns)
  moreover have "dfs_ok ?g {} {}" "grown ?g {} ?g" using g(1) by (simp_all add: dfs_ok_def finished_def grown_def)
  moreover have "set (map fst ?g) = dom (um_find ?g)" by (simp add: dom_map_of_conv_image_fst)
  ultimately show ?thesis using assms(2) l by (simp add: loop_inv_def)
qed

text \<open>
  C17. Deadlock detection on the graph of any dependencies added, with more fuel than there are
  transactions, when the map had room for the waiting transactions. The search always returns. If the
  map also has room for every transaction, those that wait for nobody included, it answers, and
  reports a deadlock exactly when some transaction waits, directly or through others, for itself;
  wherever the entries added during the search come in the iteration. Without that room the
  loop over an acyclic graph always advances an iterator that a rehash has invalidated, and over a
  cyclic one either the deadlock is reported or that happens first.
\<close>
theorem deadlock_iff_cycle:
  assumes "arrivals_ok arrive" "card (Field (set ds)) < fuel" "card (fst ` set ds) \<le> room"
  shows "\<exists>r. detectDeadlock fuel arrive room (declared ds) = Some r \<and>
    (if card (Field (set ds)) \<le> room then r = Answer (\<not> acyclic (set ds))
     else if acyclic (set ds) then r = Invalidated else r \<in> {Answer True, Invalidated})"
proof -
  obtain r where r: "detectDeadlock fuel arrive room (declared ds) = Some r" "detect_post (declared ds) room r"
    using detect_loop_spec [OF declared_loop_inv [OF assms(2,3)] assms(1), of fuel] assms(2)
    by (auto simp: detectDeadlock_def declared_txns)
  have "(if card (Field (set ds)) \<le> room then r = Answer (\<not> acyclic (set ds))
     else if acyclic (set ds) then r = Invalidated else r \<in> {Answer True, Invalidated})"
    using r(2) by (cases r) (auto simp: detect_post_def declared_txns declared_deadlocked split: if_splits)
  with r(1) show ?thesis by blast
qed

theorem deadlock_iff_cycle_witness:
  "\<not> acyclic (set [(1, 2), (2, 3), (3, 1)] :: (int \<times> int) set) \<and>
   detectDeadlock 3 (\<lambda>new pending. pending @ new) 1 (declared [(1, 2)]) = Some Invalidated"
proof -
  let ?arrive = "\<lambda>new pending. pending @ new :: int list" and ?ds = "[(1, 2), (2, 3), (3, 1)] :: (int \<times> int) list"
  have ok: "arrivals_ok ?arrive" by (simp add: arrivals_ok_def)
  have "Field (set ?ds) = {1, 2, 3}" by (auto simp: Field_def)
  then have "detectDeadlock 4 ?arrive 13 (declared ?ds) = Some (Answer (\<not> acyclic (set ?ds)))"
    using deadlock_iff_cycle [OF ok, of ?ds 4 13] by (simp del: acyclic_insert)
  moreover have "detectDeadlock 4 ?arrive 13 (declared ?ds) = Some (Answer True)" by code_simp
  moreover have "Field (set [(1, 2 :: int)]) = {1, 2}" by (auto simp: Field_def)
  then have "detectDeadlock 3 ?arrive 1 (declared [(1, 2)]) = Some Invalidated"
    using deadlock_iff_cycle [OF ok, of "[(1, 2)]" 3 1] by (simp add: wf_acyclic)
  ultimately show ?thesis by (simp del: acyclic_insert)
qed

end
