(* ===== verification/Rate_Limiters.thy ===== *)
theory Rate_Limiters
  imports Prelude
begin

text \<open>
  Rate limiters: the sliding window of \<^verbatim>\<open>rate-limiter/RateLimiter_SlidingWindow.cpp\<close> and the bucket
  strategies of \<^verbatim>\<open>oop-framework/RateLimiter_Framework.cpp\<close>. Each call holds the mutex from reading the
  clock to its return, so calls are ordered and the times they read do not decrease. A time point is a
  count of nanoseconds.
\<close>

section \<open>Sliding window\<close>

definition to_millis :: "int \<Rightarrow> int" where
  "to_millis d = (if 0 \<le> d then d div 1000000 else - ((- d) div 1000000))"

definition sw_window :: int where
  "sw_window = 1000"

fun cleanup :: "int list \<Rightarrow> int \<Rightarrow> int list" where
  "cleanup [] now = []"
| "cleanup (t # dq) now = (if to_millis (now - t) \<ge> sw_window then cleanup dq now else t # dq)"

record RateLimiter =
  globalLimit :: int
  clientLimit :: int
  globalQueue :: "int list"
  clientQueues :: "(string, int list) umap"

definition sw_new :: "int \<Rightarrow> int \<Rightarrow> RateLimiter" where
  "sw_new g c = \<lparr>globalLimit = g, clientLimit = c, globalQueue = [], clientQueues = []\<rparr>"

definition sw_allowRequest :: "int \<Rightarrow> string \<Rightarrow> RateLimiter \<Rightarrow> bool \<times> RateLimiter" where
  "sw_allowRequest now clientId r =
     (let gq = cleanup (globalQueue r) now;
          cq = cleanup (um_at [] (clientQueues r) clientId) now;
          r = r\<lparr>globalQueue := gq, clientQueues := um_put clientId cq (clientQueues r)\<rparr>
      in if int (length gq) \<ge> size_t (globalLimit r) then (False, r)
         else if int (length cq) \<ge> size_t (clientLimit r) then (False, r)
         else (True, r\<lparr>globalQueue := gq @ [now], clientQueues := um_put clientId (cq @ [now]) (clientQueues r)\<rparr>))"

text \<open>A run over requests keeps the log of those accepted.\<close>

type_synonym request = "string \<times> int"

definition sw_step :: "request list \<times> RateLimiter \<Rightarrow> request \<Rightarrow> request list \<times> RateLimiter" where
  "sw_step s q = (let (ok, r) = sw_allowRequest (snd q) (fst q) (snd s) in (if ok then fst s @ [q] else fst s, r))"

definition sw_run :: "request list \<Rightarrow> RateLimiter \<Rightarrow> request list \<times> RateLimiter" where
  "sw_run qs r = foldl sw_step ([], r) qs"

text \<open>One second in clock ticks, and the log entries younger than that.\<close>

abbreviation second :: int where
  "second \<equiv> 1000000000"

definition recent :: "int \<Rightarrow> int list \<Rightarrow> int list" where
  "recent now ts = filter (\<lambda>t. now - t < second) ts"

definition client_times :: "string \<Rightarrow> request list \<Rightarrow> int list" where
  "client_times c log = map snd (filter (\<lambda>q. fst q = c) log)"

lemma expired_iff: "sw_window \<le> to_millis d \<longleftrightarrow> second \<le> d"
proof (cases "0 \<le> d")
  case True
  have "1000 \<le> d div 1000000 \<longleftrightarrow> 1000000000 \<le> d" by linarith
  then show ?thesis using True by (simp add: to_millis_def sw_window_def)
next
  case False
  then have "0 \<le> (- d) div 1000000" by (simp add: pos_imp_zdiv_nonneg_iff)
  then show ?thesis using False by (simp add: to_millis_def sw_window_def)
qed

text \<open>A queue holds the accepted times except some that have expired.\<close>

definition tail_of :: "int \<Rightarrow> int list \<Rightarrow> int list \<Rightarrow> bool" where
  "tail_of now ts q \<longleftrightarrow> (\<exists>old. ts = old @ q \<and> (\<forall>t \<in> set old. second \<le> now - t))"

lemma cleanup_sorted: "sorted q \<Longrightarrow> cleanup q now = recent now q"
proof (induction q)
  case (Cons t q)
  then have "second > now - u" if "now - t < second" "u \<in> set q" for u using that by fastforce
  then have "filter (\<lambda>u. now - u < second) q = q" if "now - t < second" using that by (simp add: filter_id_conv)
  then show ?case using Cons by (auto simp: expired_iff recent_def)
qed (simp add: recent_def)

lemma tail_cleanup:
  assumes "tail_of earlier ts q" "sorted ts" "earlier \<le> now"
  shows "cleanup q now = recent now ts" "tail_of now ts (cleanup q now)"
proof -
  obtain old where old: "ts = old @ q" "\<forall>t \<in> set old. second \<le> earlier - t" using assms(1) by (auto simp: tail_of_def)
  have "recent now old = []" using old(2) assms(3) by (fastforce simp: recent_def filter_empty_conv)
  then show eq: "cleanup q now = recent now ts"
    using cleanup_sorted [of q now] old(1) assms(2) by (simp add: recent_def sorted_append)
  have "\<exists>old. ts = old @ recent now ts \<and> (\<forall>t \<in> set old. second \<le> now - t)"
    using assms(2)
  proof (induction ts)
    case (Cons t ts)
    then show ?case
    proof (cases "now - t < second")
      case True
      then have "recent now (t # ts) = t # ts" using Cons.prems by (force simp: recent_def filter_id_conv)
      then show ?thesis by simp
    next
      case False
      then obtain old where "ts = old @ recent now ts" "\<forall>t \<in> set old. second \<le> now - t" using Cons by auto
      then show ?thesis using False by (intro exI [of _ "t # old"]) (auto simp: recent_def)
    qed
  qed (simp add: recent_def)
  then show "tail_of now ts (cleanup q now)" unfolding eq tail_of_def .
qed

lemma tail_snoc: "tail_of now ts q \<Longrightarrow> tail_of now (ts @ [t]) (q @ [t])"
  by (auto simp: tail_of_def)

lemma tail_later: "tail_of earlier ts q \<Longrightarrow> earlier \<le> now \<Longrightarrow> tail_of now ts q"
  by (force simp: tail_of_def)

definition sw_inv :: "int \<Rightarrow> request list \<Rightarrow> RateLimiter \<Rightarrow> bool" where
  "sw_inv now log r \<longleftrightarrow> sorted (map snd log) \<and> (\<forall>q \<in> set log. snd q \<le> now) \<and> tail_of now (map snd log) (globalQueue r) \<and>
     (\<forall>c. tail_of now (client_times c log) (um_at [] (clientQueues r) c))"

lemma sorted_client_times: "sorted (map snd log) \<Longrightarrow> sorted (client_times c log)"
  by (simp add: client_times_def sorted_filter)

text \<open>The decision depends on the requests accepted within the last second, and on nothing else.\<close>

definition admits :: "RateLimiter \<Rightarrow> request list \<Rightarrow> request \<Rightarrow> bool" where
  "admits r log q \<longleftrightarrow> int (length (recent (snd q) (map snd log))) < size_t (globalLimit r) \<and>
     int (length (recent (snd q) (client_times (fst q) log))) < size_t (clientLimit r)"

lemma sw_allow:
  assumes "sw_inv earlier log r" "earlier \<le> now"
  shows "\<exists>r'. sw_allowRequest now c r = (admits r log (c, now), r') \<and>
    globalLimit r' = globalLimit r \<and> clientLimit r' = clientLimit r \<and>
    sw_inv now (if admits r log (c, now) then log @ [(c, now)] else log) r'"
proof -
  note g = tail_cleanup [of earlier "map snd log" "globalQueue r" now]
  note cl = tail_cleanup [of earlier "client_times c log" "um_at [] (clientQueues r) c" now]
  have inv: "sorted (map snd log)" "\<forall>q \<in> set log. snd q \<le> now" "tail_of earlier (map snd log) (globalQueue r)"
    "\<And>d. tail_of earlier (client_times d log) (um_at [] (clientQueues r) d)"
    using assms by (auto simp: sw_inv_def)
  note eqs = g(1) [OF inv(3,1) assms(2)] cl(1) [OF inv(4) sorted_client_times [OF inv(1)] assms(2)]
  note tails = g(2) [OF inv(3,1) assms(2)] cl(2) [OF inv(4) sorted_client_times [OF inv(1)] assms(2)] tail_later [OF inv(4) assms(2)]
  show ?thesis
  proof (cases "admits r log (c, now)")
    case True
    then have "sw_allowRequest now c r = (True, r\<lparr>globalQueue := recent now (map snd log) @ [now],
        clientQueues := um_put c (recent now (client_times c log) @ [now]) (um_put c (recent now (client_times c log)) (clientQueues r))\<rparr>)"
      by (simp add: sw_allowRequest_def eqs admits_def Let_def)
    moreover have "sorted (map snd (log @ [(c, now)]))" using inv(1,2) by (auto simp: sorted_append)
    moreover have "client_times d (log @ [(c, now)]) = (if d = c then client_times c log @ [now] else client_times d log)" for d
      by (simp add: client_times_def)
    ultimately show ?thesis
      using True inv(2) tails tail_snoc [OF tails(1), of now] tail_snoc [OF tails(2), of now]
      by (simp add: sw_inv_def um_at_upd eqs)
  next
    case False
    then have "sw_allowRequest now c r = (False, r\<lparr>globalQueue := recent now (map snd log),
        clientQueues := um_put c (recent now (client_times c log)) (clientQueues r)\<rparr>)"
      by (auto simp: sw_allowRequest_def eqs admits_def Let_def)
    then show ?thesis using False inv(1,2) tails by (simp add: sw_inv_def um_at_upd eqs)
  qed
qed

text \<open>A log in which each entry was admitted is within the limit in every window of a second.\<close>

definition in_window :: "int \<Rightarrow> int list \<Rightarrow> int list" where
  "in_window start ts = filter (\<lambda>t. start \<le> t \<and> t < start + second) ts"

lemma in_window_snoc:
  assumes "int (length (in_window start ts)) \<le> n" "int (length (recent t ts)) < n"
  shows "int (length (in_window start (ts @ [t]))) \<le> n"
proof (cases "start \<le> t \<and> t < start + second")
  case True
  then have "in_window start ts = filter (\<lambda>u. start \<le> u \<and> u < start + second) (recent t ts)"
    unfolding in_window_def recent_def filter_filter by (intro filter_cong) auto
  then have "length (in_window start ts) \<le> length (recent t ts)" by simp
  then show ?thesis using True assms(2) by (simp add: in_window_def)
qed (use assms(1) in \<open>auto simp: in_window_def\<close>)

definition within_limits :: "RateLimiter \<Rightarrow> request list \<Rightarrow> bool" where
  "within_limits r log \<longleftrightarrow> (\<forall>start. int (length (in_window start (map snd log))) \<le> size_t (globalLimit r) \<and>
     (\<forall>c. int (length (in_window start (client_times c log))) \<le> size_t (clientLimit r)))"

lemma within_limits_snoc:
  assumes "within_limits r log" "admits r log (c, now)"
  shows "within_limits r (log @ [(c, now)])"
proof -
  have "client_times d (log @ [(c, now)]) = (if d = c then client_times c log @ [now] else client_times d log)" for d
    by (simp add: client_times_def)
  then show ?thesis
    using assms in_window_snoc [of _ "map snd log" "size_t (globalLimit r)" now]
      in_window_snoc [of _ "client_times c log" "size_t (clientLimit r)" now]
    by (simp add: within_limits_def admits_def)
qed

lemma sw_run_snoc: "sw_run (qs @ [q]) r = sw_step (sw_run qs r) q"
  by (simp add: sw_run_def)

lemma sw_run_inv:
  assumes "sorted (map snd qs)" "\<forall>q \<in> set qs. snd q \<le> now"
  shows "sw_inv now (fst (sw_run qs (sw_new g c))) (snd (sw_run qs (sw_new g c))) \<and>
    globalLimit (snd (sw_run qs (sw_new g c))) = g \<and> clientLimit (snd (sw_run qs (sw_new g c))) = c \<and>
    within_limits (sw_new g c) (fst (sw_run qs (sw_new g c)))"
  using assms
proof (induction qs arbitrary: now rule: rev_induct)
  case Nil
  show ?case
    by (simp add: um_at_def sw_run_def sw_inv_def sw_new_def tail_of_def client_times_def within_limits_def in_window_def size_t_def)
next
  case (snoc q qs)
  obtain log r where lr: "sw_run qs (sw_new g c) = (log, r)" by (cases "sw_run qs (sw_new g c)")
  from snoc.prems have "sorted (map snd qs)" "\<forall>p \<in> set qs. snd p \<le> snd q" by (auto simp: sorted_append)
  from snoc.IH [OF this] lr have ih: "sw_inv (snd q) log r" "globalLimit r = g" "clientLimit r = c" "within_limits (sw_new g c) log" by simp_all
  obtain r' where r': "sw_allowRequest (snd q) (fst q) r = (admits r log q, r')" "globalLimit r' = g" "clientLimit r' = c"
    "sw_inv (snd q) (if admits r log q then log @ [q] else log) r'"
    using sw_allow [OF ih(1) order_refl, of "fst q", unfolded prod.collapse] ih(2,3) by auto
  have "admits (sw_new g c) log q = admits r log q" using ih(2,3) by (simp add: admits_def sw_new_def)
  then have "within_limits (sw_new g c) (if admits r log q then log @ [q] else log)"
    using ih(4) within_limits_snoc [of "sw_new g c" log "fst q" "snd q"] by simp
  moreover have "sw_inv now l r'" if "sw_inv (snd q) l r'" for l
  proof -
    have "snd q \<le> now" using snoc.prems(2) by simp
    then show ?thesis using that tail_later by (fastforce simp: sw_inv_def)
  qed
  ultimately show ?case using r' by (cases "admits r log q") (simp_all add: sw_run_snoc lr sw_step_def)
qed

text \<open>
  C19. The sliding window is exact: in every window of one second at most the global limit of requests
  is accepted, and at most the client limit per client; and a request is rejected only if the second
  before it already holds that many accepted ones.
\<close>
theorem sliding_window_exact:
  assumes "sorted (map snd qs)" "list_all (\<lambda>q. snd q \<le> now) qs" "0 \<le> g" "g < 2 ^ 31" "0 \<le> c" "c < 2 ^ 31"
  shows "let (log, r) = sw_run qs (sw_new g c) in
    (\<forall>start. int (length (filter (\<lambda>(_, t). start \<le> t \<and> t < start + second) log)) \<le> g \<and>
       (\<forall>client. int (length (filter (\<lambda>(d, t). d = client \<and> start \<le> t \<and> t < start + second) log)) \<le> c)) \<and>
    (fst (sw_allowRequest now client r) \<longleftrightarrow>
       int (length (filter (\<lambda>(_, t). now - t < second) log)) < g \<and>
       int (length (filter (\<lambda>(d, t). d = client \<and> now - t < second) log)) < c)"
proof -
  obtain log r where lr: "sw_run qs (sw_new g c) = (log, r)" by (cases "sw_run qs (sw_new g c)")
  have inv: "sw_inv now log r" "globalLimit r = g" "clientLimit r = c" "within_limits (sw_new g c) log"
    using sw_run_inv [OF assms(1), of now g c] assms(2) lr by (simp_all add: list_all_iff)
  have w: "size_t g = g" "size_t c = c" using assms by (simp_all add: size_t_pos)
  have len: "length (filter P (client_times d log)) = length (filter (\<lambda>e. fst e = d \<and> P (snd e)) log)" for P d
    by (simp add: client_times_def filter_map comp_def conj_commute)
  have new: "globalLimit (sw_new g c) = g" "clientLimit (sw_new g c) = c" by (simp_all add: sw_new_def)
  from sw_allow [OF inv(1) order_refl, of client] have "fst (sw_allowRequest now client r) = admits r log (client, now)" by auto
  with inv(2-4) show ?thesis
    by (simp add: lr w new admits_def within_limits_def in_window_def recent_def len comp_def case_prod_unfold)
qed

theorem sliding_window_exact_witness:
  "let (log, r) = sw_run [(''Alice'', 0), (''Alice'', 1), (''Alice'', 2)] (sw_new 10 2) in
    length log = 2 \<and> fst (sw_allowRequest 1000000000 ''Alice'' r) \<and>
    int (length (filter (\<lambda>(d, t). d = ''Alice'' \<and> 1000000000 - t < second) log)) < 2"
proof -
  have "sw_run [(''Alice'', 0), (''Alice'', 1), (''Alice'', 2)] (sw_new 10 2) =
      ([(''Alice'', 0), (''Alice'', 1)],
       \<lparr>globalLimit = 10, clientLimit = 2, globalQueue = [0, 1], clientQueues = [(''Alice'', [0, 1])]\<rparr>)"
    by code_simp
  moreover from this have "fst (sw_allowRequest 1000000000 ''Alice'' (snd (sw_run [(''Alice'', 0), (''Alice'', 1), (''Alice'', 2)] (sw_new 10 2))))"
    by (simp add: sw_allowRequest_def to_millis_def sw_window_def um_at_def size_t_def)
  ultimately show ?thesis
    using sliding_window_exact [of "[(''Alice'', 0), (''Alice'', 1), (''Alice'', 2)]" 1000000000 10 2 "''Alice''"] by simp
qed

section \<open>Bucket strategies\<close>

record TokenBucket =
  tokens :: "(string, int) umap"
  tb_capacity :: int

definition tb_new :: "int \<Rightarrow> TokenBucket" where
  "tb_new cap = \<lparr>tokens = [], tb_capacity = cap\<rparr>"

definition tb_allowRequest :: "string \<Rightarrow> TokenBucket \<Rightarrow> bool \<times> TokenBucket" where
  "tb_allowRequest client s =
     (let tk = (if um_find (tokens s) client = None then um_put client (tb_capacity s) (tokens s) else tokens s)
      in if um_at 0 tk client = 0 then (False, s\<lparr>tokens := tk\<rparr>)
         else (True, s\<lparr>tokens := um_put client (um_at 0 tk client - 1) tk\<rparr>))"

definition tb_onTimer :: "TokenBucket \<Rightarrow> TokenBucket" where
  "tb_onTimer s = s\<lparr>tokens := map (\<lambda>(client, token). (client, tb_capacity s)) (tokens s)\<rparr>"

record LeakyBucket =
  per_client_queue :: "(string, int) umap"
  lb_capacity :: int

definition lb_new :: "int \<Rightarrow> LeakyBucket" where
  "lb_new cap = \<lparr>per_client_queue = [], lb_capacity = cap\<rparr>"

definition lb_allowRequest :: "string \<Rightarrow> LeakyBucket \<Rightarrow> bool \<times> LeakyBucket" where
  "lb_allowRequest client s =
     (let q = um_touch 0 client (per_client_queue s)
      in if um_at 0 q client = lb_capacity s then (False, s\<lparr>per_client_queue := q\<rparr>)
         else (True, s\<lparr>per_client_queue := um_put client (um_at 0 q client + 1) q\<rparr>))"

definition lb_onTimer :: "LeakyBucket \<Rightarrow> LeakyBucket" where
  "lb_onTimer s = s\<lparr>per_client_queue :=
     map (\<lambda>(client, pending). (client, if pending > 0 then pending - 1 else pending)) (per_client_queue s)\<rparr>"

text \<open>
  What a strategy promises its service: a client has a credit, at most the capacity; a request is
  granted exactly when the credit is positive and costs one; the timer does not lower a credit.
\<close>

datatype limiter_event = Request string | Timer

fun accepted :: "(string \<Rightarrow> 's \<Rightarrow> bool \<times> 's) \<Rightarrow> string list \<Rightarrow> 's \<Rightarrow> string list" where
  "accepted allow [] s = []"
| "accepted allow (c # cs) s = (let (granted, s) = allow c s in if granted then c # accepted allow cs s else accepted allow cs s)"

fun service_run :: "(string \<Rightarrow> 's \<Rightarrow> bool \<times> 's) \<Rightarrow> ('s \<Rightarrow> 's) \<Rightarrow> limiter_event list \<Rightarrow> 's \<Rightarrow> 's" where
  "service_run allow timer [] s = s"
| "service_run allow timer (Request c # es) s = service_run allow timer es (snd (allow c s))"
| "service_run allow timer (Timer # es) s = service_run allow timer es (timer s)"

locale limiter_strategy =
  fixes allow :: "string \<Rightarrow> 's \<Rightarrow> bool \<times> 's" and timer :: "'s \<Rightarrow> 's" and ok :: "'s \<Rightarrow> bool"
    and credit :: "'s \<Rightarrow> string \<Rightarrow> nat" and cap :: "'s \<Rightarrow> nat"
  assumes allow_spec: "ok s \<Longrightarrow> \<exists>s'. allow c s = (0 < credit s c, s') \<and> ok s' \<and> cap s' = cap s \<and>
      credit s' = (credit s)(c := credit s c - 1)"
    and timer_spec: "ok s \<Longrightarrow> ok (timer s) \<and> cap (timer s) = cap s \<and> credit s c \<le> credit (timer s) c"
    and credit_cap: "ok s \<Longrightarrow> credit s c \<le> cap s"
begin

lemma accepted_count: "ok s \<Longrightarrow> count_list (accepted allow cs s) c = min (credit s c) (count_list cs c)"
proof (induction cs arbitrary: s)
  case (Cons d cs)
  obtain s' where s': "allow d s = (0 < credit s d, s')" "ok s'" "credit s' = (credit s)(d := credit s d - 1)"
    using allow_spec [OF Cons.prems, of d] by blast
  show ?case using Cons.IH [OF s'(2)] s' by (cases "0 < credit s d") auto
qed simp

lemma run_ok: "ok s \<Longrightarrow> ok (service_run allow timer es s) \<and> cap (service_run allow timer es s) = cap s"
proof (induction es arbitrary: s)
  case (Cons e es)
  show ?case
  proof (cases e)
    case (Request c)
    then show ?thesis using Cons.IH [of "snd (allow c s)"] allow_spec [OF Cons.prems, of c] by auto
  next
    case Timer
    then show ?thesis using Cons.IH [of "timer s"] timer_spec [OF Cons.prems] by auto
  qed
qed simp

lemma burst:
  "ok s \<Longrightarrow> count_list (accepted allow cs (service_run allow timer es s)) c \<le> cap s"
  using run_ok [of s es] accepted_count [of "service_run allow timer es s" cs c]
    credit_cap [of "service_run allow timer es s" c] by simp

end

definition tb_credit :: "TokenBucket \<Rightarrow> string \<Rightarrow> nat" where
  "tb_credit s c = nat (um_at (tb_capacity s) (tokens s) c)"

definition tb_ok :: "TokenBucket \<Rightarrow> bool" where
  "tb_ok s \<longleftrightarrow> 0 \<le> tb_capacity s \<and> (\<forall>c t. um_find (tokens s) c = Some t \<longrightarrow> 0 \<le> t \<and> t \<le> tb_capacity s)"

definition lb_credit :: "LeakyBucket \<Rightarrow> string \<Rightarrow> nat" where
  "lb_credit s c = nat (lb_capacity s - um_at 0 (per_client_queue s) c)"

definition lb_ok :: "LeakyBucket \<Rightarrow> bool" where
  "lb_ok s \<longleftrightarrow> 0 \<le> lb_capacity s \<and> (\<forall>c t. um_find (per_client_queue s) c = Some t \<longrightarrow> 0 \<le> t \<and> t \<le> lb_capacity s)"

lemma um_at_map: "um_at d (map (\<lambda>(k, v). (k, f v)) m) k = (case um_find m k of None \<Rightarrow> d | Some v \<Rightarrow> f v)"
  by (simp add: um_at_def map_of_map split: option.splits)

lemma um_find_map: "um_find (map (\<lambda>(k, v). (k, f v)) m) k = map_option f (um_find m k)"
  by (simp add: map_of_map)

lemma tb_put_ok: "tb_ok s \<Longrightarrow> 0 \<le> v \<Longrightarrow> v \<le> tb_capacity s \<Longrightarrow> tb_ok (s\<lparr>tokens := um_put c v (tokens s)\<rparr>)"
  by (simp add: tb_ok_def cxx_map)

lemma tb_credit_put: "tb_credit (s\<lparr>tokens := um_put c v (tokens s)\<rparr>) = (tb_credit s)(c := nat v)"
  by (simp add: tb_credit_def um_at_upd fun_eq_iff)

lemma tb_allow:
  "tb_allowRequest c s = (let v = um_at (tb_capacity s) (tokens s) c in
     if v = 0 then (False, s\<lparr>tokens := um_put c v (tokens s)\<rparr>) else (True, s\<lparr>tokens := um_put c (v - 1) (tokens s)\<rparr>))"
  by (cases "um_find (tokens s) c") (simp_all add: tb_allowRequest_def um_at_def um_touch_def update_triv cxx_map Let_def)

lemma tb_value: "tb_ok s \<Longrightarrow> 0 \<le> um_at (tb_capacity s) (tokens s) c \<and> um_at (tb_capacity s) (tokens s) c \<le> tb_capacity s"
  by (auto simp: tb_ok_def um_at_def split: option.splits)

lemma tb_refill: "tb_credit (tb_onTimer s) c = nat (tb_capacity s)"
  by (simp add: tb_credit_def tb_onTimer_def um_at_map split: option.splits)

lemma tb_capacity_onTimer [simp]: "tb_capacity (tb_onTimer s) = tb_capacity s"
  by (simp add: tb_onTimer_def)

lemma tb_credit_le: "tb_ok s \<Longrightarrow> tb_credit s c \<le> nat (tb_capacity s)"
  using tb_value [of s c] by (auto simp: tb_credit_def)

lemma tb_ok_onTimer: "tb_ok s \<Longrightarrow> tb_ok (tb_onTimer s)"
  by (auto simp: tb_ok_def tb_onTimer_def um_find_map)

interpretation tb: limiter_strategy tb_allowRequest tb_onTimer tb_ok tb_credit "\<lambda>s. nat (tb_capacity s)"
proof
  fix s c
  assume ok: "tb_ok s"
  show "\<exists>s'. tb_allowRequest c s = (0 < tb_credit s c, s') \<and> tb_ok s' \<and> nat (tb_capacity s') = nat (tb_capacity s) \<and>
      tb_credit s' = (tb_credit s)(c := tb_credit s c - 1)"
  proof -
    show ?thesis using tb_value [OF ok, of c] tb_put_ok [OF ok, of _ c] by (auto simp: tb_allow tb_credit_put tb_credit_def nat_diff_distrib' Let_def)
  qed
  show "tb_ok (tb_onTimer s) \<and> nat (tb_capacity (tb_onTimer s)) = nat (tb_capacity s) \<and> tb_credit s c \<le> tb_credit (tb_onTimer s) c"
    using tb_credit_le [OF ok, of c] by (simp add: tb_ok_onTimer [OF ok] tb_refill)
  show "tb_credit s c \<le> nat (tb_capacity s)"
    by (rule tb_credit_le [OF ok])
qed

lemma lb_put_ok: "lb_ok s \<Longrightarrow> 0 \<le> v \<Longrightarrow> v \<le> lb_capacity s \<Longrightarrow> lb_ok (s\<lparr>per_client_queue := um_put c v (per_client_queue s)\<rparr>)"
  by (simp add: lb_ok_def cxx_map)

lemma lb_credit_put: "lb_credit (s\<lparr>per_client_queue := um_put c v (per_client_queue s)\<rparr>) = (lb_credit s)(c := nat (lb_capacity s - v))"
  by (simp add: lb_credit_def um_at_upd fun_eq_iff)

lemma lb_allow:
  "lb_allowRequest c s = (let v = um_at (0) (per_client_queue s) c in
     if v = lb_capacity s then (False, s\<lparr>per_client_queue := um_put c v (per_client_queue s)\<rparr>) else (True, s\<lparr>per_client_queue := um_put c (v + 1) (per_client_queue s)\<rparr>))"
  by (cases "um_find (per_client_queue s) c") (simp_all add: lb_allowRequest_def um_at_def um_touch_def update_triv cxx_map Let_def)

lemma lb_value: "lb_ok s \<Longrightarrow> 0 \<le> um_at (0) (per_client_queue s) c \<and> um_at (0) (per_client_queue s) c \<le> lb_capacity s"
  by (auto simp: lb_ok_def um_at_def split: option.splits)

lemma lb_leak: "lb_ok s \<Longrightarrow> lb_credit (lb_onTimer s) c = min (nat (lb_capacity s)) (Suc (lb_credit s c))"
  using lb_value [of s c] by (cases "um_find (per_client_queue s) c") (auto simp: lb_credit_def lb_onTimer_def um_find_map um_at_def)

lemma lb_capacity_onTimer [simp]: "lb_capacity (lb_onTimer s) = lb_capacity s"
  by (simp add: lb_onTimer_def)

lemma lb_credit_le: "lb_ok s \<Longrightarrow> lb_credit s c \<le> nat (lb_capacity s)"
  using lb_value [of s c] by (auto simp: lb_credit_def)

lemma lb_ok_onTimer: "lb_ok s \<Longrightarrow> lb_ok (lb_onTimer s)"
  by (fastforce simp: lb_ok_def lb_onTimer_def um_find_map)

interpretation lb: limiter_strategy lb_allowRequest lb_onTimer lb_ok lb_credit "\<lambda>s. nat (lb_capacity s)"
proof
  fix s c
  assume ok: "lb_ok s"
  show "\<exists>s'. lb_allowRequest c s = (0 < lb_credit s c, s') \<and> lb_ok s' \<and> nat (lb_capacity s') = nat (lb_capacity s) \<and>
      lb_credit s' = (lb_credit s)(c := lb_credit s c - 1)"
  proof -
    show ?thesis using lb_value [OF ok, of c] lb_put_ok [OF ok, of _ c] by (auto simp: lb_allow lb_credit_put lb_credit_def Let_def nat_diff_distrib' Suc_nat_eq_nat_zadd1 add.commute)
  qed
  show "lb_ok (lb_onTimer s) \<and> nat (lb_capacity (lb_onTimer s)) = nat (lb_capacity s) \<and> lb_credit s c \<le> lb_credit (lb_onTimer s) c"
    using lb_credit_le [OF ok, of c] by (simp add: lb_ok_onTimer [OF ok] lb_leak [OF ok])
  show "lb_credit s c \<le> nat (lb_capacity s)"
    by (rule lb_credit_le [OF ok])
qed

text \<open>
  Buckets bound every burst: after any history, requests served without a timer in between are
  granted to each client up to its credit and no further, which is at most the capacity; right after
  a timer a token bucket grants exactly the capacity.
\<close>
theorem bucket_bursts:
  assumes "0 \<le> cap"
  shows "let s = service_run tb_allowRequest tb_onTimer es (tb_new cap); t = service_run lb_allowRequest lb_onTimer es (lb_new cap) in
    count_list (accepted tb_allowRequest cs s) c \<le> nat cap \<and>
    count_list (accepted lb_allowRequest cs t) c \<le> nat cap \<and>
    count_list (accepted tb_allowRequest cs (tb_onTimer s)) c = min (nat cap) (count_list cs c) \<and>
    count_list (accepted lb_allowRequest cs (lb_onTimer t)) c = min (min (nat cap) (Suc (lb_credit t c))) (count_list cs c)"
proof -
  have "tb_ok (tb_new cap)" "lb_ok (lb_new cap)" using assms by (simp_all add: tb_ok_def tb_new_def lb_ok_def lb_new_def)
  then show ?thesis
    using tb.burst [of "tb_new cap" cs es c] lb.burst [of "lb_new cap" cs es c] tb.run_ok [of "tb_new cap" es] lb.run_ok [of "lb_new cap" es]
      tb.timer_spec [of "service_run tb_allowRequest tb_onTimer es (tb_new cap)"]
      lb.timer_spec [of "service_run lb_allowRequest lb_onTimer es (lb_new cap)"] assms
    by (simp add: Let_def tb.accepted_count lb.accepted_count tb_refill lb_leak tb_new_def lb_new_def)
qed

theorem bucket_bursts_witness:
  "count_list (accepted tb_allowRequest [''Alice'', ''Alice'', ''Alice''] (tb_new 2)) ''Alice'' \<le> nat 2"
  using bucket_bursts [of 2 "[]" "[''Alice'', ''Alice'', ''Alice'']" "''Alice''"] by (simp only: Let_def service_run.simps)

end
