(* ===== verification/LFU_Cache.thy ===== *)
theory LFU_Cache
  imports LRU_Cache
begin

text \<open>
  The least-frequently-used cache of \<^verbatim>\<open>caching/LFUcache.cpp\<close>. The list nodes live in an explicit heap, a
  list is the list of the addresses of its nodes and an iterator is an address. Following an iterator
  to a freed node, erasing a node from a list it is not in and taking the back of an empty list are
  undefined, the value \<^const>\<open>None\<close>. Frequencies are unbounded. The cache is shown to refine a list of
  entries in order of last use that evicts, among the entries used least often, the one used longest
  ago.
\<close>

record LfuNode =
  lfu_key :: int
  lfu_value :: int
  lfu_freq :: int

record LFUCache =
  lfu_heap :: "(nat, LfuNode) umap"
  lfu_next :: nat
  same_freq :: "(int, nat list) umap"
  lfu_mm :: "(int, nat) umap"
  minFrequency :: int
  Tcapacity :: int

abbreviation freq_list :: "LFUCache \<Rightarrow> int \<Rightarrow> nat list" where
  "freq_list s f \<equiv> um_at [] (same_freq s) f"

definition lfu_new :: "int \<Rightarrow> LFUCache" where
  "lfu_new cap = \<lparr>lfu_heap = [], lfu_next = 0, same_freq = [], lfu_mm = [], minFrequency = 0, Tcapacity = cap\<rparr>"

text \<open>\<^verbatim>\<open>same_freq[f].push_front(n)\<close>, \<^verbatim>\<open>mm[key] = same_freq[f].begin()\<close> and \<^verbatim>\<open>same_freq[f].erase(a)\<close>.\<close>

definition lfu_push_front :: "int \<Rightarrow> LfuNode \<Rightarrow> LFUCache \<Rightarrow> LFUCache" where
  "lfu_push_front f n s = s\<lparr>lfu_heap := um_put (lfu_next s) n (lfu_heap s), lfu_next := lfu_next s + 1,
     same_freq := um_put f (lfu_next s # freq_list s f) (same_freq s)\<rparr>"

definition lfu_set_iter :: "int \<Rightarrow> int \<Rightarrow> LFUCache \<Rightarrow> LFUCache" where
  "lfu_set_iter k f s = s\<lparr>lfu_mm := um_put k (hd (freq_list s f)) (lfu_mm s)\<rparr>"

definition lfu_erase :: "int \<Rightarrow> nat \<Rightarrow> LFUCache \<Rightarrow> LFUCache option" where
  "lfu_erase f a s =
     (if a \<in> set (freq_list s f)
      then Some (s\<lparr>lfu_heap := um_erase a (lfu_heap s), same_freq := um_put f (remove1 a (freq_list s f)) (same_freq s)\<rparr>)
      else None)"

definition updateFreq :: "int \<Rightarrow> LFUCache \<Rightarrow> LFUCache option" where
  "updateFreq k s = do {
     a \<leftarrow> um_find (lfu_mm s) k;
     n \<leftarrow> um_find (lfu_heap s) a;
     s \<leftarrow> lfu_erase (lfu_freq n) a s;
     let s = (if freq_list s (lfu_freq n) = []
              then s\<lparr>same_freq := um_erase (lfu_freq n) (same_freq s),
                     minFrequency := (if minFrequency s = lfu_freq n then minFrequency s + 1 else minFrequency s)\<rparr>
              else s);
     let s = lfu_push_front (lfu_freq n + 1) \<lparr>lfu_key = k, lfu_value = lfu_value n, lfu_freq = lfu_freq n + 1\<rparr> s;
     Some (lfu_set_iter k (lfu_freq n + 1) s)
   }"

definition lfu_get :: "int \<Rightarrow> LFUCache \<Rightarrow> (int \<times> LFUCache) option" where
  "lfu_get k s =
     (if um_find (lfu_mm s) k = None then Some (-1, s)
      else do {
        a \<leftarrow> um_find (lfu_mm s) k;
        n \<leftarrow> um_find (lfu_heap s) a;
        s \<leftarrow> updateFreq k s;
        Some (lfu_value n, s)
      })"

definition lfu_evict :: "LFUCache \<Rightarrow> LFUCache option" where
  "lfu_evict s =
     (let f = minFrequency s; s = s\<lparr>same_freq := um_touch [] f (same_freq s)\<rparr>
      in if freq_list s f = [] then None
         else do {
           victim \<leftarrow> um_find (lfu_heap s) (last (freq_list s f));
           let s = s\<lparr>lfu_heap := um_erase (last (freq_list s f)) (lfu_heap s),
                     same_freq := um_put f (butlast (freq_list s f)) (same_freq s)\<rparr>;
           let s = (if freq_list s f = [] then s\<lparr>same_freq := um_erase f (same_freq s)\<rparr> else s);
           Some (s\<lparr>lfu_mm := um_erase (lfu_key victim) (lfu_mm s)\<rparr>)
         })"

definition lfu_put :: "int \<Rightarrow> int \<Rightarrow> LFUCache \<Rightarrow> LFUCache option" where
  "lfu_put k v s =
     (if Tcapacity s = 0 then Some s
      else if um_find (lfu_mm s) k \<noteq> None then do {
        a \<leftarrow> um_find (lfu_mm s) k;
        n \<leftarrow> um_find (lfu_heap s) a;
        updateFreq k (s\<lparr>lfu_heap := um_put a (n\<lparr>lfu_value := v\<rparr>) (lfu_heap s)\<rparr>)
      }
      else do {
        s \<leftarrow> (if int (um_size (lfu_mm s)) = size_t (Tcapacity s) then lfu_evict s else Some s);
        let s = lfu_push_front 1 \<lparr>lfu_key = k, lfu_value = v, lfu_freq = 1\<rparr> (s\<lparr>minFrequency := 1\<rparr>);
        Some (lfu_set_iter k 1 s)
      })"

section \<open>The specification\<close>

text \<open>Entries in order of last use, latest first.\<close>

definition entry_of :: "int \<Rightarrow> LfuNode list \<Rightarrow> LfuNode option" where
  "entry_of k es = List.find (\<lambda>e. lfu_key e = k) es"

definition drop_key :: "int \<Rightarrow> LfuNode list \<Rightarrow> LfuNode list" where
  "drop_key k es = filter (\<lambda>e. lfu_key e \<noteq> k) es"

definition least_freq :: "LfuNode list \<Rightarrow> int" where
  "least_freq es = Min (set (map lfu_freq es))"

definition lfu_victim :: "LfuNode list \<Rightarrow> LfuNode" where
  "lfu_victim es = last (filter (\<lambda>e. lfu_freq e = least_freq es) es)"

definition use_entry :: "LfuNode \<Rightarrow> LfuNode list \<Rightarrow> LfuNode list" where
  "use_entry e es = e\<lparr>lfu_freq := lfu_freq e + 1\<rparr> # drop_key (lfu_key e) es"

definition spec_get :: "int \<Rightarrow> LfuNode list \<Rightarrow> int \<times> LfuNode list" where
  "spec_get k es = (case entry_of k es of None \<Rightarrow> (-1, es) | Some e \<Rightarrow> (lfu_value e, use_entry e es))"

definition spec_put :: "int \<Rightarrow> int \<Rightarrow> int \<Rightarrow> LfuNode list \<Rightarrow> LfuNode list" where
  "spec_put cap k v es =
     (if cap = 0 then es
      else case entry_of k es of
        Some e \<Rightarrow> use_entry (e\<lparr>lfu_value := v\<rparr>) es
      | None \<Rightarrow> \<lparr>lfu_key = k, lfu_value = v, lfu_freq = 1\<rparr> #
          (if int (length es) = cap then drop_key (lfu_key (lfu_victim es)) es else es))"

section \<open>Refinement\<close>

text \<open>Heap and lists agree with the entries: the list of a frequency holds its entries in order of use.\<close>

definition lists_ok :: "(nat \<rightharpoonup> LfuNode) \<Rightarrow> (int \<Rightarrow> nat list) \<Rightarrow> LfuNode list \<Rightarrow> bool" where
  "lists_ok h ls es \<longleftrightarrow> distinct (map lfu_key es) \<and>
     (\<forall>f. distinct (ls f) \<and> map h (ls f) = map Some (filter (\<lambda>e. lfu_freq e = f) es)) \<and>
     (\<forall>a n. h a = Some n \<longrightarrow> a \<in> set (ls (lfu_freq n)))"

definition iters_ok :: "(nat \<rightharpoonup> LfuNode) \<Rightarrow> (int \<rightharpoonup> nat) \<Rightarrow> bool" where
  "iters_ok h m \<longleftrightarrow> (\<forall>k a. m k = Some a \<longleftrightarrow> (\<exists>n. h a = Some n \<and> lfu_key n = k))"

lemma lists_entry:
  assumes "lists_ok h ls es"
  shows "h a = Some n \<Longrightarrow> n \<in> set es" "n \<in> set es \<Longrightarrow> \<exists>a. h a = Some n \<and> a \<in> set (ls (lfu_freq n))"
    "a \<in> set (ls f) \<Longrightarrow> \<exists>n \<in> set es. h a = Some n \<and> lfu_freq n = f"
proof -
  have l: "map h (ls f) = map Some (filter (\<lambda>e. lfu_freq e = f) es)" for f using assms by (simp add: lists_ok_def)
  then have img: "h ` set (ls f) = Some ` {e \<in> set es. lfu_freq e = f}" for f by (metis list.set_map set_filter)
  show 3: "a \<in> set (ls f) \<Longrightarrow> \<exists>n \<in> set es. h a = Some n \<and> lfu_freq n = f" for a f using img [of f] by blast
  show "h a = Some n \<Longrightarrow> n \<in> set es" using 3 [of a "lfu_freq n"] assms by (fastforce simp: lists_ok_def)
  assume "n \<in> set es"
  then have "Some n \<in> h ` set (ls (lfu_freq n))" by (simp add: img)
  then show "\<exists>a. h a = Some n \<and> a \<in> set (ls (lfu_freq n))" by auto
qed

lemma lists_length: "lists_ok h ls es \<Longrightarrow> length (ls f) = length (filter (\<lambda>e. lfu_freq e = f) es)"
  unfolding lists_ok_def by (metis length_map)

lemma distinct_keys_eq: "distinct (map lfu_key es) \<Longrightarrow> e \<in> set es \<Longrightarrow> e' \<in> set es \<Longrightarrow> lfu_key e = lfu_key e' \<Longrightarrow> e = e'"
  by (metis distinct_map inj_onD)

lemma lists_unlink:
  assumes "lists_ok h ls es" "h a = Some n" "iters_ok h m"
  shows "lists_ok (h(a := None)) (ls(lfu_freq n := remove1 a (ls (lfu_freq n)))) (drop_key (lfu_key n) es)"
proof -
  let ?f = "lfu_freq n" and ?h = "h(a := None)" and ?es = "drop_key (lfu_key n) es"
  have d: "distinct (map lfu_key es)" "distinct (ls g)" "map h (ls g) = map Some (filter (\<lambda>e. lfu_freq e = g) es)" for g
    using assms(1) by (simp_all add: lists_ok_def)
  have n: "n \<in> set es" using lists_entry(1) [OF assms(1,2)] .
  have only: "b = a" if "h b = Some e" "lfu_key e = lfu_key n" for b e
    using assms(2,3) that unfolding iters_ok_def by (metis option.inject)
  have "map ?h (remove1 a (ls ?f)) = map h (filter (\<lambda>b. a \<noteq> b) (ls ?f))"
    using d(2) by (simp add: distinct_remove1_removeAll removeAll_filter_not_eq)
  also have "\<dots> = filter (\<lambda>x. lfu_key (the x) \<noteq> lfu_key n) (map h (ls ?f))"
  proof -
    have "(a \<noteq> b) = (lfu_key (the (h b)) \<noteq> lfu_key n)" if b: "b \<in> set (ls ?f)" for b
    proof -
      obtain e where "h b = Some e" using lists_entry(3) [OF assms(1) b] by blast
      then show ?thesis using only [of b e] assms(2) by auto
    qed
    then show ?thesis by (simp add: filter_map comp_def cong: filter_cong)
  qed
  also have "\<dots> = map Some (filter (\<lambda>e. lfu_freq e = ?f) ?es)"
    by (simp add: d(3) filter_map comp_def drop_key_def conj_commute)
  finally have f: "map ?h (remove1 a (ls ?f)) = map Some (filter (\<lambda>e. lfu_freq e = ?f) ?es)" .
  have g: "map ?h (ls g) = map Some (filter (\<lambda>e. lfu_freq e = g) ?es)" if "g \<noteq> ?f" for g
  proof -
    have "a \<notin> set (ls g)" using lists_entry(3) [OF assms(1), of a g] assms(2) that by auto
    moreover have "filter (\<lambda>e. lfu_freq e = g) ?es = filter (\<lambda>e. lfu_freq e = g) es"
      using distinct_keys_eq [OF d(1) _ n] that by (auto simp: drop_key_def intro!: filter_cong)
    ultimately show ?thesis using d(3) [of g] by (auto simp: map_eq_conv)
  qed
  have "distinct (map lfu_key ?es)" using d(1) by (simp add: drop_key_def distinct_map_filter)
  then show ?thesis using assms(1) f g d(2) unfolding lists_ok_def by (auto simp: distinct_remove1) metis
qed

lemma lists_link:
  assumes "lists_ok h ls es" "h b = None" "lfu_key n \<notin> lfu_key ` set es"
  shows "lists_ok (h(b \<mapsto> n)) (ls(lfu_freq n := b # ls (lfu_freq n))) (n # es)"
proof -
  have "b \<notin> set (ls g)" for g using lists_entry(3) [OF assms(1), of b g] assms(2) by auto
  then have "map (h(b \<mapsto> n)) (ls g) = map h (ls g)" for g by simp
  then show ?thesis using assms \<open>\<And>g. b \<notin> set (ls g)\<close> unfolding lists_ok_def by auto metis
qed

definition assign_value :: "int \<Rightarrow> int \<Rightarrow> LfuNode list \<Rightarrow> LfuNode list" where
  "assign_value k v es = map (\<lambda>e. if lfu_key e = k then e\<lparr>lfu_value := v\<rparr> else e) es"

lemma assign_value_simps [simp]:
  "map lfu_key (assign_value k v es) = map lfu_key es" "map lfu_freq (assign_value k v es) = map lfu_freq es"
  "drop_key k (assign_value k v es) = drop_key k es"
  by (induction es) (simp_all add: assign_value_def drop_key_def)

lemma lists_assign:
  assumes "lists_ok h ls es" "h a = Some n" "iters_ok h m"
  shows "lists_ok (h(a \<mapsto> n\<lparr>lfu_value := v\<rparr>)) ls (assign_value (lfu_key n) v es)"
proof -
  let ?g = "\<lambda>e. if lfu_key e = lfu_key n then e\<lparr>lfu_value := v\<rparr> else e"
  have d: "distinct (map lfu_key es)" "distinct (ls f)" "map h (ls f) = map Some (filter (\<lambda>e. lfu_freq e = f) es)" for f
    using assms(1) by (simp_all add: lists_ok_def)
  have "(h(a \<mapsto> n\<lparr>lfu_value := v\<rparr>)) b = map_option ?g (h b)" for b
    using assms(2,3) unfolding iters_ok_def by (cases "h b") (auto, metis option.inject)
  then have h: "h(a \<mapsto> n\<lparr>lfu_value := v\<rparr>) = map_option ?g \<circ> h" by auto
  have "map (map_option ?g \<circ> h) (ls f) = map (map_option ?g) (map h (ls f))" for f by simp
  also have "map (map_option ?g) (map h (ls f)) = map Some (filter (\<lambda>e. lfu_freq e = f) (assign_value (lfu_key n) v es))" for f
    unfolding d(3) assign_value_def by (induction es) auto
  finally have l: "map (map_option ?g \<circ> h) (ls f) = map Some (filter (\<lambda>e. lfu_freq e = f) (assign_value (lfu_key n) v es))" for f .
  have "b \<in> set (ls (lfu_freq e))" if "(map_option ?g \<circ> h) b = Some e" for b e
    using that assms(1) by (auto simp: lists_ok_def split: if_splits)
  then show ?thesis unfolding h lists_ok_def using d l by simp
qed

lemma iters_move:
  assumes "iters_ok h m" "h a = Some e" "h b = None" "lfu_key n = lfu_key e"
  shows "iters_ok (h(a := None, b \<mapsto> n)) (m(lfu_key n \<mapsto> b))"
  unfolding iters_ok_def
proof (intro allI)
  fix k c
  have "m k = Some c \<longleftrightarrow> (\<exists>n. h c = Some n \<and> lfu_key n = k)" "m (lfu_key e) = Some a" using assms(1,2) by (auto simp: iters_ok_def)
  then show "(m(lfu_key n \<mapsto> b)) k = Some c \<longleftrightarrow> (\<exists>x. (h(a := None, b \<mapsto> n)) c = Some x \<and> lfu_key x = k)"
    using assms(2-4) by auto
qed

lemma iters_new:
  assumes "iters_ok h m" "h b = None" "m (lfu_key n) = None"
  shows "iters_ok (h(b \<mapsto> n)) (m(lfu_key n \<mapsto> b))"
  unfolding iters_ok_def
proof (intro allI)
  fix k c
  have "m k = Some c \<longleftrightarrow> (\<exists>n. h c = Some n \<and> lfu_key n = k)" using assms(1) by (simp add: iters_ok_def)
  moreover have "lfu_key y \<noteq> lfu_key n" if "h x = Some y" for x y using assms(1,3) that unfolding iters_ok_def by (metis option.distinct(1))
  ultimately show "(m(lfu_key n \<mapsto> b)) k = Some c \<longleftrightarrow> (\<exists>x. (h(b \<mapsto> n)) c = Some x \<and> lfu_key x = k)"
    using assms(2) by auto
qed

lemma iters_drop:
  assumes "iters_ok h m" "h a = Some n"
  shows "iters_ok (h(a := None)) (m(lfu_key n := None))"
  unfolding iters_ok_def
proof (intro allI)
  fix k c
  have "m k = Some c \<longleftrightarrow> (\<exists>n. h c = Some n \<and> lfu_key n = k)" "m (lfu_key n) = Some a" "m (lfu_key n) = Some c \<longleftrightarrow> (\<exists>x. h c = Some x \<and> lfu_key x = lfu_key n)"
    using assms by (auto simp: iters_ok_def)
  then show "(m(lfu_key n := None)) k = Some c \<longleftrightarrow> (\<exists>x. (h(a := None)) c = Some x \<and> lfu_key x = k)"
    using assms(2) by auto
qed

lemma iters_assign:
  "iters_ok h m \<Longrightarrow> h a = Some n \<Longrightarrow> lfu_key n' = lfu_key n \<Longrightarrow> iters_ok (h(a \<mapsto> n')) m"
  by (auto simp: iters_ok_def)

lemma iters_keys:
  assumes "iters_ok h m" "lists_ok h ls es"
  shows "m k = None \<longleftrightarrow> k \<notin> lfu_key ` set es"
proof
  assume "m k = None"
  then have "lfu_key n \<noteq> k" if "h a = Some n" for a n using assms(1) that unfolding iters_ok_def by (metis option.distinct(1))
  then show "k \<notin> lfu_key ` set es" using lists_entry(2) [OF assms(2)] by blast
next
  assume "k \<notin> lfu_key ` set es"
  then have "\<not> (\<exists>a n. h a = Some n \<and> lfu_key n = k)" using lists_entry(1) [OF assms(2)] by blast
  then show "m k = None" using assms(1) unfolding iters_ok_def by (metis not_None_eq)
qed

declare um_at_upd [simp]

definition lfu_core :: "LFUCache \<Rightarrow> LfuNode list \<Rightarrow> bool" where
  "lfu_core s es \<longleftrightarrow> um_ok (lfu_mm s) \<and> lists_ok (um_find (lfu_heap s)) (um_at [] (same_freq s)) es \<and>
     iters_ok (um_find (lfu_heap s)) (um_find (lfu_mm s)) \<and> (\<forall>a. lfu_next s \<le> a \<longrightarrow> um_find (lfu_heap s) a = None) \<and>
     (\<forall>e \<in> set es. 1 \<le> lfu_freq e)"

definition lfu_rel :: "LFUCache \<Rightarrow> LfuNode list \<Rightarrow> bool" where
  "lfu_rel s es \<longleftrightarrow> lfu_core s es \<and> (es \<noteq> [] \<longrightarrow> minFrequency s = least_freq es)"

lemma least_freq_eqI: "(\<And>e. e \<in> set es \<Longrightarrow> m \<le> lfu_freq e) \<Longrightarrow> e \<in> set es \<Longrightarrow> lfu_freq e = m \<Longrightarrow> least_freq es = m"
  unfolding least_freq_def by (intro Min_eqI) auto

lemma least_freq_props:
  assumes "es \<noteq> []"
  shows "\<exists>e \<in> set es. lfu_freq e = least_freq es" "\<And>e. e \<in> set es \<Longrightarrow> least_freq es \<le> lfu_freq e"
proof -
  have "least_freq es \<in> set (map lfu_freq es)" unfolding least_freq_def using assms by (intro Min_in) auto
  then show "\<exists>e \<in> set es. lfu_freq e = least_freq es" by force
qed (simp add: least_freq_def)

lemma entry_of_Some: "entry_of k es = Some e \<Longrightarrow> e \<in> set es \<and> lfu_key e = k"
  unfolding entry_of_def by (metis (mono_tags, lifting) find_Some_iff nth_mem)

lemma entry_of_None: "entry_of k es = None \<longleftrightarrow> k \<notin> lfu_key ` set es"
  unfolding entry_of_def by (auto simp: find_None_iff)

lemma core_find:
  assumes "lfu_core s es"
  shows "um_find (lfu_mm s) k = None \<longleftrightarrow> entry_of k es = None"
    "entry_of k es = Some e \<Longrightarrow> \<exists>a. um_find (lfu_mm s) k = Some a \<and> um_find (lfu_heap s) a = Some e \<and> a \<in> set (freq_list s (lfu_freq e))"
proof -
  have c: "lists_ok (um_find (lfu_heap s)) (um_at [] (same_freq s)) es" "iters_ok (um_find (lfu_heap s)) (um_find (lfu_mm s))"
    using assms by (simp_all add: lfu_core_def)
  show "um_find (lfu_mm s) k = None \<longleftrightarrow> entry_of k es = None" using iters_keys [OF c(2,1)] entry_of_None by simp
  assume "entry_of k es = Some e"
  then have e: "e \<in> set es" "lfu_key e = k" using entry_of_Some by blast+
  obtain a where a: "um_find (lfu_heap s) a = Some e" "a \<in> set (freq_list s (lfu_freq e))" using lists_entry(2) [OF c(1) e(1)] by blast
  then have "um_find (lfu_mm s) k = Some a" using c(2) e(2) by (auto simp: iters_ok_def)
  then show "\<exists>a. um_find (lfu_mm s) k = Some a \<and> um_find (lfu_heap s) a = Some e \<and> a \<in> set (freq_list s (lfu_freq e))" using a by blast
qed

lemma core_size:
  assumes "lfu_core s es"
  shows "um_size (lfu_mm s) = length es"
proof -
  have "set (map fst (lfu_mm s)) = set (map lfu_key es)"
    using core_find(1) [OF assms] entry_of_None [of _ es] by (metis list.set_map map_of_eq_None_keys subset_antisym subset_iff)
  moreover have "distinct (map fst (lfu_mm s))" "distinct (map lfu_key es)"
    using assms by (simp_all add: lfu_core_def um_ok_def lists_ok_def)
  ultimately have "length (map fst (lfu_mm s)) = length (map lfu_key es)" by (metis distinct_card)
  then show ?thesis by simp
qed

text \<open>Using an entry moves its node to the list of the next frequency.\<close>

lemma updateFreq_core:
  assumes "lfu_core s es" "entry_of k es = Some e"
  shows "\<exists>s'. updateFreq k s = Some s' \<and> lfu_core s' (use_entry e es) \<and> Tcapacity s' = Tcapacity s \<and>
    minFrequency s' = (if minFrequency s = lfu_freq e \<and> (\<forall>x \<in> set (drop_key k es). lfu_freq x \<noteq> lfu_freq e) then minFrequency s + 1 else minFrequency s)"
proof -
  obtain a where a: "um_find (lfu_mm s) k = Some a" "um_find (lfu_heap s) a = Some e" "a \<in> set (freq_list s (lfu_freq e))"
    using core_find(2) [OF assms] by blast
  have e: "e \<in> set es" "lfu_key e = k" using entry_of_Some [OF assms(2)] by simp_all
  let ?h = "um_find (lfu_heap s)" and ?ls = "um_at [] (same_freq s)" and ?f = "lfu_freq e" and ?b = "lfu_next s"
  let ?r = "remove1 a (?ls ?f)" and ?n = "e\<lparr>lfu_freq := lfu_freq e + 1\<rparr>"
  have c: "lists_ok ?h ?ls es" "iters_ok ?h (um_find (lfu_mm s))" "\<forall>a. ?b \<le> a \<longrightarrow> ?h a = None" "\<forall>e \<in> set es. 1 \<le> lfu_freq e" "um_ok (lfu_mm s)"
    using assms(1) by (simp_all add: lfu_core_def)
  have b: "?h ?b = None" using c(3) by simp
  have l: "lists_ok (?h(a := None)) (?ls(?f := ?r)) (drop_key k es)" using lists_unlink [OF c(1) a(2) c(2)] e(2) by simp
  have "lfu_key ?n \<notin> lfu_key ` set (drop_key k es)" using e(2) by (auto simp: drop_key_def)
  from lists_link [OF l _ this, of ?b] b
  have l2: "lists_ok (?h(a := None, ?b \<mapsto> ?n)) ((?ls(?f := ?r))(?f + 1 := ?b # (?ls(?f := ?r)) (?f + 1))) (use_entry e es)"
    using e(2) by (simp add: use_entry_def)
  have i2: "iters_ok (?h(a := None, ?b \<mapsto> ?n)) ((um_find (lfu_mm s))(k \<mapsto> ?b))"
    using iters_move [OF c(2) a(2) b, of ?n] e(2) by simp
  have "length ?r = length (filter (\<lambda>x. lfu_freq x = ?f) (drop_key k es))" using lists_length [OF l, of ?f] by simp
  then have empty: "?r = [] \<longleftrightarrow> (\<forall>x \<in> set (drop_key k es). lfu_freq x \<noteq> ?f)"
    by (simp only: length_0_conv [symmetric]) (simp only: length_0_conv filter_empty_conv)
  have "\<forall>x \<in> set (use_entry e es). 1 \<le> lfu_freq x" using c(4) e(1) by (auto simp: use_entry_def drop_key_def)
  moreover have "\<lparr>lfu_key = k, lfu_value = lfu_value e, lfu_freq = ?f + 1\<rparr> = ?n" using e(2) by simp
  ultimately show ?thesis
    using a l2 i2 c(3,5) empty
    by (cases "?r = []") (simp_all add: updateFreq_def lfu_erase_def lfu_push_front_def lfu_set_iter_def lfu_core_def Let_def cxx_map cxx_inv)
qed

lemma use_entry_least:
  assumes "entry_of k es = Some e" "m = least_freq es" "distinct (map lfu_key es)"
  shows "least_freq (use_entry e es) = (if m = lfu_freq e \<and> (\<forall>x \<in> set (drop_key k es). lfu_freq x \<noteq> lfu_freq e) then m + 1 else m)"
proof -
  have e: "e \<in> set es" "lfu_key e = k" using entry_of_Some [OF assms(1)] by simp_all
  then have "es \<noteq> []" by auto
  note least = least_freq_props [OF this, folded assms(2)]
  let ?n = "e\<lparr>lfu_freq := lfu_freq e + 1\<rparr>"
  have set_eq: "set (use_entry e es) = insert ?n (set (drop_key k es))" using e(2) by (simp add: use_entry_def)
  have ge: "m \<le> lfu_freq x" if "x \<in> set (use_entry e es)" for x
    using that least(2) e(1) by (auto simp: set_eq drop_key_def intro: order_trans [OF least(2) [OF e(1)]])
  show ?thesis
  proof (cases "m = lfu_freq e \<and> (\<forall>x \<in> set (drop_key k es). lfu_freq x \<noteq> lfu_freq e)")
    case True
    then have "m + 1 \<le> lfu_freq x" if "x \<in> set (use_entry e es)" for x using that ge [OF that] by (auto simp: set_eq)
    then have "least_freq (use_entry e es) = m + 1" using True by (intro least_freq_eqI [of _ _ ?n]) (auto simp: set_eq)
    then show ?thesis using True by simp
  next
    case False
    have "\<exists>x \<in> set (drop_key k es). lfu_freq x = m"
    proof (cases "m = lfu_freq e")
      case neq: False
      obtain x where x: "x \<in> set es" "lfu_freq x = m" using least(1) by blast
      show ?thesis
      proof (cases "lfu_key x = k")
        case True
        then have "x = e" using x(1) e assms(3) distinct_keys_eq by blast
        then show ?thesis using x(2) neq by simp
      qed (use x in \<open>auto simp: drop_key_def\<close>)
    qed (use False in auto)
    then obtain x where "x \<in> set (use_entry e es)" "lfu_freq x = m" by (auto simp: set_eq)
    then have "least_freq (use_entry e es) = m" using ge least_freq_eqI by blast
    then show ?thesis using False by simp
  qed
qed

lemma updateFreq_rel:
  assumes "lfu_rel s es" "entry_of k es = Some e"
  shows "\<exists>s'. updateFreq k s = Some s' \<and> lfu_rel s' (use_entry e es) \<and> Tcapacity s' = Tcapacity s"
proof -
  have "es \<noteq> []" using assms(2) by (auto simp: entry_of_def)
  then have m: "minFrequency s = least_freq es" and d: "distinct (map lfu_key es)" using assms(1) by (simp_all add: lfu_rel_def lfu_core_def lists_ok_def)
  then show ?thesis
    using updateFreq_core [OF _ assms(2), of s] assms(1) use_entry_least [OF assms(2) m d] by (auto simp: lfu_rel_def)
qed

lemma butlast_remove1: "distinct l \<Longrightarrow> l \<noteq> [] \<Longrightarrow> butlast l = remove1 (last l) l"
  by (induction l) (auto simp: last_in_set)

lemma lfu_evict_core:
  assumes "lfu_rel s es" "es \<noteq> []"
  shows "\<exists>s'. lfu_evict s = Some s' \<and> lfu_core s' (drop_key (lfu_key (lfu_victim es)) es) \<and> Tcapacity s' = Tcapacity s"
proof -
  let ?h = "um_find (lfu_heap s)" and ?f = "minFrequency s"
  let ?l = "freq_list s ?f"
  have c: "lists_ok ?h (um_at [] (same_freq s)) es" "iters_ok ?h (um_find (lfu_mm s))" "\<forall>a. lfu_next s \<le> a \<longrightarrow> ?h a = None"
    "\<forall>e \<in> set es. 1 \<le> lfu_freq e" "um_ok (lfu_mm s)" and m: "?f = least_freq es"
    using assms by (simp_all add: lfu_rel_def lfu_core_def)
  have l: "map ?h ?l = map Some (filter (\<lambda>e. lfu_freq e = ?f) es)" "distinct ?l" using c(1) by (simp_all add: lists_ok_def)
  have ne: "?l \<noteq> []" using least_freq_props(1) [OF assms(2)] lists_length [OF c(1), of ?f] m by (auto simp: filter_empty_conv)
  then have "?h (last ?l) = last (map ?h ?l)" by (simp add: last_map)
  also have "\<dots> = Some (lfu_victim es)" using ne l(1) unfolding lfu_victim_def m by (metis last_map map_is_Nil_conv)
  finally have v: "?h (last ?l) = Some (lfu_victim es)" .
  obtain x where x: "x \<in> set es" "?h (last ?l) = Some x" "lfu_freq x = ?f" using lists_entry(3) [OF c(1) last_in_set [OF ne]] by blast
  then have f: "lfu_freq (lfu_victim es) = ?f" using v by simp
  have "lists_ok (?h(last ?l := None)) ((um_at [] (same_freq s))(?f := butlast ?l)) (drop_key (lfu_key (lfu_victim es)) es)"
    using lists_unlink [OF c(1) v c(2)] by (simp add: f butlast_remove1 [OF l(2) ne])
  moreover have "iters_ok (?h(last ?l := None)) ((um_find (lfu_mm s))(lfu_key (lfu_victim es) := None))" by (rule iters_drop [OF c(2) v])
  moreover have "\<forall>e \<in> set (drop_key (lfu_key (lfu_victim es)) es). 1 \<le> lfu_freq e" using c(4) by (simp add: drop_key_def)
  ultimately show ?thesis
    using ne v c(3,5)
    by (cases "butlast ?l = []") (simp_all add: lfu_evict_def lfu_core_def Let_def cxx_map cxx_inv)
qed

lemma lfu_insert_rel:
  assumes "lfu_core s es" "entry_of k es = None"
  shows "lfu_rel (lfu_set_iter k 1 (lfu_push_front 1 \<lparr>lfu_key = k, lfu_value = v, lfu_freq = 1\<rparr> (s\<lparr>minFrequency := 1\<rparr>)))
    (\<lparr>lfu_key = k, lfu_value = v, lfu_freq = 1\<rparr> # es)"
proof -
  let ?h = "um_find (lfu_heap s)" and ?n = "\<lparr>lfu_key = k, lfu_value = v, lfu_freq = 1\<rparr>"
  have c: "lists_ok ?h (um_at [] (same_freq s)) es" "iters_ok ?h (um_find (lfu_mm s))" "\<forall>a. lfu_next s \<le> a \<longrightarrow> ?h a = None"
    "\<forall>e \<in> set es. 1 \<le> lfu_freq e" "um_ok (lfu_mm s)" using assms by (simp_all add: lfu_core_def)
  have "lists_ok (?h(lfu_next s \<mapsto> ?n)) ((um_at [] (same_freq s))(1 := lfu_next s # freq_list s 1)) (?n # es)"
    using lists_link [OF c(1), of "lfu_next s" ?n] c(3) assms(2) by (simp add: entry_of_None)
  moreover have "iters_ok (?h(lfu_next s \<mapsto> ?n)) ((um_find (lfu_mm s))(k \<mapsto> lfu_next s))"
    using iters_new [OF c(2), of "lfu_next s" ?n] c(3) core_find(1) [OF assms(1)] assms(2) by simp
  moreover have "least_freq (?n # es) = 1" using c(4) by (intro least_freq_eqI [of _ _ ?n]) auto
  ultimately show ?thesis
    using c by (simp add: lfu_rel_def lfu_core_def lfu_set_iter_def lfu_push_front_def cxx_map cxx_inv)
qed

lemma core_assign:
  assumes "lfu_core s es" "um_find (lfu_heap s) a = Some n"
  shows "lfu_core (s\<lparr>lfu_heap := um_put a (n\<lparr>lfu_value := v\<rparr>) (lfu_heap s)\<rparr>) (assign_value (lfu_key n) v es)"
proof -
  let ?h = "um_find (lfu_heap s)"
  have c: "lists_ok ?h (um_at [] (same_freq s)) es" "iters_ok ?h (um_find (lfu_mm s))" "\<forall>a. lfu_next s \<le> a \<longrightarrow> ?h a = None"
    "\<forall>e \<in> set es. 1 \<le> lfu_freq e" "um_ok (lfu_mm s)" using assms by (simp_all add: lfu_core_def)
  have "\<forall>e \<in> set (assign_value (lfu_key n) v es). 1 \<le> lfu_freq e" using c(4) by (auto simp: assign_value_def)
  moreover have "\<not> lfu_next s \<le> a" using c(3) assms(2) by auto
  ultimately show ?thesis
    using c lists_assign [OF c(1) assms(2) c(2), of v] iters_assign [OF c(2) assms(2), of "n\<lparr>lfu_value := v\<rparr>"]
    by (simp add: lfu_core_def cxx_map)
qed

lemma entry_of_assign:
  "entry_of k (assign_value k v es) = map_option (\<lambda>e. e\<lparr>lfu_value := v\<rparr>) (entry_of k es)"
  by (induction es) (auto simp: entry_of_def assign_value_def)

lemma lfu_get_refines:
  assumes "lfu_rel s es"
  shows "\<exists>s'. lfu_get k s = Some (fst (spec_get k es), s') \<and> lfu_rel s' (snd (spec_get k es)) \<and> Tcapacity s' = Tcapacity s"
proof (cases "entry_of k es")
  case None
  then show ?thesis using assms core_find(1) [of s es k] by (simp add: lfu_get_def spec_get_def lfu_rel_def)
next
  case (Some e)
  have core: "lfu_core s es" using assms by (simp add: lfu_rel_def)
  obtain a where "um_find (lfu_mm s) k = Some a" "um_find (lfu_heap s) a = Some e" using core_find(2) [OF core Some] by blast
  moreover obtain s' where "updateFreq k s = Some s'" "lfu_rel s' (use_entry e es)" "Tcapacity s' = Tcapacity s"
    using updateFreq_rel [OF assms Some] by blast
  ultimately show ?thesis using Some by (simp add: lfu_get_def spec_get_def)
qed

lemma lfu_put_refines:
  assumes "lfu_rel s es" "Tcapacity s = cap" "0 \<le> cap" "cap < 2 ^ 31"
  shows "\<exists>s'. lfu_put k v s = Some s' \<and> lfu_rel s' (spec_put cap k v es) \<and> Tcapacity s' = cap"
proof (cases "cap = 0")
  case True
  then show ?thesis using assms by (simp add: lfu_put_def spec_put_def)
next
  case pos: False
  have core: "lfu_core s es" using assms(1) by (simp add: lfu_rel_def)
  show ?thesis
  proof (cases "entry_of k es")
    case (Some e)
    have e: "e \<in> set es" "lfu_key e = k" using entry_of_Some [OF Some] by simp_all
    obtain a where a: "um_find (lfu_mm s) k = Some a" "um_find (lfu_heap s) a = Some e" using core_find(2) [OF core Some] by blast
    let ?s = "s\<lparr>lfu_heap := um_put a (e\<lparr>lfu_value := v\<rparr>) (lfu_heap s)\<rparr>"
    have "least_freq (assign_value k v es) = least_freq es" by (simp add: least_freq_def del: set_map)
    then have "lfu_rel ?s (assign_value k v es)"
      using core_assign [OF core a(2), of v] e(2) assms(1) by (auto simp: lfu_rel_def assign_value_def)
    moreover have "entry_of k (assign_value k v es) = Some (e\<lparr>lfu_value := v\<rparr>)" using Some by (simp add: entry_of_assign)
    ultimately obtain s' where "updateFreq k ?s = Some s'" "lfu_rel s' (use_entry (e\<lparr>lfu_value := v\<rparr>) (assign_value k v es))" "Tcapacity s' = Tcapacity s"
      using updateFreq_rel by fastforce
    then show ?thesis using Some a pos assms(2) e(2) by (simp add: lfu_put_def spec_put_def use_entry_def)
  next
    case None
    have size: "int (um_size (lfu_mm s)) = size_t (Tcapacity s) \<longleftrightarrow> int (length es) = cap"
      using core_size [OF core] assms(2-4) by (simp add: size_t_pos)
    have k: "um_find (lfu_mm s) k = None" using core_find(1) [OF core] None by simp
    show ?thesis
    proof (cases "int (length es) = cap")
      case True
      then have "es \<noteq> []" using pos by auto
      then obtain s1 where s1: "lfu_evict s = Some s1" "lfu_core s1 (drop_key (lfu_key (lfu_victim es)) es)" "Tcapacity s1 = Tcapacity s"
        using lfu_evict_core [OF assms(1)] by blast
      have "entry_of k (drop_key (lfu_key (lfu_victim es)) es) = None" using None by (auto simp: entry_of_None drop_key_def)
      from lfu_insert_rel [OF s1(2) this, of v] show ?thesis
        using True pos k None size s1(1,3) assms(2) by (simp add: lfu_put_def spec_put_def Let_def lfu_set_iter_def lfu_push_front_def)
    next
      case False
      then show ?thesis
        using lfu_insert_rel [OF core None, of v] pos k None size assms(2) by (simp add: lfu_put_def spec_put_def Let_def lfu_set_iter_def lfu_push_front_def)
    qed
  qed
qed

fun spec_op :: "int \<Rightarrow> (int, int) cache_op \<Rightarrow> LfuNode list \<Rightarrow> LfuNode list" where
  "spec_op cap (CGet k) es = snd (spec_get k es)"
| "spec_op cap (CPut k v) es = spec_put cap k v es"

lemma lfu_run_refines:
  assumes "lfu_rel s es" "Tcapacity s = cap" "0 \<le> cap" "cap < 2 ^ 31"
  shows "\<exists>s'. cache_run lfu_get lfu_put ops s = Some s' \<and> lfu_rel s' (fold (spec_op cap) ops es) \<and> Tcapacity s' = cap"
  using assms(1,2)
proof (induction ops arbitrary: s es)
  case (Cons p ops)
  show ?case
  proof (cases p)
    case (CGet k)
    obtain s1 where "lfu_get k s = Some (fst (spec_get k es), s1)" "lfu_rel s1 (snd (spec_get k es))" "Tcapacity s1 = cap"
      using lfu_get_refines [OF Cons.prems(1)] Cons.prems(2) by blast
    then show ?thesis using Cons.IH [of s1] CGet by simp
  next
    case (CPut k v)
    obtain s1 where "lfu_put k v s = Some s1" "lfu_rel s1 (spec_put cap k v es)" "Tcapacity s1 = cap"
      using lfu_put_refines [OF Cons.prems assms(3,4)] by blast
    then show ?thesis using Cons.IH [of s1] CPut by simp
  qed
qed simp

lemma lfu_new_rel: "lfu_rel (lfu_new cap) []"
  by (simp add: lfu_rel_def lfu_core_def lfu_new_def lists_ok_def iters_ok_def um_at_def cxx_inv)

lemma drop_victim_length:
  assumes "distinct (map lfu_key es)" "es \<noteq> []"
  shows "length (drop_key (lfu_key (lfu_victim es)) es) < length es"
proof -
  have "filter (\<lambda>e. lfu_freq e = least_freq es) es \<noteq> []" using least_freq_props(1) [OF assms(2)] by (simp add: filter_empty_conv)
  then have "lfu_victim es \<in> set es" unfolding lfu_victim_def using last_in_set by fastforce
  then show ?thesis unfolding drop_key_def by (intro length_filter_less) auto
qed

lemma use_entry_length:
  assumes "entry_of k es = Some e"
  shows "length (use_entry (e\<lparr>lfu_value := v\<rparr>) es) \<le> length es" "length (use_entry e es) \<le> length es"
proof -
  have "length (drop_key (lfu_key e) es) < length es"
    using entry_of_Some [OF assms] unfolding drop_key_def by (intro length_filter_less [of e]) auto
  then show "length (use_entry (e\<lparr>lfu_value := v\<rparr>) es) \<le> length es" "length (use_entry e es) \<le> length es" by (simp_all add: use_entry_def)
qed

lemma spec_op_length:
  assumes "distinct (map lfu_key es)" "int (length es) \<le> cap"
  shows "int (length (spec_op cap p es)) \<le> cap"
proof (cases p)
  case (CGet k)
  show ?thesis
  proof (cases "entry_of k es")
    case (Some e)
    then show ?thesis using CGet assms(2) use_entry_length(2) [OF Some] by (simp add: spec_get_def)
  qed (use CGet assms(2) in \<open>simp add: spec_get_def\<close>)
next
  case (CPut k v)
  show ?thesis
  proof (cases "entry_of k es")
    case (Some e)
    then show ?thesis using CPut assms(2) use_entry_length(1) [OF Some, of v] by (cases "cap = 0") (simp_all add: spec_put_def)
  next
    case None
    show ?thesis
    proof (cases "int (length es) = cap")
      case True
      then show ?thesis using CPut None drop_victim_length [OF assms(1)] by (cases "es = []") (auto simp: spec_put_def)
    qed (use CPut None assms(2) in \<open>auto simp: spec_put_def\<close>)
  qed
qed

text \<open>
  C24. The cache evicts the least frequently used entry, and among those the least recently used one:
  any sequence of lookups and insertions is defined, every lookup returns what the specification
  returns, and the cache never holds more entries than its capacity.
\<close>
theorem lfu_refines:
  assumes "0 \<le> cap" "cap < 2 ^ 31"
  shows "\<exists>s s'. cache_run lfu_get lfu_put ops (lfu_new cap) = Some s \<and>
    lfu_get k s = Some (fst (spec_get k (fold (spec_op cap) ops [])), s') \<and>
    um_size (lfu_mm s) = length (fold (spec_op cap) ops []) \<and> int (um_size (lfu_mm s)) \<le> cap"
proof -
  have run: "\<exists>s. cache_run lfu_get lfu_put ops (lfu_new cap) = Some s \<and> lfu_rel s (fold (spec_op cap) ops [])" for ops
    using lfu_run_refines [OF lfu_new_rel, of cap cap ops] assms by (auto simp: lfu_new_def)
  have len: "int (length (fold (spec_op cap) ops [])) \<le> cap"
  proof (induction ops rule: rev_induct)
    case (snoc p ops)
    have "distinct (map lfu_key (fold (spec_op cap) ops []))" using run [of ops] by (auto simp: lfu_rel_def lfu_core_def lists_ok_def)
    then show ?case using spec_op_length snoc by simp
  qed (use assms in simp)
  obtain s where s: "cache_run lfu_get lfu_put ops (lfu_new cap) = Some s" "lfu_rel s (fold (spec_op cap) ops [])" using run by blast
  then have "um_size (lfu_mm s) = length (fold (spec_op cap) ops [])" using core_size by (simp add: lfu_rel_def)
  then show ?thesis using s len lfu_get_refines [OF s(2), of k] by auto
qed

theorem lfu_refines_witness:
  "\<exists>s s'. cache_run lfu_get lfu_put [CPut 1 10, CPut 2 20, CGet 1, CPut 3 30] (lfu_new 2) = Some s \<and> lfu_get 2 s = Some (-1, s') \<and>
     um_size (lfu_mm s) = 2"
proof -
  have "fold (spec_op 2) [CPut 1 10, CPut 2 20, CGet 1, CPut 3 30] [] =
      [\<lparr>lfu_key = 3, lfu_value = 30, lfu_freq = 1\<rparr>, \<lparr>lfu_key = 1, lfu_value = 10, lfu_freq = 2\<rparr>]" by code_simp
  then show ?thesis using lfu_refines [of 2 "[CPut 1 10, CPut 2 20, CGet 1, CPut 3 30]" 2]
    by (auto simp: spec_get_def entry_of_def numeral_2_eq_2 simp del: cache_run.simps fold_simps)
qed

text \<open>
  C25. The structure stays well formed: in every state the cache reaches, the iterator of a key leads to
  a live node with that key, which is in the list of its frequency and in no other, and every node in
  a list is live and has an iterator.
\<close>
theorem lfu_well_formed:
  assumes "0 \<le> cap" "cap < 2 ^ 31" "cache_run lfu_get lfu_put ops (lfu_new cap) = Some s"
  shows "(um_find (lfu_mm s) k = Some a \<longrightarrow>
      (\<exists>n. um_find (lfu_heap s) a = Some n \<and> lfu_key n = k \<and> (\<forall>f. a \<in> set (freq_list s f) \<longleftrightarrow> f = lfu_freq n))) \<and>
    (a \<in> set (freq_list s f) \<longrightarrow> (\<exists>n. um_find (lfu_heap s) a = Some n \<and> um_find (lfu_mm s) (lfu_key n) = Some a)) \<and>
    distinct (freq_list s f)"
proof -
  obtain es where "lfu_rel s es" using lfu_run_refines [OF lfu_new_rel, of cap cap ops] assms by (auto simp: lfu_new_def)
  then have l: "lists_ok (um_find (lfu_heap s)) (um_at [] (same_freq s)) es" and i: "iters_ok (um_find (lfu_heap s)) (um_find (lfu_mm s))"
    by (simp_all add: lfu_rel_def lfu_core_def)
  have "distinct (freq_list s f)" using l by (simp add: lists_ok_def)
  moreover have "\<exists>n. um_find (lfu_heap s) a = Some n \<and> um_find (lfu_mm s) (lfu_key n) = Some a" if "a \<in> set (freq_list s f)"
    using lists_entry(3) [OF l that] i by (auto simp: iters_ok_def)
  moreover have "\<exists>n. um_find (lfu_heap s) a = Some n \<and> lfu_key n = k \<and> (\<forall>f. a \<in> set (freq_list s f) \<longleftrightarrow> f = lfu_freq n)"
    if "um_find (lfu_mm s) k = Some a"
  proof -
    obtain n where n: "um_find (lfu_heap s) a = Some n" "lfu_key n = k" using i \<open>um_find (lfu_mm s) k = Some a\<close> by (auto simp: iters_ok_def)
    then have "a \<in> set (freq_list s f) \<longleftrightarrow> f = lfu_freq n" for f
      using l lists_entry(3) [OF l, of a f] by (auto simp: lists_ok_def)
    then show ?thesis using n by blast
  qed
  ultimately show ?thesis by blast
qed

theorem lfu_well_formed_witness:
  "\<exists>s. cache_run lfu_get lfu_put [CPut 1 10, CGet 1] (lfu_new 2) = Some s \<and> um_find (lfu_mm s) 1 = Some 1 \<and> distinct (freq_list s 2)"
proof -
  have "cache_run lfu_get lfu_put [CPut 1 10, CGet 1] (lfu_new 2) =
      Some \<lparr>lfu_heap = [(1, \<lparr>lfu_key = 1, lfu_value = 10, lfu_freq = 2\<rparr>)], lfu_next = 2, same_freq = [(2, [1])], lfu_mm = [(1, 1)], minFrequency = 2, Tcapacity = 2\<rparr>"
    by code_simp
  from this lfu_well_formed [OF _ _ this, of 1 1 2] show ?thesis by simp
qed

end
