(* ===== verification/Priority_Cache.thy ===== *)
theory Priority_Cache
  imports Indexed_List "HOL-Library.Product_Lexorder"
begin

text \<open>
  The cache of \<^verbatim>\<open>caching/LRUcache_priority_based_eviction.cpp\<close>: the list and key map of the other caches,
  and a \<^verbatim>\<open>std::set\<close> of list iterators ordered by the priority and key of their nodes. The set is a list
  of addresses. Its comparisons follow the iterators, so an operation on the set is defined only if
  every element leads to a node; a node changed while in the set would break the order.
\<close>

record PriorityCache =
  pc_list :: "(int, int \<times> int) ilist"
  priority_set :: "nat list"
  pc_capacity :: int

definition prio_new :: "int \<Rightarrow> PriorityCache" where
  "prio_new cap = \<lparr>pc_list = il_new, priority_set = [], pc_capacity = cap\<rparr>"

text \<open>What \<^verbatim>\<open>Compare\<close> looks at, and the set operations.\<close>

definition pc_rank :: "(int, int \<times> int) ilist \<Rightarrow> nat \<Rightarrow> (int \<times> int) option" where
  "pc_rank l a = map_option (\<lambda>(k, v, p). (p, k)) (il_at a l)"

definition pset_insert :: "(int, int \<times> int) ilist \<Rightarrow> nat \<Rightarrow> nat list \<Rightarrow> nat list option" where
  "pset_insert l a ps = do {
     r \<leftarrow> pc_rank l a;
     rs \<leftarrow> those (map (pc_rank l) ps);
     Some (if r \<in> set rs then ps
           else map snd (takeWhile (\<lambda>(q, _). q < r) (zip rs ps)) @ [a] @ map snd (dropWhile (\<lambda>(q, _). q < r) (zip rs ps)))
   }"

definition pset_erase :: "(int, int \<times> int) ilist \<Rightarrow> nat \<Rightarrow> nat list \<Rightarrow> nat list option" where
  "pset_erase l a ps = do {
     r \<leftarrow> pc_rank l a;
     rs \<leftarrow> those (map (pc_rank l) ps);
     Some (map snd (filter (\<lambda>(q, _). q \<noteq> r) (zip rs ps)))
   }"

definition pc_get :: "int \<Rightarrow> PriorityCache \<Rightarrow> int option" where
  "pc_get k s =
     (case um_find (mm (pc_list s)) k of
        None \<Rightarrow> Some (-1)
      | Some a \<Rightarrow> do { (_, v, _) \<leftarrow> il_at a (pc_list s); Some v })"

definition pc_put :: "int \<Rightarrow> int \<Rightarrow> int \<Rightarrow> PriorityCache \<Rightarrow> PriorityCache option" where
  "pc_put k v p s =
     (case um_find (mm (pc_list s)) k of
        Some a \<Rightarrow> do {
          ps \<leftarrow> pset_erase (pc_list s) a (priority_set s);
          l \<leftarrow> il_assign a (v, p) (pc_list s);
          ps \<leftarrow> pset_insert l a ps;
          Some (s\<lparr>pc_list := l, priority_set := ps\<rparr>)
        }
      | None \<Rightarrow>
          if pc_capacity s = 0 then Some s
          else do {
            s \<leftarrow> (if int (um_size (mm (pc_list s))) = size_t (pc_capacity s) \<and> priority_set s \<noteq> []
                  then do {
                    (victim, _) \<leftarrow> il_at (hd (priority_set s)) (pc_list s);
                    l \<leftarrow> il_erase (hd (priority_set s)) (mm_erase victim (pc_list s));
                    Some (s\<lparr>pc_list := l, priority_set := tl (priority_set s)\<rparr>)
                  }
                  else Some s);
            let l = il_insert k (v, p) (pc_list s);
            ps \<leftarrow> pset_insert l (il_begin l) (priority_set s);
            Some (s\<lparr>pc_list := l, priority_set := ps\<rparr>)
          })"

definition pc_update_priority :: "int \<Rightarrow> int \<Rightarrow> PriorityCache \<Rightarrow> PriorityCache option" where
  "pc_update_priority k p s =
     (case um_find (mm (pc_list s)) k of
        None \<Rightarrow> Some s
      | Some a \<Rightarrow> do {
          ps \<leftarrow> pset_erase (pc_list s) a (priority_set s);
          (_, v, _) \<leftarrow> il_at a (pc_list s);
          l \<leftarrow> il_assign a (v, p) (pc_list s);
          ps \<leftarrow> pset_insert l a ps;
          Some (s\<lparr>pc_list := l, priority_set := ps\<rparr>)
        })"

definition pc_erase :: "int \<Rightarrow> PriorityCache \<Rightarrow> PriorityCache option" where
  "pc_erase k s =
     (case um_find (mm (pc_list s)) k of
        None \<Rightarrow> Some s
      | Some a \<Rightarrow> do {
          ps \<leftarrow> pset_erase (pc_list s) a (priority_set s);
          l \<leftarrow> il_erase a (pc_list s);
          Some (s\<lparr>pc_list := mm_erase k l, priority_set := ps\<rparr>)
        })"

section \<open>The specification\<close>

text \<open>Entries, latest insertion first. The victim is the entry of least priority, then least key.\<close>

type_synonym pc_entries = "(int \<times> int \<times> int) list"

definition ranks :: "pc_entries \<Rightarrow> (int \<times> int) list" where
  "ranks es = map (\<lambda>(k, v, p). (p, k)) es"

definition pc_victim :: "pc_entries \<Rightarrow> int" where
  "pc_victim es = snd (Min (set (ranks es)))"

definition pc_spec_put :: "int \<Rightarrow> int \<Rightarrow> int \<Rightarrow> int \<Rightarrow> pc_entries \<Rightarrow> pc_entries" where
  "pc_spec_put cap k v p es =
     (case map_of es k of
        Some _ \<Rightarrow> assign_entry k (v, p) es
      | None \<Rightarrow> if cap = 0 then es
          else (k, v, p) # (if int (length es) = cap then AList.delete (pc_victim es) es else es))"

definition pc_spec_update :: "int \<Rightarrow> int \<Rightarrow> pc_entries \<Rightarrow> pc_entries" where
  "pc_spec_update k p es = (case map_of es k of None \<Rightarrow> es | Some (v, _) \<Rightarrow> assign_entry k (v, p) es)"

section \<open>Refinement\<close>

abbreviation rank :: "(int, int \<times> int) ilist \<Rightarrow> nat \<Rightarrow> int \<times> int" where
  "rank l a \<equiv> the (pc_rank l a)"

definition pset_ok :: "(int, int \<times> int) ilist \<Rightarrow> nat list \<Rightarrow> bool" where
  "pset_ok l ps \<longleftrightarrow> sorted_wrt (\<lambda>a b. rank l a < rank l b) ps \<and> (\<forall>a \<in> set ps. pc_rank l a \<noteq> None)"

definition pc_ok :: "PriorityCache \<Rightarrow> bool" where
  "pc_ok s \<longleftrightarrow> il_ok (pc_list s) \<and> pset_ok (pc_list s) (priority_set s) \<and> set (priority_set s) = fst ` set (nodes (pc_list s))"

lemma those_ranks: "\<forall>a \<in> set ps. pc_rank l a \<noteq> None \<Longrightarrow> those (map (pc_rank l) ps) = Some (map (rank l) ps)"
  by (induction ps) auto

lemma zip_ranks: "zip (map f ps) ps = map (\<lambda>a. (f a, a)) ps"
  by (induction ps) auto

lemma pset_insert_eq:
  assumes "\<forall>a \<in> set ps. pc_rank l a \<noteq> None" "pc_rank l a \<noteq> None" "rank l a \<notin> rank l ` set ps"
  shows "pset_insert l a ps = Some (takeWhile (\<lambda>b. rank l b < rank l a) ps @ [a] @ dropWhile (\<lambda>b. rank l b < rank l a) ps)"
  using assms(2,3) those_ranks [OF assms(1)]
  by (auto simp: pset_insert_def zip_ranks takeWhile_map dropWhile_map comp_def)

lemma pset_erase_eq:
  assumes "\<forall>a \<in> set ps. pc_rank l a \<noteq> None" "pc_rank l a \<noteq> None"
  shows "pset_erase l a ps = Some (filter (\<lambda>b. rank l b \<noteq> rank l a) ps)"
  using assms(2) those_ranks [OF assms(1)]
  by (auto simp: pset_erase_def zip_ranks filter_map comp_def)

lemma sorted_wrt_insert_at:
  fixes r :: "'a \<Rightarrow> 'b::linorder"
  assumes "sorted_wrt (\<lambda>a b. r a < r b) ps" "r a \<notin> r ` set ps"
  shows "sorted_wrt (\<lambda>a b. r a < r b) (takeWhile (\<lambda>b. r b < r a) ps @ [a] @ dropWhile (\<lambda>b. r b < r a) ps)"
  using assms
proof (induction ps)
  case (Cons x ps)
  show ?case
  proof (cases "r x < r a")
    case True
    then show ?thesis using Cons by (auto dest: set_takeWhileD set_dropWhileD)
  next
    case False
    then have "r a < r x" using Cons.prems(2) by (simp add: linorder_not_less le_less)
    then show ?thesis using Cons.prems(1) False by (auto intro: less_trans)
  qed
qed simp

text \<open>Ranks of live nodes are distinct, since keys are.\<close>

lemma rank_node: "il_ok l \<Longrightarrow> (a, k, v, p) \<in> set (nodes l) \<Longrightarrow> pc_rank l a = Some (p, k)"
  by (simp add: pc_rank_def il_at_def il_ok_def)

lemma rank_live: "il_ok l \<Longrightarrow> pc_rank l a \<noteq> None \<longleftrightarrow> a \<in> fst ` set (nodes l)"
  by (simp add: pc_rank_def il_at_def map_of_eq_None_iff)

lemma rank_inj:
  assumes "il_ok l" "a \<in> fst ` set (nodes l)" "b \<in> fst ` set (nodes l)" "rank l a = rank l b"
  shows "a = b"
proof -
  obtain k v p where n: "(a, k, v, p) \<in> set (nodes l)" using assms(2) by auto
  obtain k' v' p' where n': "(b, k', v', p') \<in> set (nodes l)" using assms(3) by auto
  have "k = k'" using rank_node [OF assms(1) n] rank_node [OF assms(1) n'] assms(4) by simp
  then show ?thesis using il_ok_same [OF assms(1) n n'] by simp
qed

lemma pset_ok_cong: "pset_ok l ps \<Longrightarrow> (\<And>a. a \<in> set ps \<Longrightarrow> pc_rank l' a = pc_rank l a) \<Longrightarrow> pset_ok l' ps"
  unfolding pset_ok_def by (metis (mono_tags, lifting) sorted_wrt_mono_rel)

lemma pset_ok_filter: "pset_ok l ps \<Longrightarrow> pset_ok l (filter P ps)"
  unfolding pset_ok_def by (simp add: sorted_wrt_filter)

lemma pset_erase_live:
  assumes "il_ok l" "pset_ok l ps" "set ps = fst ` set (nodes l)" "a \<in> fst ` set (nodes l)"
  shows "pset_erase l a ps = Some (filter (\<lambda>b. b \<noteq> a) ps)"
proof -
  have "filter (\<lambda>b. rank l b \<noteq> rank l a) ps = filter (\<lambda>b. b \<noteq> a) ps"
    using rank_inj [OF assms(1) _ assms(4)] assms(3) by (intro filter_cong) auto
  moreover have "pc_rank l a \<noteq> None" using rank_live [OF assms(1)] assms(4) by blast
  ultimately show ?thesis using pset_erase_eq [of ps l a] assms(2) by (simp add: pset_ok_def)
qed

lemma pset_insert_live:
  assumes "il_ok l" "pset_ok l ps" "a \<in> fst ` set (nodes l)" "set ps = fst ` set (nodes l) - {a}"
  shows "\<exists>ps'. pset_insert l a ps = Some ps' \<and> pset_ok l ps' \<and> set ps' = fst ` set (nodes l)"
proof -
  let ?ps = "takeWhile (\<lambda>b. rank l b < rank l a) ps @ [a] @ dropWhile (\<lambda>b. rank l b < rank l a) ps"
  have "rank l a \<noteq> rank l b" if "b \<in> set ps" for b using rank_inj [OF assms(1,3), of b] assms(4) that by blast
  then have new: "rank l a \<notin> rank l ` set ps" by blast
  have live: "pc_rank l a \<noteq> None" using rank_live [OF assms(1)] assms(3) by blast
  have "set (takeWhile (\<lambda>b. rank l b < rank l a) ps) \<union> set (dropWhile (\<lambda>b. rank l b < rank l a) ps) = set ps"
    by (metis set_append takeWhile_dropWhile_id)
  then have sets: "set ?ps = insert a (set ps)" by auto
  have "pset_ok l ?ps"
    unfolding pset_ok_def
  proof
    show "sorted_wrt (\<lambda>a b. rank l a < rank l b) ?ps"
      using assms(2) by (intro sorted_wrt_insert_at new) (simp add: pset_ok_def)
    show "\<forall>b \<in> set ?ps. pc_rank l b \<noteq> None" unfolding sets using assms(2) live by (simp add: pset_ok_def)
  qed
  moreover have "set ?ps = fst ` set (nodes l)" using sets assms(3,4) by blast
  moreover have "pset_insert l a ps = Some ?ps" using pset_insert_eq [OF _ live new] assms(2) by (simp add: pset_ok_def)
  ultimately show ?thesis by (intro exI [of _ ?ps] conjI)
qed

lemma il_at_assign: "il_assign a w l = Some l' \<Longrightarrow> b \<noteq> a \<Longrightarrow> il_at b l' = il_at b l"
  "il_assign a w l = Some l' \<Longrightarrow> fst ` set (nodes l') = fst ` set (nodes l)"
proof -
  assume "il_assign a w l = Some l'"
  then have n: "nodes l' = map (\<lambda>(b, k, x). (b, k, if b = a then w else x)) (nodes l)"
    by (auto simp: il_assign_def split: bind_splits)
  show "fst ` set (nodes l') = fst ` set (nodes l)" by (force simp: n)
  have "map_of (map (\<lambda>(b, k, x). (b, k, if b = a then w else x)) ns) b = map_of ns b" if "b \<noteq> a" for ns :: "(nat \<times> 'a \<times> 'b) list"
    using that by (induction ns) auto
  then show "b \<noteq> a \<Longrightarrow> il_at b l' = il_at b l" by (simp add: il_at_def n)
qed

lemma pc_address:
  assumes "il_ok l" "um_find (mm l) k = Some a"
  shows "a \<in> fst ` set (nodes l)"
  using il_ok_node [OF assms] by (metis fst_conv image_eqI)

text \<open>Changing a node: out of the set, assigned, back into the set.\<close>

lemma pc_replace:
  assumes "pc_ok s" "um_find (mm (pc_list s)) k = Some a"
  shows "\<exists>ps l ps'. pset_erase (pc_list s) a (priority_set s) = Some ps \<and> il_assign a w (pc_list s) = Some l \<and>
    pset_insert l a ps = Some ps' \<and> pc_ok (s\<lparr>pc_list := l, priority_set := ps'\<rparr>) \<and> entries l = assign_entry k w (entries (pc_list s))"
proof -
  let ?l = "pc_list s" and ?ps = "priority_set s"
  have ok: "il_ok ?l" "pset_ok ?l ?ps" "set ?ps = fst ` set (nodes ?l)" using assms(1) by (simp_all add: pc_ok_def)
  have a: "a \<in> fst ` set (nodes ?l)" using pc_address [OF ok(1) assms(2)] .
  obtain l where l: "il_assign a w ?l = Some l" "il_ok l" "entries l = assign_entry k w (entries ?l)"
    using il_assign_ok [OF ok(1) assms(2)] by blast
  have "pset_ok l (filter (\<lambda>b. b \<noteq> a) ?ps)"
    using pset_ok_cong [OF pset_ok_filter [OF ok(2)]] il_at_assign(1) [OF l(1)] by (simp add: pc_rank_def)
  moreover have "set (filter (\<lambda>b. b \<noteq> a) ?ps) = fst ` set (nodes l) - {a}" using il_at_assign(2) [OF l(1)] ok(3) by auto
  moreover have "a \<in> fst ` set (nodes l)" using a il_at_assign(2) [OF l(1)] by simp
  ultimately obtain ps' where "pset_insert l a (filter (\<lambda>b. b \<noteq> a) ?ps) = Some ps'" "pset_ok l ps'" "set ps' = fst ` set (nodes l)"
    using pset_insert_live [OF l(2)] by blast
  then show ?thesis using pset_erase_live [OF ok a] l by (auto simp: pc_ok_def)
qed

lemma il_remove_nodes:
  assumes "il_ok l" "um_find (mm l) k = Some a"
  shows "\<exists>l'. il_remove k a l = Some l' \<and> il_ok l' \<and> entries l' = AList.delete k (entries l) \<and> fst ` set (nodes l') = fst ` set (nodes l) - {a} \<and>
    (\<forall>b. b \<noteq> a \<longrightarrow> il_at b l' = il_at b l)"
proof -
  obtain l' where l': "il_remove k a l = Some l'" "il_ok l'" "entries l' = AList.delete k (entries l)" using il_remove_ok [OF assms] by blast
  then have "nodes l' = AList.delete a (nodes l)" by (auto simp: il_remove_def il_erase_def mm_erase_def split: bind_splits)
  then show ?thesis using l' by (auto simp: set_alist_delete il_at_def delete_conv')
qed

lemma il_erase_after_mm: "il_erase a (mm_erase k l) = il_remove k a l"
  by (simp add: il_remove_def il_erase_def mm_erase_def il_at_def split: bind_splits)

lemma pc_insert:
  assumes "pc_ok s" "map_of (entries (pc_list s)) k = None"
  shows "\<exists>ps. pset_insert (il_insert k w (pc_list s)) (il_begin (il_insert k w (pc_list s))) (priority_set s) = Some ps \<and>
    pc_ok (s\<lparr>pc_list := il_insert k w (pc_list s), priority_set := ps\<rparr>) \<and> entries (il_insert k w (pc_list s)) = (k, w) # entries (pc_list s)"
proof -
  let ?l = "pc_list s" and ?l' = "il_insert k w (pc_list s)"
  have ok: "il_ok ?l" "pset_ok ?l (priority_set s)" "set (priority_set s) = fst ` set (nodes ?l)" using assms(1) by (simp_all add: pc_ok_def)
  have n: "nodes ?l' = (fresh ?l, k, w) # nodes ?l" "il_begin ?l' = fresh ?l"
    by (simp_all add: il_insert_def il_push_front_def mm_put_def il_begin_def)
  have f: "fresh ?l \<notin> fst ` set (nodes ?l)" using ok(1) by (force simp: il_ok_def)
  have "pc_rank ?l' a = pc_rank ?l a" if "a \<in> set (priority_set s)" for a
  proof -
    have "a \<noteq> fresh ?l" using that f ok(3) by metis
    then show ?thesis by (simp add: pc_rank_def il_at_def n)
  qed
  from pset_ok_cong [OF ok(2) this] have "pset_ok ?l' (priority_set s)" .
  moreover have "set (priority_set s) = fst ` set (nodes ?l') - {fresh ?l}" using f ok(3) n by simp
  ultimately show ?thesis
    using pset_insert_live [of ?l' "priority_set s" "fresh ?l"] il_insert_ok [OF ok(1) assms(2), of w] n by (auto simp: pc_ok_def)
qed

lemma victim_first:
  assumes "pc_ok s" "priority_set s \<noteq> []"
  shows "\<exists>v p. (hd (priority_set s), pc_victim (entries (pc_list s)), v, p) \<in> set (nodes (pc_list s))"
proof -
  let ?l = "pc_list s" and ?ps = "priority_set s"
  have ok: "il_ok ?l" "pset_ok ?l ?ps" "set ?ps = fst ` set (nodes ?l)" using assms(1) by (simp_all add: pc_ok_def)
  obtain b ps where ps: "?ps = b # ps" using assms(2) by (cases ?ps) auto
  then obtain k v p where n: "(b, k, v, p) \<in> set (nodes ?l)" using ok(3) by fastforce
  have "rank ?l ` fst ` set (nodes ?l) = set (ranks (entries ?l))"
    using rank_node [OF ok(1)] by (force simp: ranks_def entries_def image_iff)
  then have rs: "set (ranks (entries ?l)) = rank ?l ` set ?ps" by (simp add: ok(3))
  have "rank ?l b \<le> rank ?l c" if "c \<in> set ?ps" for c
    using ok(2) that ps by (auto simp: pset_ok_def)
  then have "Min (set (ranks (entries ?l))) = rank ?l b"
    unfolding rs using ps by (intro Min_eqI) auto
  then have "pc_victim (entries ?l) = k" using rank_node [OF ok(1) n] by (simp add: pc_victim_def)
  then show ?thesis using n ps by auto
qed

lemma pc_evict:
  assumes "pc_ok s" "priority_set s \<noteq> []"
  shows "\<exists>v l. il_at (hd (priority_set s)) (pc_list s) = Some (pc_victim (entries (pc_list s)), v) \<and>
    il_erase (hd (priority_set s)) (mm_erase (pc_victim (entries (pc_list s))) (pc_list s)) = Some l \<and>
    pc_ok (s\<lparr>pc_list := l, priority_set := tl (priority_set s)\<rparr>) \<and> entries l = AList.delete (pc_victim (entries (pc_list s))) (entries (pc_list s))"
proof -
  let ?l = "pc_list s" and ?k = "pc_victim (entries (pc_list s))"
  have ok: "il_ok ?l" "pset_ok ?l (priority_set s)" "set (priority_set s) = fst ` set (nodes ?l)" using assms(1) by (simp_all add: pc_ok_def)
  obtain b ps where ps: "priority_set s = b # ps" using assms(2) by (cases "priority_set s") auto
  obtain v p where n: "(b, ?k, v, p) \<in> set (nodes ?l)" using victim_first [OF assms] ps by auto
  then have find: "um_find (mm ?l) ?k = Some b" using ok(1) by (auto simp: il_ok_def)
  have at: "il_at b ?l = Some (?k, v, p)" using n ok(1) by (simp add: il_at_def il_ok_def)
  obtain l where l: "il_remove ?k b ?l = Some l" "il_ok l" "entries l = AList.delete ?k (entries ?l)" "fst ` set (nodes l) = fst ` set (nodes ?l) - {b}"
    "\<And>c. c \<noteq> b \<Longrightarrow> il_at c l = il_at c ?l" using il_remove_nodes [OF ok(1) find] by blast
  have nb: "b \<notin> set ps" using ok(2) ps by (auto simp: pset_ok_def)
  have "pset_ok ?l ps" using ok(2) ps by (simp add: pset_ok_def)
  moreover have "pc_rank l a = pc_rank ?l a" if "a \<in> set ps" for a
  proof -
    have "a \<noteq> b" using that nb by blast
    then show ?thesis by (simp add: pc_rank_def l(5))
  qed
  ultimately have "pset_ok l ps" using pset_ok_cong by blast
  moreover have "set ps = fst ` set (nodes l)" using nb ps ok(3) l(4) by auto
  ultimately show ?thesis using at l(1-3) ps by (simp add: il_erase_after_mm pc_ok_def)
qed

lemma pc_set_empty:
  assumes "pc_ok s"
  shows "priority_set s = [] \<longleftrightarrow> entries (pc_list s) = []"
proof -
  have "set (priority_set s) = fst ` set (nodes (pc_list s))" using assms by (simp add: pc_ok_def)
  then have "set (priority_set s) = {} \<longleftrightarrow> set (nodes (pc_list s)) = {}" by simp
  then show ?thesis by (simp add: entries_def)
qed

text \<open>Every operation keeps the structure and acts on the entries as specified.\<close>

lemma pc_put_spec:
  assumes "pc_ok s" "0 \<le> pc_capacity s" "pc_capacity s < 2 ^ 31"
  shows "\<exists>s'. pc_put k v p s = Some s' \<and> pc_ok s' \<and> pc_capacity s' = pc_capacity s \<and>
    entries (pc_list s') = pc_spec_put (pc_capacity s) k v p (entries (pc_list s))"
proof -
  let ?l = "pc_list s"
  have il: "il_ok ?l" using assms(1) by (simp add: pc_ok_def)
  show ?thesis
  proof (cases "um_find (mm ?l) k")
    case (Some a)
    obtain ps l ps' where "pset_erase ?l a (priority_set s) = Some ps" "il_assign a (v, p) ?l = Some l" "pset_insert l a ps = Some ps'"
      "pc_ok (s\<lparr>pc_list := l, priority_set := ps'\<rparr>)" "entries l = assign_entry k (v, p) (entries ?l)"
      using pc_replace [OF assms(1) Some, of "(v, p)"] by blast
    moreover obtain x where "map_of (entries ?l) k = Some x" using il_ok_find(2) [OF il Some] by blast
    ultimately show ?thesis using Some by (simp add: pc_put_def pc_spec_put_def)
  next
    case None
    then have none: "map_of (entries ?l) k = None" using il_ok_find(1) [OF il] by simp
    show ?thesis
    proof (cases "pc_capacity s = 0")
      case True
      then show ?thesis using None none assms(1) by (simp add: pc_put_def pc_spec_put_def)
    next
      case pos: False
      have size: "int (um_size (mm ?l)) = size_t (pc_capacity s) \<longleftrightarrow> int (length (entries ?l)) = pc_capacity s"
        using il_ok_size [OF il] assms(2,3) by (simp add: size_t_pos entries_def)
      show ?thesis
      proof (cases "int (length (entries ?l)) = pc_capacity s")
        case True
        then have ne: "priority_set s \<noteq> []" using pos pc_set_empty [OF assms(1)] by auto
        obtain w l where w: "il_at (hd (priority_set s)) ?l = Some (pc_victim (entries ?l), w)"
          "il_erase (hd (priority_set s)) (mm_erase (pc_victim (entries ?l)) ?l) = Some l"
          "pc_ok (s\<lparr>pc_list := l, priority_set := tl (priority_set s)\<rparr>)" "entries l = AList.delete (pc_victim (entries ?l)) (entries ?l)"
          using pc_evict [OF assms(1) ne] by blast
        have "map_of (entries l) k = None" using none by (simp add: w(4) delete_conv')
        then show ?thesis
          using pc_insert [OF w(3), of k "(v, p)"] w True ne pos None none size by (auto simp: pc_put_def pc_spec_put_def Let_def)
      next
        case False
        then show ?thesis
          using pc_insert [OF assms(1) none, of "(v, p)"] pos None none size by (auto simp: pc_put_def pc_spec_put_def Let_def)
      qed
    qed
  qed
qed

lemma pc_update_spec:
  assumes "pc_ok s"
  shows "\<exists>s'. pc_update_priority k p s = Some s' \<and> pc_ok s' \<and> pc_capacity s' = pc_capacity s \<and>
    entries (pc_list s') = pc_spec_update k p (entries (pc_list s))"
proof (cases "um_find (mm (pc_list s)) k")
  case (Some a)
  have il: "il_ok (pc_list s)" using assms by (simp add: pc_ok_def)
  obtain v q where v: "il_at a (pc_list s) = Some (k, v, q)" "map_of (entries (pc_list s)) k = Some (v, q)"
    using il_ok_find(2) [OF il Some] by auto
  obtain ps l ps' where "pset_erase (pc_list s) a (priority_set s) = Some ps" "il_assign a (v, p) (pc_list s) = Some l" "pset_insert l a ps = Some ps'"
    "pc_ok (s\<lparr>pc_list := l, priority_set := ps'\<rparr>)" "entries l = assign_entry k (v, p) (entries (pc_list s))"
    using pc_replace [OF assms Some, of "(v, p)"] by blast
  then show ?thesis using Some v by (simp add: pc_update_priority_def pc_spec_update_def)
next
  case None
  then show ?thesis using assms il_ok_find(1) [of "pc_list s" k] by (simp add: pc_update_priority_def pc_spec_update_def pc_ok_def)
qed

lemma pc_erase_spec:
  assumes "pc_ok s"
  shows "\<exists>s'. pc_erase k s = Some s' \<and> pc_ok s' \<and> pc_capacity s' = pc_capacity s \<and> entries (pc_list s') = AList.delete k (entries (pc_list s))"
proof (cases "um_find (mm (pc_list s)) k")
  case (Some a)
  have ok: "il_ok (pc_list s)" "pset_ok (pc_list s) (priority_set s)" "set (priority_set s) = fst ` set (nodes (pc_list s))"
    using assms by (simp_all add: pc_ok_def)
  obtain l where l: "il_remove k a (pc_list s) = Some l" "il_ok l" "entries l = AList.delete k (entries (pc_list s))"
    "fst ` set (nodes l) = fst ` set (nodes (pc_list s)) - {a}" "\<And>b. b \<noteq> a \<Longrightarrow> il_at b l = il_at b (pc_list s)"
    using il_remove_nodes [OF ok(1) Some] by blast
  have "pset_ok l (filter (\<lambda>b. b \<noteq> a) (priority_set s))"
    using pset_ok_cong [OF pset_ok_filter [OF ok(2)]] l(5) by (simp add: pc_rank_def)
  moreover have "set (filter (\<lambda>b. b \<noteq> a) (priority_set s)) = fst ` set (nodes l)" using l(4) ok(3) by auto
  moreover obtain l1 where "il_erase a (pc_list s) = Some l1" "l = mm_erase k l1" using l(1) by (auto simp: il_remove_def split: bind_splits)
  ultimately show ?thesis
    using Some l pset_erase_live [OF ok pc_address [OF ok(1) Some]] by (simp add: pc_erase_def pc_ok_def)
next
  case None
  then have "map_of (entries (pc_list s)) k = None" using assms il_ok_find(1) [of "pc_list s" k] by (simp add: pc_ok_def)
  then show ?thesis using None assms by (simp add: pc_erase_def um_erase_absent)
qed

text \<open>Runs of the cache and of the specification.\<close>

datatype pc_op = PPut int int int | PUpdate int int | PErase int

fun pc_run :: "pc_op list \<Rightarrow> PriorityCache \<Rightarrow> PriorityCache option" where
  "pc_run [] s = Some s"
| "pc_run (PPut k v p # ps) s = do { s \<leftarrow> pc_put k v p s; pc_run ps s }"
| "pc_run (PUpdate k p # ps) s = do { s \<leftarrow> pc_update_priority k p s; pc_run ps s }"
| "pc_run (PErase k # ps) s = do { s \<leftarrow> pc_erase k s; pc_run ps s }"

fun pc_spec :: "int \<Rightarrow> pc_op \<Rightarrow> pc_entries \<Rightarrow> pc_entries" where
  "pc_spec cap (PPut k v p) es = pc_spec_put cap k v p es"
| "pc_spec cap (PUpdate k p) es = pc_spec_update k p es"
| "pc_spec cap (PErase k) es = AList.delete k es"

lemma pc_run_refines:
  assumes "pc_ok s" "0 \<le> pc_capacity s" "pc_capacity s < 2 ^ 31"
  shows "\<exists>s'. pc_run ps s = Some s' \<and> pc_ok s' \<and> entries (pc_list s') = fold (pc_spec (pc_capacity s)) ps (entries (pc_list s))"
  using assms
proof (induction ps arbitrary: s)
  case (Cons q ps)
  obtain s1 where s1: "pc_run (q # ps) s = pc_run ps s1" "pc_ok s1" "pc_capacity s1 = pc_capacity s"
    "entries (pc_list s1) = pc_spec (pc_capacity s) q (entries (pc_list s))"
  proof (cases q)
    case (PPut k v p)
    then show ?thesis using pc_put_spec [OF Cons.prems, of k v p] that by auto
  next
    case (PUpdate k p)
    then show ?thesis using pc_update_spec [OF Cons.prems(1), of k p] that by auto
  next
    case (PErase k)
    then show ?thesis using pc_erase_spec [OF Cons.prems(1), of k] that by auto
  qed
  then show ?case using Cons.IH [OF s1(2)] Cons.prems(2,3) by simp
qed simp

lemma prio_new_ok: "pc_ok (prio_new cap)"
  by (simp add: pc_ok_def prio_new_def pset_ok_def il_ok_new) (simp add: il_new_def)

lemma pc_get_spec: "pc_ok s \<Longrightarrow> pc_get k s = Some (case map_of (entries (pc_list s)) k of None \<Rightarrow> -1 | Some (v, p) \<Rightarrow> v)"
  using il_ok_find [of "pc_list s" k] by (cases "um_find (mm (pc_list s)) k") (auto simp: pc_get_def pc_ok_def split: option.splits)

text \<open>
  The cache evicts by priority: any sequence of insertions, priority changes and removals is
  defined and leaves exactly the entries of the specification, which on a full cache drops the entry
  of least priority and, among equals, of least key; a lookup returns the value stored last.
\<close>
theorem priority_eviction:
  assumes "0 \<le> cap" "cap < 2 ^ 31"
  shows "\<exists>s. pc_run ps (prio_new cap) = Some s \<and> entries (pc_list s) = fold (pc_spec cap) ps [] \<and>
    pc_get k s = Some (case map_of (fold (pc_spec cap) ps []) k of None \<Rightarrow> -1 | Some (v, p) \<Rightarrow> v)"
proof -
  have "pc_capacity (prio_new cap) = cap" "entries (pc_list (prio_new cap)) = []" by (simp_all add: prio_new_def entries_new)
  then obtain s where "pc_run ps (prio_new cap) = Some s" "pc_ok s" "entries (pc_list s) = fold (pc_spec cap) ps []"
    using pc_run_refines [OF prio_new_ok, of cap ps] assms by auto
  then show ?thesis using pc_get_spec by auto
qed

theorem priority_eviction_witness:
  "\<exists>s. pc_run [PPut 1 100 5, PPut 2 200 2, PPut 3 300 8, PPut 4 400 1, PUpdate 3 0, PPut 5 500 10] (prio_new 3) = Some s \<and>
    entries (pc_list s) = [(5, 500, 10), (4, 400, 1), (1, 100, 5)] \<and> pc_get 2 s = Some (-1)"
proof -
  have "fold (pc_spec 3) [PPut 1 100 5, PPut 2 200 2, PPut 3 300 8, PPut 4 400 1, PUpdate 3 0, PPut 5 500 10] [] =
      [(5, 500, 10), (4, 400, 1), (1, 100, 5)]" by code_simp
  then show ?thesis
    using priority_eviction [of 3 "[PPut 1 100 5, PPut 2 200 2, PPut 3 300 8, PPut 4 400 1, PUpdate 3 0, PPut 5 500 10]" 2]
    by (simp del: pc_run.simps fold_simps)
qed

end
