(* ===== verification/Bucket_Map.thy ===== *)
theory Bucket_Map
  imports Prelude
begin

text \<open>
  The hash map with a lock per bucket of \<^verbatim>\<open>caching/Hashmap_withLockPerBucket.cpp\<close>. Every operation holds
  the lock of the one bucket it touches, so operations on a key are ordered. The hash function is a
  parameter of which nothing is assumed. The map is shown to be a dictionary, so the library's replay
  lemma applies to it.
\<close>

record ('k, 'v) bucket_map =
  NUM_BUCKETS :: int
  buckets :: "('k, 'v) umap list"

definition bm_new :: "int \<Rightarrow> ('k, 'v) bucket_map" where
  "bm_new n = \<lparr>NUM_BUCKETS = n, buckets = replicate (nat n) []\<rparr>"

text \<open>The unsigned hash is reduced modulo the bucket count, converted to \<^verbatim>\<open>size_t\<close>.\<close>

definition getBucketIndex :: "('k \<Rightarrow> nat) \<Rightarrow> 'k \<Rightarrow> ('k, 'v) bucket_map \<Rightarrow> nat" where
  "getBucketIndex hash_of k s = nat (int (hash_of k) mod size_t (NUM_BUCKETS s))"

definition bm_put :: "('k \<Rightarrow> nat) \<Rightarrow> 'k \<Rightarrow> 'v \<Rightarrow> ('k, 'v) bucket_map \<Rightarrow> ('k, 'v) bucket_map" where
  "bm_put hash_of k v s =
     (let idx = getBucketIndex hash_of k s in s\<lparr>buckets := (buckets s)[idx := um_put k v (buckets s ! idx)]\<rparr>)"

definition bm_get :: "('k \<Rightarrow> nat) \<Rightarrow> ('k, 'v) bucket_map \<Rightarrow> 'k \<Rightarrow> 'v option" where
  "bm_get hash_of s k = um_find (buckets s ! getBucketIndex hash_of k s) k"

definition bm_remove :: "('k \<Rightarrow> nat) \<Rightarrow> 'k \<Rightarrow> ('k, 'v) bucket_map \<Rightarrow> ('k, 'v) bucket_map" where
  "bm_remove hash_of k s =
     (let idx = getBucketIndex hash_of k s in s\<lparr>buckets := (buckets s)[idx := um_erase k (buckets s ! idx)]\<rparr>)"

text \<open>The bucket count is a positive \<^verbatim>\<open>int\<close>, so that every index is in range.\<close>

definition bm_ok :: "('k, 'v) bucket_map \<Rightarrow> bool" where
  "bm_ok s \<longleftrightarrow> 0 < NUM_BUCKETS s \<and> NUM_BUCKETS s < 2 ^ 31 \<and> length (buckets s) = nat (NUM_BUCKETS s)"

lemma index_in_range: "bm_ok s \<Longrightarrow> getBucketIndex hash_of k s < length (buckets s)"
  by (simp add: bm_ok_def getBucketIndex_def size_t_pos nat_less_iff)

lemma index_updates [simp]: "getBucketIndex hash_of k (s\<lparr>buckets := b\<rparr>) = getBucketIndex hash_of k s"
  by (simp add: getBucketIndex_def)

lemma bm_updates_ok:
  "bm_ok s \<Longrightarrow> bm_ok (bm_put hash_of k v s)" "bm_ok s \<Longrightarrow> bm_ok (bm_remove hash_of k s)"
  by (simp_all add: bm_ok_def bm_put_def bm_remove_def Let_def)

lemma bm_get_put: "bm_ok s \<Longrightarrow> bm_get hash_of (bm_put hash_of k v s) j = (if j = k then Some v else bm_get hash_of s j)"
  using index_in_range [of s hash_of k] index_in_range [of s hash_of j]
  by (cases "getBucketIndex hash_of j s = getBucketIndex hash_of k s") (auto simp: bm_get_def bm_put_def Let_def cxx_map)

lemma bm_get_remove: "bm_ok s \<Longrightarrow> bm_get hash_of (bm_remove hash_of k s) j = (if j = k then None else bm_get hash_of s j)"
  using index_in_range [of s hash_of k] index_in_range [of s hash_of j]
  by (cases "getBucketIndex hash_of j s = getBucketIndex hash_of k s") (auto simp: bm_get_def bm_remove_def Let_def cxx_map)

lemma bm_new_ok: "0 < n \<Longrightarrow> n < 2 ^ 31 \<Longrightarrow> bm_ok (bm_new n)"
  by (simp add: bm_ok_def bm_new_def)

lemma bm_get_new:
  assumes "0 < n" "n < 2 ^ 31"
  shows "bm_get hash_of (bm_new n :: ('k, 'v) bucket_map) k = None"
proof -
  have "getBucketIndex hash_of k (bm_new n :: ('k, 'v) bucket_map) < length (buckets (bm_new n :: ('k, 'v) bucket_map))"
    by (rule index_in_range [OF bm_new_ok [OF assms]])
  then show ?thesis by (simp add: bm_get_def bm_new_def)
qed

interpretation bm: dictionary "bm_put hash_of" "bm_get hash_of" bm_ok "bm_new 16" "bm_remove hash_of" for hash_of
  by unfold_locales (simp_all add: bm_updates_ok bm_get_put bm_get_remove bm_new_ok bm_get_new)

text \<open>
  Spreading the keys over buckets is invisible: after any sequence of insertions and removals, on
  any number of buckets and with any hash function, a lookup returns what one map would.
\<close>
theorem bucket_map_refines:
  fixes ops :: "('k, 'v) dict_op list"
  assumes "0 < n" "n < 2 ^ 31"
  shows "bm_get hash_of (fold (bm.run_op hash_of) ops (bm_new n)) k = fold dict_apply ops Map.empty k"
proof -
  have "bm_get hash_of (bm_new n :: ('k, 'v) bucket_map) = Map.empty" by (rule ext) (rule bm_get_new [OF assms])
  then show ?thesis using bm.replay [OF bm_new_ok [OF assms], of hash_of ops] by simp
qed

theorem bucket_map_refines_witness:
  "bm_get length (fold (bm.run_op length) [Put ''apple'' (10 :: int), Put ''banana'' 20, Del ''apple''] (bm_new 16)) ''banana'' =
    fold dict_apply [Put ''apple'' 10, Put ''banana'' 20, Del ''apple''] Map.empty ''banana''"
  by (rule bucket_map_refines) simp_all

end
