(* ===== verification/Load_Balancer.thy ===== *)
theory Load_Balancer
  imports Prelude
begin

text \<open>
  The load balancer of \<^verbatim>\<open>storage/LoadBalancer.cpp\<close> with its two strategies. A pointer to a server is its
  index in the vector; a null pointer is \<^verbatim>\<open>Null\<close>, and reading past the end of the vector is
  \<^verbatim>\<open>Undefined\<close>.
\<close>

record Server =
  server_id :: int
  num_connections :: int

definition server_new :: "int \<Rightarrow> Server" where
  "server_new i = \<lparr>server_id = i, num_connections = 0\<rparr>"

definition connect :: "Server \<Rightarrow> Server" where
  "connect s = s\<lparr>num_connections := num_connections s + 1\<rparr>"

definition disconnect :: "Server \<Rightarrow> Server" where
  "disconnect s = s\<lparr>num_connections := num_connections s - 1\<rparr>"

datatype server_ptr = Null | At nat | Undefined

text \<open>Round robin keeps an index; least connection keeps no state and scans the vector.\<close>

definition rr_nextServer :: "Server list \<Rightarrow> nat \<Rightarrow> server_ptr \<times> nat" where
  "rr_nextServer servers next_server_id =
     (if servers = [] then (Null, next_server_id)
      else (if next_server_id < length servers then At next_server_id else Undefined,
            (next_server_id + 1) mod length servers))"

fun least_loop :: "Server list \<Rightarrow> nat list \<Rightarrow> nat \<Rightarrow> nat" where
  "least_loop servers [] best = best"
| "least_loop servers (i # is) best =
     (if num_connections (servers ! i) < num_connections (servers ! best)
      then least_loop servers is i else least_loop servers is best)"

definition lc_nextServer :: "Server list \<Rightarrow> server_ptr" where
  "lc_nextServer servers = (if servers = [] then Null else At (least_loop servers [0..<length servers] 0))"

definition addServer :: "int \<Rightarrow> Server list \<Rightarrow> Server list" where
  "addServer i servers = servers @ [server_new i]"

fun removeServer :: "int \<Rightarrow> Server list \<Rightarrow> Server list" where
  "removeServer i [] = []"
| "removeServer i (s # servers) = (if server_id s = i then removeServer i servers else s # removeServer i servers)"

text \<open>A request as \<^verbatim>\<open>main\<close> makes it: pick a server, connect to it. Following a bad pointer is undefined.\<close>

definition lc_request :: "Server list \<Rightarrow> Server list option" where
  "lc_request servers = (case lc_nextServer servers of At i \<Rightarrow> Some (servers[i := connect (servers ! i)]) | _ \<Rightarrow> None)"

definition rr_request :: "Server list \<times> nat \<Rightarrow> (nat \<times> Server list \<times> nat) option" where
  "rr_request s =
     (case rr_nextServer (fst s) (snd s) of
        (At i, n) \<Rightarrow> Some (i, (fst s)[i := connect (fst s ! i)], n)
      | _ \<Rightarrow> None)"

section \<open>Least connection\<close>

lemma least_loop_least:
  assumes "best < length servers" "set is \<subseteq> {..<length servers}"
  shows "least_loop servers is best < length servers \<and> num_connections (servers ! least_loop servers is best) \<le> num_connections (servers ! best) \<and>
    (\<forall>i \<in> set is. num_connections (servers ! least_loop servers is best) \<le> num_connections (servers ! i))"
  using assms
proof (induction "is" arbitrary: best)
  case (Cons i js)
  show ?case
  proof (cases "num_connections (servers ! i) < num_connections (servers ! best)")
    case True
    then show ?thesis using Cons.IH [of i] Cons.prems by auto
  next
    case False
    then show ?thesis using Cons.IH [of best] Cons.prems by auto
  qed
qed simp

lemma lc_nextServer_least:
  assumes "servers \<noteq> []"
  shows "\<exists>i. lc_nextServer servers = At i \<and> i < length servers \<and> (\<forall>s \<in> set servers. num_connections (servers ! i) \<le> num_connections s)"
  using least_loop_least [of 0 servers "[0..<length servers]"] assms by (auto simp: lc_nextServer_def in_set_conv_nth lessThan_atLeast0)

text \<open>All loads lie within one of each other.\<close>

definition balanced :: "Server list \<Rightarrow> bool" where
  "balanced servers \<longleftrightarrow> (\<forall>s \<in> set servers. \<forall>t \<in> set servers. num_connections s \<le> num_connections t + 1)"

lemma sum_list_incr: "i < length xs \<Longrightarrow> sum_list (xs[i := xs ! i + 1]) = sum_list xs + (1 :: int)"
  by (induction xs arbitrary: i) (auto split: nat.splits)

lemma lc_request_balanced:
  assumes "servers \<noteq> []" "balanced servers"
  shows "\<exists>s. lc_request servers = Some s \<and> balanced s \<and> s \<noteq> [] \<and> map server_id s = map server_id servers \<and>
    sum_list (map num_connections s) = sum_list (map num_connections servers) + 1"
proof -
  obtain i where i: "lc_nextServer servers = At i" "i < length servers" "\<And>s. s \<in> set servers \<Longrightarrow> num_connections (servers ! i) \<le> num_connections s"
    using lc_nextServer_least [OF assms(1)] by blast
  let ?s = "servers[i := connect (servers ! i)]"
  have "set ?s \<subseteq> insert (connect (servers ! i)) (set servers)" by (rule set_update_subset_insert)
  moreover have "servers ! i \<in> set servers" using i(2) by simp
  ultimately have "balanced ?s"
    using assms(2) i(3) unfolding balanced_def connect_def by (smt (verit, best) Server.select_convs(2) Server.surjective Server.update_convs(2) insert_iff subsetD)
  moreover have "map server_id ?s = map server_id servers"
    by (simp add: map_update connect_def) (metis i(2) list_update_id map_update nth_map)
  moreover have "sum_list (map num_connections ?s) = sum_list (map num_connections servers) + 1"
    using sum_list_incr [of i "map num_connections servers"] i(2) by (simp add: map_update connect_def)
  ultimately show ?thesis using i(1) assms(1) by (simp add: lc_request_def)
qed

section \<open>Round robin\<close>

lemma rr_request_spec:
  assumes "n < length servers"
  shows "rr_request (servers, n) = Some (n, servers[n := connect (servers ! n)], (n + 1) mod length servers)"
  using assms by (auto simp: rr_request_def rr_nextServer_def)

fun rr_requests :: "nat \<Rightarrow> Server list \<times> nat \<Rightarrow> (nat list \<times> Server list \<times> nat) option" where
  "rr_requests 0 s = Some ([], s)"
| "rr_requests (Suc k) s =
     (case rr_request s of None \<Rightarrow> None
      | Some (i, s) \<Rightarrow> map_option (\<lambda>(is, s). (i # is, s)) (rr_requests k s))"

lemma rr_requests_spec:
  assumes "n < length servers"
  shows "\<exists>s. rr_requests k (servers, n) = Some (map (\<lambda>j. (n + j) mod length servers) [0..<k], s, (n + k) mod length servers) \<and> length s = length servers"
  using assms
proof (induction k arbitrary: servers n)
  case (Suc k)
  let ?s = "servers[n := connect (servers ! n)]"
  have "(n + 1) mod length servers < length ?s" using Suc.prems by (simp add: mod_less_divisor [OF le_less_trans [OF le0]])
  from Suc.IH [OF this] obtain s where s:
    "rr_requests k (?s, (n + 1) mod length servers) =
      Some (map (\<lambda>j. ((n + 1) mod length servers + j) mod length servers) [0..<k], s, ((n + 1) mod length servers + k) mod length servers)"
    "length s = length servers" by auto
  have "map (\<lambda>j. (n + j) mod length servers) [0..<Suc k] = n # map (\<lambda>j. ((n + 1) mod length servers + j) mod length servers) [0..<k]"
    using Suc.prems by (simp add: upt_rec [of 0 "Suc k"] map_Suc_upt [symmetric] mod_simps comp_def del: upt_Suc map_Suc_upt)
  then show ?case using s rr_request_spec [OF Suc.prems] by (simp add: mod_simps del: upt_Suc)
qed simp

text \<open>
  Both strategies share the load: under round robin the requests go to the servers in turn, without
  end and from any position; under least connection every request goes to a server, and the numbers of
  connections of any two servers never differ by more than one.
\<close>
theorem load_shared:
  assumes "ids \<noteq> []"
  shows "let servers = foldl (\<lambda>s i. addServer i s) [] ids in
    (\<exists>s. rr_requests k (servers, 0) = Some (map (\<lambda>j. j mod length ids) [0..<k], s)) \<and>
    (\<exists>s. ((\<lambda>x. Option.bind x lc_request) ^^ k) (Some servers) = Some s \<and> map server_id s = ids \<and>
       sum_list (map num_connections s) = int k \<and>
       (\<forall>i j. i < length ids \<longrightarrow> j < length ids \<longrightarrow> num_connections (s ! i) \<le> num_connections (s ! j) + 1))"
proof -
  have servers: "foldl (\<lambda>s i. addServer i s) [] ids = map server_new ids"
    by (induction ids rule: rev_induct) (simp_all add: addServer_def)
  have rr: "\<exists>s. rr_requests k (map server_new ids, 0) = Some (map (\<lambda>j. j mod length ids) [0..<k], s)"
    using rr_requests_spec [of 0 "map server_new ids" k] assms by auto
  have lc: "\<exists>s. ((\<lambda>x. Option.bind x lc_request) ^^ k) (Some (map server_new ids)) = Some s \<and> balanced s \<and> s \<noteq> [] \<and> map server_id s = ids \<and>
      sum_list (map num_connections s) = int k"
  proof (induction k)
    case 0
    have "map server_id (map server_new ids) = ids" "sum_list (map num_connections (map server_new ids)) = 0"
      by (simp_all add: server_new_def comp_def)
    moreover have "balanced (map server_new ids)" by (auto simp: balanced_def server_new_def)
    ultimately show ?case using assms by simp
  next
    case (Suc k)
    then obtain s where s: "((\<lambda>x. Option.bind x lc_request) ^^ k) (Some (map server_new ids)) = Some s" "balanced s" "s \<noteq> []" "map server_id s = ids"
      "sum_list (map num_connections s) = int k" by blast
    from lc_request_balanced [OF s(3,2)] show ?case using s by auto
  qed
  then obtain s where s: "((\<lambda>x. Option.bind x lc_request) ^^ k) (Some (map server_new ids)) = Some s" "balanced s" "map server_id s = ids"
      "sum_list (map num_connections s) = int k" by blast
  moreover have "length s = length ids" using s(3) by auto
  ultimately show ?thesis using rr unfolding servers Let_def balanced_def by auto
qed

theorem load_shared_witness:
  "let servers = foldl (\<lambda>s i. addServer i s) [] [101, 102, 103] in
    \<exists>s. rr_requests 10 (servers, 0) = Some (map (\<lambda>j. j mod 3) [0..<10], s)"
  using load_shared [of "[101, 102, 103]" 10] by (simp only: Let_def list.size) auto

text \<open>
  Removing a server can leave the round-robin index past the end of the vector: the next request
  then reads outside it.
\<close>
theorem rr_removed_out_of_range:
  "let servers = foldl (\<lambda>s i. addServer i s) [] [101, 102, 103];
       n = snd (rr_nextServer servers (snd (rr_nextServer servers 0)))
   in fst (rr_nextServer (removeServer 101 servers) n) = Undefined"
  by (simp add: addServer_def server_new_def rr_nextServer_def Let_def)

end
