(* ===== verification/File_Systems.thy ===== *)
theory File_Systems
  imports Prelude "HOL-Library.Sublist"
begin

text \<open>
  The three in-memory file systems: \<^verbatim>\<open>storage/In-memory_FileSystem.cpp\<close>, \<^verbatim>\<open>storage/FileSystem_Index.cpp\<close>
  and \<^verbatim>\<open>Trie/In-memory_file_system.cpp\<close>. Each is a tree whose nodes hold their children in a map from
  names, unordered in the first two and ordered in the third. A node has one parent, so a pointer is
  the subtree it leads to. Operations are taken one at a time: the per-node locks of the first two do
  not cover a whole path, so what concurrent calls on overlapping paths do is not modelled.
\<close>

section \<open>Paths\<close>

fun split_slash :: "string \<Rightarrow> string list" where
  "split_slash [] = [[]]"
| "split_slash (c # cs) =
     (if c = CHR ''/'' then [] # split_slash cs
      else (case split_slash cs of [] \<Rightarrow> [[c]] | t # ts \<Rightarrow> (c # t) # ts))"

definition tokenize :: "string \<Rightarrow> string list" where
  "tokenize path = filter (\<lambda>t. t \<noteq> []) (split_slash path)"

lemma split_slash_nonempty: "split_slash cs \<noteq> []"
  by (induction cs) (auto split: list.splits)

lemma split_slash_name: "CHR ''/'' \<notin> set t \<Longrightarrow> split_slash (t @ CHR ''/'' # cs) = t # split_slash cs"
  by (induction t) auto

lemma split_slash_last: "CHR ''/'' \<notin> set t \<Longrightarrow> split_slash t = [t]"
  by (induction t) auto

definition path_of :: "string list \<Rightarrow> string" where
  "path_of ts = concat (map (\<lambda>t. CHR ''/'' # t) ts)"

definition names_ok :: "string list \<Rightarrow> bool" where
  "names_ok ts \<longleftrightarrow> (\<forall>t \<in> set ts. t \<noteq> [] \<and> CHR ''/'' \<notin> set t)"

lemma tokenize_path_of: "names_ok ts \<Longrightarrow> tokenize (path_of ts) = ts"
proof -
  have *: "split_slash (path_of ts) = (if ts = [] then [[]] else [] # ts)" if "names_ok ts" for ts
    using that
  proof (induction ts)
    case (Cons t ts)
    then have t: "CHR ''/'' \<notin> set t" and ts: "names_ok ts" by (simp_all add: names_ok_def)
    show ?case
    proof (cases ts)
      case Nil
      then show ?thesis using split_slash_last [OF t] by (simp add: path_of_def)
    next
      case (Cons u us)
      then have "path_of (t # ts) = CHR ''/'' # t @ CHR ''/'' # u @ path_of us" "path_of ts = CHR ''/'' # u @ path_of us" by (simp_all add: path_of_def)
      then show ?thesis using Cons.IH [OF ts] Cons split_slash_name [OF t] by simp
    qed
  qed (simp add: path_of_def)
  assume ok: "names_ok ts"
  then have "filter (\<lambda>t. t \<noteq> []) ts = ts" by (simp add: names_ok_def filter_id_conv)
  then show ?thesis using * [OF ok] by (simp add: tokenize_def)
qed

section \<open>Trees\<close>

datatype 'd dir = Dir (info: 'd) (kids: "(string \<times> 'd dir) list")

fun lookup :: "string list \<Rightarrow> 'd dir \<Rightarrow> 'd dir option" where
  "lookup [] p = Some p"
| "lookup (n # ns) p = (case map_of (kids p) n of None \<Rightarrow> None | Some q \<Rightarrow> lookup ns q)"

text \<open>
  The loops of the operations, given the map operations of the children: walking down while creating
  what is missing, changing a node that exists, and removing one.
\<close>

type_synonym 'd kids_put = "string \<Rightarrow> 'd dir \<Rightarrow> (string \<times> 'd dir) list \<Rightarrow> (string \<times> 'd dir) list"

type_synonym 'd kids_del = "string \<Rightarrow> (string \<times> 'd dir) list \<Rightarrow> (string \<times> 'd dir) list"

fun descend :: "'d kids_put \<Rightarrow> (string \<Rightarrow> bool \<Rightarrow> 'd) \<Rightarrow> ('d \<Rightarrow> 'd) \<Rightarrow> string list \<Rightarrow> 'd dir \<Rightarrow> 'd dir" where
  "descend put mk stop [] p = Dir (stop (info p)) (kids p)"
| "descend put mk stop (n # ns) p =
     (let q = (case map_of (kids p) n of None \<Rightarrow> Dir (mk n (ns = [])) [] | Some q \<Rightarrow> q)
      in Dir (info p) (put n (descend put mk stop ns q) (kids p)))"

fun modify :: "'d kids_put \<Rightarrow> ('d \<Rightarrow> 'd) \<Rightarrow> string list \<Rightarrow> 'd dir \<Rightarrow> 'd dir" where
  "modify put f [] p = Dir (f (info p)) (kids p)"
| "modify put f (n # ns) p =
     (case map_of (kids p) n of None \<Rightarrow> p | Some q \<Rightarrow> Dir (info p) (put n (modify put f ns q) (kids p)))"

fun remove_path :: "'d kids_put \<Rightarrow> 'd kids_del \<Rightarrow> string list \<Rightarrow> 'd dir \<Rightarrow> 'd dir" where
  "remove_path put del [] p = p"
| "remove_path put del [n] p = Dir (info p) (del n (kids p))"
| "remove_path put del (n # m # ns) p =
     (case map_of (kids p) n of None \<Rightarrow> p | Some q \<Rightarrow> Dir (info p) (put n (remove_path put del (m # ns) q) (kids p)))"

definition info_at :: "string list \<Rightarrow> 'd dir \<Rightarrow> 'd option" where
  "info_at w p = map_option info (lookup w p)"

lemma info_at_simps [simp]:
  "info_at [] p = Some (info p)"
  "info_at (n # ns) p = (case map_of (kids p) n of None \<Rightarrow> None | Some q \<Rightarrow> info_at ns q)"
  by (auto simp: info_at_def split: option.splits)

text \<open>The operations on the map from paths to what the nodes hold.\<close>

definition path_create :: "(string \<Rightarrow> bool \<Rightarrow> 'd) \<Rightarrow> string list \<Rightarrow> (string list \<rightharpoonup> 'd) \<Rightarrow> (string list \<rightharpoonup> 'd)" where
  "path_create mk v m = (\<lambda>w. if m w = None \<and> prefix w v then Some (mk (last w) (w = v)) else m w)"

definition path_modify :: "('d \<Rightarrow> 'd) \<Rightarrow> string list \<Rightarrow> (string list \<rightharpoonup> 'd) \<Rightarrow> (string list \<rightharpoonup> 'd)" where
  "path_modify f v m = m(v := map_option f (m v))"

definition path_remove :: "string list \<Rightarrow> (string list \<rightharpoonup> 'd) \<Rightarrow> (string list \<rightharpoonup> 'd)" where
  "path_remove v m = (\<lambda>w. if v \<noteq> [] \<and> prefix v w then None else m w)"

text \<open>What the tree relies on: the children form a dictionary whose entries have distinct names.\<close>

locale child_map = dictionary put map_of ok "[]" del
  for put :: "'d kids_put" and ok :: "(string \<times> 'd dir) list \<Rightarrow> bool" and del :: "'d kids_del" +
  assumes ok_distinct: "ok m \<Longrightarrow> distinct (map fst m)"
begin

definition dir_ok :: "'d dir \<Rightarrow> bool" where
  "dir_ok p \<longleftrightarrow> (\<forall>w q. lookup w p = Some q \<longrightarrow> ok (kids q))"

lemma dir_ok_unfold: "dir_ok p \<longleftrightarrow> ok (kids p) \<and> (\<forall>n q. map_of (kids p) n = Some q \<longrightarrow> dir_ok q)"
proof
  assume "dir_ok p"
  then have *: "lookup w p = Some q \<Longrightarrow> ok (kids q)" for w q by (simp add: dir_ok_def)
  have "dir_ok q" if "map_of (kids p) n = Some q" for n q
    unfolding dir_ok_def using * [of "n # _"] that by simp
  then show "ok (kids p) \<and> (\<forall>n q. map_of (kids p) n = Some q \<longrightarrow> dir_ok q)" using * [of "[]" p] by simp
next
  assume r: "ok (kids p) \<and> (\<forall>n q. map_of (kids p) n = Some q \<longrightarrow> dir_ok q)"
  have "ok (kids q)" if "lookup w p = Some q" for w q
    using that r by (cases w) (auto simp: dir_ok_def split: option.splits)
  then show "dir_ok p" by (simp add: dir_ok_def)
qed

lemma dir_ok_leaf: "dir_ok (Dir d [])"
  using ok_new find_new by (subst dir_ok_unfold) simp

lemma dir_ok_child: "dir_ok p \<Longrightarrow> map_of (kids p) n = Some q \<Longrightarrow> dir_ok q"
  using dir_ok_unfold by blast

lemma dir_ok_put: "dir_ok p \<Longrightarrow> dir_ok q \<Longrightarrow> dir_ok (Dir d (put n q (kids p)))"
  by (subst dir_ok_unfold) (auto simp: ok_put find_put dir_ok_unfold [of p] split: if_splits)

lemma dir_ok_del: "dir_ok p \<Longrightarrow> dir_ok (Dir d (del n (kids p)))"
  by (subst dir_ok_unfold) (auto simp: ok_del find_del dir_ok_unfold [of p] split: if_splits)

lemma dir_ok_info: "dir_ok p \<Longrightarrow> dir_ok (Dir d (kids p))"
  by (subst dir_ok_unfold) (auto simp: dir_ok_unfold [of p])

lemma kids_ok: "dir_ok p \<Longrightarrow> ok (kids p)"
  using dir_ok_unfold by blast

lemma info_at_info: "info_at w (Dir d (kids p)) = (if w = [] then Some d else info_at w p)"
  by (cases w) auto

lemma descend_spec:
  "dir_ok p \<Longrightarrow> dir_ok (descend put mk stop v p) \<and>
     (\<forall>w. info_at w (descend put mk stop v p) = path_modify stop v (path_create mk v (\<lambda>w. info_at w p)) w)"
proof (induction v arbitrary: p)
  case Nil
  then show ?case by (auto simp: dir_ok_info info_at_info path_modify_def path_create_def)
next
  case (Cons n ns)
  define q where "q = (case map_of (kids p) n of None \<Rightarrow> Dir (mk n (ns = [])) [] | Some q \<Rightarrow> q)"
  have q: "dir_ok q" by (cases "map_of (kids p) n") (simp_all add: q_def dir_ok_leaf dir_ok_child [OF Cons.prems])
  note IH = Cons.IH [OF q]
  have eq: "descend put mk stop (n # ns) p = Dir (info p) (put n (descend put mk stop ns q) (kids p))" by (simp add: q_def)
  have "info_at w (Dir (info p) (put n (descend put mk stop ns q) (kids p))) =
      path_modify stop (n # ns) (path_create mk (n # ns) (\<lambda>w. info_at w p)) w" for w
  proof (cases w)
    case w: (Cons m u)
    show ?thesis
    proof (cases "m = n")
      case True
      have "info_at u (descend put mk stop ns q) = path_modify stop ns (path_create mk ns (\<lambda>w. info_at w q)) u" using IH by blast
      also have "\<dots> = path_modify stop (n # ns) (path_create mk (n # ns) (\<lambda>w. info_at w p)) (n # u)"
      proof (cases "map_of (kids p) n")
        case None
        then have "info_at u q = (if u = [] then Some (mk n (ns = [])) else None)" for u by (cases u) (simp_all add: q_def)
        then show ?thesis using None by (simp add: path_modify_def path_create_def)
      next
        case (Some r)
        then have "info_at (n # x) p = info_at x r" for x by simp
        moreover have "last (n # x) = last x" if "info_at x r = None" for x using that by (cases x) simp_all
        ultimately show ?thesis using Some by (simp add: path_modify_def path_create_def q_def del: info_at_simps(2) last.simps)
      qed
      finally show ?thesis using w True kids_ok [OF Cons.prems] by (simp add: find_put)
    next
      case False
      then show ?thesis using w kids_ok [OF Cons.prems] by (auto simp: find_put path_modify_def path_create_def)
    qed
  qed (simp add: path_modify_def path_create_def)
  then show ?case using dir_ok_put [OF Cons.prems] IH unfolding eq by blast
qed

lemma modify_spec:
  "dir_ok p \<Longrightarrow> dir_ok (modify put f v p) \<and> (\<forall>w. info_at w (modify put f v p) = path_modify f v (\<lambda>w. info_at w p) w)"
proof (induction v arbitrary: p)
  case Nil
  then show ?case by (auto simp: dir_ok_info info_at_info path_modify_def)
next
  case (Cons n ns)
  show ?case
  proof (cases "map_of (kids p) n")
    case None
    then show ?thesis using Cons.prems by (auto simp: path_modify_def)
  next
    case (Some q)
    note IH = Cons.IH [OF dir_ok_child [OF Cons.prems Some]]
    have "info_at w (Dir (info p) (put n (modify put f ns q) (kids p))) = path_modify f (n # ns) (\<lambda>w. info_at w p) w" for w
      using IH Some kids_ok [OF Cons.prems] by (cases w) (auto simp: find_put path_modify_def)
    then show ?thesis using Some IH dir_ok_put [OF Cons.prems] by simp
  qed
qed

lemma remove_spec:
  "dir_ok p \<Longrightarrow> dir_ok (remove_path put del v p) \<and> (\<forall>w. info_at w (remove_path put del v p) = path_remove v (\<lambda>w. info_at w p) w)"
proof (induction v arbitrary: p rule: induct_list012)
  case 1
  then show ?case by (simp add: path_remove_def)
next
  case (2 n)
  have "info_at w (Dir (info p) (del n (kids p))) = path_remove [n] (\<lambda>w. info_at w p) w" for w
    using kids_ok [OF 2] by (cases w) (auto simp: find_del path_remove_def split: option.splits)
  then show ?case using dir_ok_del [OF 2] by simp
next
  case (3 n m ns)
  show ?case
  proof (cases "map_of (kids p) n")
    case None
    then have "info_at w p = path_remove (n # m # ns) (\<lambda>w. info_at w p) w" for w
      by (cases w) (auto simp: path_remove_def)
    moreover have "remove_path put del (n # m # ns) p = p" using None by simp
    ultimately show ?thesis using 3(3) by metis
  next
    case (Some q)
    note IH = 3(2) [OF dir_ok_child [OF 3(3) Some]]
    have "info_at w (Dir (info p) (put n (remove_path put del (m # ns) q) (kids p))) = path_remove (n # m # ns) (\<lambda>w. info_at w p) w" for w
      using IH Some kids_ok [OF 3(3)] by (cases w) (auto simp: find_put path_remove_def)
    then show ?thesis using Some IH dir_ok_put [OF 3(3)] by simp
  qed
qed

text \<open>The names in a directory are exactly the paths one step below it.\<close>

lemma kids_names:
  assumes "dir_ok p" "lookup w p = Some q"
  shows "distinct (map fst (kids q))" "n \<in> set (map fst (kids q)) \<longleftrightarrow> info_at (w @ [n]) p \<noteq> None"
proof -
  have "ok (kids q)" using assms by (simp add: dir_ok_def)
  then show "distinct (map fst (kids q))" by (rule ok_distinct)
  have "info_at (w @ [n]) p = info_at [n] q" using assms(2) by (induction w arbitrary: p) (auto split: option.splits)
  then show "n \<in> set (map fst (kids q)) \<longleftrightarrow> info_at (w @ [n]) p \<noteq> None"
    using map_of_eq_None_keys [of "kids q" n] by (auto split: option.splits)
qed

end

interpretation hashed: child_map "AList.update" um_ok AList.delete
  by unfold_locales (simp add: um_ok_def)

interpretation ordered: child_map sm_put sm_ok AList.delete
  by unfold_locales (rule sm_ok_distinct)

section \<open>Files with contents\<close>

record fs_node =
  is_file :: bool
  content :: string

definition fs_dir :: fs_node where
  "fs_dir = \<lparr>is_file = False, content = ''''\<rparr>"

definition fs_new :: "fs_node dir" where
  "fs_new = Dir fs_dir []"

definition fs_mkdir :: "string \<Rightarrow> fs_node dir \<Rightarrow> fs_node dir" where
  "fs_mkdir path root = descend um_put (\<lambda>n leaf. fs_dir) id (tokenize path) root"

definition fs_createFile :: "string \<Rightarrow> fs_node dir \<Rightarrow> fs_node dir" where
  "fs_createFile path root = descend um_put (\<lambda>n leaf. \<lparr>is_file = leaf, content = ''''\<rparr>) id (tokenize path) root"

definition fs_exists :: "string \<Rightarrow> fs_node dir \<Rightarrow> bool" where
  "fs_exists path root \<longleftrightarrow> lookup (tokenize path) root \<noteq> None"

definition fs_ls :: "string \<Rightarrow> fs_node dir \<Rightarrow> string list" where
  "fs_ls path root =
     (case lookup (tokenize path) root of
        None \<Rightarrow> []
      | Some cur \<Rightarrow> if is_file (info cur) then [last (tokenize path)] else map fst (kids cur))"

definition fs_deletePath :: "string \<Rightarrow> fs_node dir \<Rightarrow> fs_node dir" where
  "fs_deletePath path root = remove_path um_put um_erase (tokenize path) root"

definition fs_write :: "string \<Rightarrow> string \<Rightarrow> fs_node dir \<Rightarrow> fs_node dir" where
  "fs_write path d root =
     modify um_put (\<lambda>cur. if \<not> is_file cur then cur else cur\<lparr>content := content cur @ d\<rparr>) (tokenize path) root"

definition fs_read :: "string \<Rightarrow> fs_node dir \<Rightarrow> string" where
  "fs_read path root =
     (case lookup (tokenize path) root of
        None \<Rightarrow> ''''
      | Some cur \<Rightarrow> if \<not> is_file (info cur) then '''' else content (info cur))"

text \<open>The operations and what they mean on the map from paths to nodes.\<close>

datatype fs_op = Mkdir string | CreateFile string | DeletePath string | Write string string

fun fs_apply :: "fs_op \<Rightarrow> fs_node dir \<Rightarrow> fs_node dir" where
  "fs_apply (Mkdir path) root = fs_mkdir path root"
| "fs_apply (CreateFile path) root = fs_createFile path root"
| "fs_apply (DeletePath path) root = fs_deletePath path root"
| "fs_apply (Write path d) root = fs_write path d root"

fun fs_spec :: "fs_op \<Rightarrow> (string list \<rightharpoonup> fs_node) \<Rightarrow> (string list \<rightharpoonup> fs_node)" where
  "fs_spec (Mkdir path) m = path_create (\<lambda>n leaf. fs_dir) (tokenize path) m"
| "fs_spec (CreateFile path) m = path_create (\<lambda>n leaf. \<lparr>is_file = leaf, content = ''''\<rparr>) (tokenize path) m"
| "fs_spec (DeletePath path) m = path_remove (tokenize path) m"
| "fs_spec (Write path d) m =
     path_modify (\<lambda>cur. if \<not> is_file cur then cur else cur\<lparr>content := content cur @ d\<rparr>) (tokenize path) m"

lemma path_modify_id [simp]: "path_modify id v m = m"
  by (simp add: path_modify_def option.map_id)

lemma fs_apply_spec:
  assumes "hashed.dir_ok root"
  shows "hashed.dir_ok (fs_apply p root) \<and> (\<lambda>w. info_at w (fs_apply p root)) = fs_spec p (\<lambda>w. info_at w root)"
proof (cases p)
  case (Mkdir path)
  then show ?thesis using hashed.descend_spec [OF assms] by (simp add: fs_mkdir_def fun_eq_iff)
next
  case (CreateFile path)
  then show ?thesis using hashed.descend_spec [OF assms] by (simp add: fs_createFile_def fun_eq_iff)
next
  case (DeletePath path)
  then show ?thesis using hashed.remove_spec [OF assms] by (simp add: fs_deletePath_def fun_eq_iff)
next
  case (Write path d)
  then show ?thesis using Write hashed.modify_spec [OF assms] by (simp add: fs_write_def fun_eq_iff)
qed

lemma fs_run_spec:
  "hashed.dir_ok (fold fs_apply ops fs_new) \<and>
    (\<lambda>w. info_at w (fold fs_apply ops fs_new)) = fold fs_spec ops [[] \<mapsto> fs_dir]"
proof (induction ops rule: rev_induct)
  case Nil
  have "info_at w fs_new = [[] \<mapsto> fs_dir] w" for w by (cases w) (simp_all add: fs_new_def)
  then show ?case using hashed.dir_ok_leaf by (auto simp: fs_new_def)
next
  case (snoc p ops)
  then show ?case using fs_apply_spec [of "fold fs_apply ops fs_new" p] by simp
qed

lemma info_at_lookup: "info_at w p = None \<longleftrightarrow> lookup w p = None" "lookup w p = Some q \<Longrightarrow> info_at w p = Some (info q)"
  by (simp_all add: info_at_def)

text \<open>
  C21. The tree is a map from paths to files and directories: after any sequence of operations, existence,
  listing and reading of every path are those of the map; in particular a read returns all data
  written to the file since it was created, and a deletion removes exactly the paths below.
\<close>
theorem fs_refines:
  "let root = fold fs_apply ops fs_new; m = fold fs_spec ops [[] \<mapsto> fs_dir]; toks = tokenize path in
    (fs_exists path root \<longleftrightarrow> m toks \<noteq> None) \<and>
    (case m toks of
       None \<Rightarrow> fs_read path root = '''' \<and> fs_ls path root = []
     | Some d \<Rightarrow> if is_file d then fs_read path root = content d \<and> fs_ls path root = [last toks]
         else fs_read path root = '''' \<and> distinct (fs_ls path root) \<and> set (fs_ls path root) = {n. m (toks @ [n]) \<noteq> None})"
proof -
  let ?root = "fold fs_apply ops fs_new" and ?m = "fold fs_spec ops [[] \<mapsto> fs_dir]" and ?toks = "tokenize path"
  have m: "?m w = info_at w ?root" for w using fs_run_spec [of ops] by metis
  show ?thesis
  proof (cases "lookup ?toks ?root")
    case None
    then show ?thesis unfolding Let_def m by (simp add: info_at_lookup fs_exists_def fs_read_def fs_ls_def info_at_def)
  next
    case (Some q)
    then show ?thesis
      unfolding Let_def m using hashed.kids_names [OF conjunct1 [OF fs_run_spec] Some]
      by (auto simp: info_at_lookup(2) [OF Some] fs_exists_def fs_read_def fs_ls_def)
  qed
qed

section \<open>Files with metadata\<close>

record FileMetadata =
  meta_is_file :: bool
  inode_number :: int
  file_size :: nat

record FileSystemIndex =
  fsi_root :: "FileMetadata dir"
  next_inode :: int

definition fsi_dir :: FileMetadata where
  "fsi_dir = \<lparr>meta_is_file = False, inode_number = 0, file_size = 0\<rparr>"

definition fsi_new :: FileSystemIndex where
  "fsi_new = \<lparr>fsi_root = Dir fsi_dir [], next_inode = 1\<rparr>"

definition fsi_mkdir :: "string \<Rightarrow> FileSystemIndex \<Rightarrow> FileSystemIndex" where
  "fsi_mkdir path s = s\<lparr>fsi_root := descend um_put (\<lambda>n leaf. fsi_dir) id (tokenize path) (fsi_root s)\<rparr>"

text \<open>Only the last component can be created as a file, and only then is an inode number taken.\<close>

definition fsi_createFile :: "string \<Rightarrow> nat \<Rightarrow> FileSystemIndex \<Rightarrow> FileSystemIndex" where
  "fsi_createFile path sz s =
     s\<lparr>fsi_root := descend um_put
         (\<lambda>n is_file. \<lparr>meta_is_file = is_file, inode_number = (if is_file then next_inode s else 0), file_size = (if is_file then sz else 0)\<rparr>)
         id (tokenize path) (fsi_root s),
       next_inode := (if lookup (tokenize path) (fsi_root s) = None then next_inode s + 1 else next_inode s)\<rparr>"

definition fsi_exists :: "string \<Rightarrow> FileSystemIndex \<Rightarrow> bool" where
  "fsi_exists path s \<longleftrightarrow> lookup (tokenize path) (fsi_root s) \<noteq> None"

definition fsi_getMetadata :: "string \<Rightarrow> FileSystemIndex \<Rightarrow> int \<times> nat" where
  "fsi_getMetadata path s =
     (case lookup (tokenize path) (fsi_root s) of
        None \<Rightarrow> (-1, 0)
      | Some cur \<Rightarrow> (inode_number (info cur), file_size (info cur)))"

definition fsi_ls :: "string \<Rightarrow> FileSystemIndex \<Rightarrow> string list" where
  "fsi_ls path s =
     (case lookup (tokenize path) (fsi_root s) of
        None \<Rightarrow> []
      | Some cur \<Rightarrow> if meta_is_file (info cur) then [last (tokenize path)] else map fst (kids cur))"

definition fsi_deletePath :: "string \<Rightarrow> FileSystemIndex \<Rightarrow> FileSystemIndex" where
  "fsi_deletePath path s = s\<lparr>fsi_root := remove_path um_put um_erase (tokenize path) (fsi_root s)\<rparr>"

datatype fsi_op = IMkdir string | ICreateFile string nat | IDeletePath string

fun fsi_apply :: "fsi_op \<Rightarrow> FileSystemIndex \<Rightarrow> FileSystemIndex" where
  "fsi_apply (IMkdir path) s = fsi_mkdir path s"
| "fsi_apply (ICreateFile path sz) s = fsi_createFile path sz s"
| "fsi_apply (IDeletePath path) s = fsi_deletePath path s"

text \<open>Files have numbers below the next one to be given out, and no two files the same.\<close>

definition inodes_ok :: "int \<Rightarrow> (string list \<rightharpoonup> FileMetadata) \<Rightarrow> bool" where
  "inodes_ok n m \<longleftrightarrow> (\<forall>w a. m w = Some a \<longrightarrow> meta_is_file a \<longrightarrow> 0 < inode_number a \<and> inode_number a < n) \<and>
     (\<forall>v w a b. m v = Some a \<longrightarrow> m w = Some b \<longrightarrow> meta_is_file a \<longrightarrow> meta_is_file b \<longrightarrow> inode_number a = inode_number b \<longrightarrow> v = w)"

definition fsi_inv :: "FileSystemIndex \<Rightarrow> bool" where
  "fsi_inv s \<longleftrightarrow> hashed.dir_ok (fsi_root s) \<and> 0 < next_inode s \<and> inodes_ok (next_inode s) (\<lambda>w. info_at w (fsi_root s))"

lemma inodes_ok_sub:
  assumes "inodes_ok n m" "\<And>w a. m' w = Some a \<Longrightarrow> meta_is_file a \<Longrightarrow> m w = Some a"
  shows "inodes_ok n m'"
  using assms unfolding inodes_ok_def by metis

lemma inodes_ok_new:
  assumes "inodes_ok n m" "0 < n" "inode_number d = n"
    and "\<And>w a. m' w = Some a \<Longrightarrow> meta_is_file a \<Longrightarrow> m w = Some a \<or> w = v \<and> a = d"
  shows "inodes_ok (n + 1) m'"
  unfolding inodes_ok_def
proof (intro conjI allI impI)
  fix w a
  assume "m' w = Some a" "meta_is_file a"
  then consider "m w = Some a" | "a = d" using assms(4) by blast
  then have "0 < inode_number a \<and> inode_number a < n + 1"
  proof cases
    case 1
    then have "0 < inode_number a \<and> inode_number a < n" using assms(1) \<open>meta_is_file a\<close> unfolding inodes_ok_def by blast
    then show ?thesis by simp
  qed (use assms(2,3) in simp)
  then show "0 < inode_number a" "inode_number a < n + 1" by simp_all
next
  fix u w a b
  assume "m' u = Some a" "m' w = Some b" "meta_is_file a" "meta_is_file b" "inode_number a = inode_number b"
  then show "u = w" using assms(1,3) assms(4) [of u a] assms(4) [of w b] unfolding inodes_ok_def by (metis less_irrefl)
qed

lemma fsi_apply_inv:
  assumes "fsi_inv s"
  shows "fsi_inv (fsi_apply p s)"
proof -
  have ok: "hashed.dir_ok (fsi_root s)" "0 < next_inode s" "inodes_ok (next_inode s) (\<lambda>w. info_at w (fsi_root s))"
    using assms by (simp_all add: fsi_inv_def)
  show ?thesis
  proof (cases p)
    case (IMkdir path)
    have "inodes_ok (next_inode s) (path_create (\<lambda>n leaf. fsi_dir) (tokenize path) (\<lambda>w. info_at w (fsi_root s)))"
      by (rule inodes_ok_sub [OF ok(3)]) (auto simp: path_create_def fsi_dir_def split: if_splits)
    then show ?thesis using IMkdir hashed.descend_spec [OF ok(1)] ok(2) by (simp add: fsi_inv_def fsi_mkdir_def)
  next
    case (IDeletePath path)
    have "inodes_ok (next_inode s) (path_remove (tokenize path) (\<lambda>w. info_at w (fsi_root s)))"
      by (rule inodes_ok_sub [OF ok(3)]) (auto simp: path_remove_def split: if_splits)
    then show ?thesis using IDeletePath hashed.remove_spec [OF ok(1)] ok(2) by (simp add: fsi_inv_def fsi_deletePath_def)
  next
    case (ICreateFile path sz)
    let ?mk = "\<lambda>(n :: string) is_file. \<lparr>meta_is_file = is_file, inode_number = (if is_file then next_inode s else 0), file_size = (if is_file then sz else 0)\<rparr>"
    let ?m = "path_create ?mk (tokenize path) (\<lambda>w. info_at w (fsi_root s))"
    have "inodes_ok (if lookup (tokenize path) (fsi_root s) = None then next_inode s + 1 else next_inode s) ?m"
    proof (cases "lookup (tokenize path) (fsi_root s)")
      case None
      have "inodes_ok (next_inode s + 1) ?m"
        by (rule inodes_ok_new [OF ok(3,2), of "?mk [] True" _ "tokenize path"]) (auto simp: path_create_def split: if_splits)
      then show ?thesis using None by simp
    next
      case (Some q)
      have "inodes_ok (next_inode s) ?m"
        by (rule inodes_ok_sub [OF ok(3)]) (use info_at_lookup(2) [OF Some] in \<open>auto simp: path_create_def split: if_splits\<close>)
      then show ?thesis using Some by simp
    qed
    then show ?thesis using ICreateFile hashed.descend_spec [OF ok(1), of ?mk id "tokenize path"] ok(2) by (simp add: fsi_inv_def fsi_createFile_def)
  qed
qed

lemma fsi_run_inv: "fsi_inv (fold fsi_apply ops fsi_new)"
proof (induction ops rule: rev_induct)
  case Nil
  have "\<not> meta_is_file a" if "info_at w (Dir fsi_dir []) = Some a" for w a using that by (cases w) (auto simp: fsi_dir_def)
  then show ?case using hashed.dir_ok_leaf by (auto simp: fsi_inv_def fsi_new_def inodes_ok_def)
qed (simp add: fsi_apply_inv)

text \<open>
  Inode numbers identify files: in every state the index reaches, two files with the same number
  are the same path; the number of a file is positive, and creating a file where nothing was gives it
  a number no file has, with the given size.
\<close>
theorem fsi_inodes_unique:
  assumes "info_at v (fsi_root (fold fsi_apply ops fsi_new)) = Some a" "meta_is_file a"
    "info_at w (fsi_root (fold fsi_apply ops fsi_new)) = Some b" "meta_is_file b"
  shows "(inode_number a = inode_number b \<longleftrightarrow> v = w) \<and> 0 < inode_number a \<and>
    (if fsi_exists path (fold fsi_apply ops fsi_new) then True
     else snd (fsi_getMetadata path (fsi_createFile path sz (fold fsi_apply ops fsi_new))) = sz \<and>
          inode_number a < fst (fsi_getMetadata path (fsi_createFile path sz (fold fsi_apply ops fsi_new))))"
proof -
  let ?s = "fold fsi_apply ops fsi_new"
  have inv: "inodes_ok (next_inode ?s) (\<lambda>w. info_at w (fsi_root ?s))" "hashed.dir_ok (fsi_root ?s)" using fsi_run_inv [of ops] by (simp_all add: fsi_inv_def)
  have a: "inode_number a < next_inode ?s" "0 < inode_number a" "inode_number a = inode_number b \<longleftrightarrow> v = w"
    using inv(1) assms unfolding inodes_ok_def by (blast, blast, metis option.inject)
  let ?mk = "\<lambda>(n :: string) is_file. \<lparr>meta_is_file = is_file, inode_number = (if is_file then next_inode ?s else 0), file_size = (if is_file then sz else 0)\<rparr>"
  have "info_at (tokenize path) (fsi_root (fsi_createFile path sz ?s)) = Some (?mk [] True)" if "\<not> fsi_exists path ?s"
    using that hashed.descend_spec [OF inv(2), of ?mk id "tokenize path"]
    by (simp add: fsi_createFile_def fsi_exists_def path_create_def info_at_def)
  then have "fsi_getMetadata path (fsi_createFile path sz ?s) = (next_inode ?s, sz)" if "\<not> fsi_exists path ?s"
    using that by (cases "lookup (tokenize path) (fsi_root (fsi_createFile path sz ?s))") (auto simp: fsi_getMetadata_def info_at_def)
  then show ?thesis using a by (cases "fsi_exists path ?s") simp_all
qed

theorem fsi_inodes_unique_witness:
  "let s = fold fsi_apply [ICreateFile ''/a/f'' 1024, ICreateFile ''/a/g'' 2048, IDeletePath ''/a/f''] fsi_new in
    \<not> fsi_exists ''/a/f'' s \<and> 2 < fst (fsi_getMetadata ''/a/f'' (fsi_createFile ''/a/f'' 7 s))"
proof -
  let ?s = "fold fsi_apply [ICreateFile ''/a/f'' 1024, ICreateFile ''/a/g'' 2048, IDeletePath ''/a/f''] fsi_new"
  have "info_at [''a'', ''g''] (fsi_root ?s) = Some \<lparr>meta_is_file = True, inode_number = 2, file_size = 2048\<rparr>" by code_simp
  moreover have "\<not> fsi_exists ''/a/f'' ?s" by code_simp
  ultimately show ?thesis
    using fsi_inodes_unique [of "[''a'', ''g'']" "[ICreateFile ''/a/f'' 1024, ICreateFile ''/a/g'' 2048, IDeletePath ''/a/f'']"
        "\<lparr>meta_is_file = True, inode_number = 2, file_size = 2048\<rparr>" "[''a'', ''g'']" "\<lparr>meta_is_file = True, inode_number = 2, file_size = 2048\<rparr>" "''/a/f''" 7]
    by (simp del: fold_simps)
qed

section \<open>Files in an ordered tree\<close>

record tfs_node =
  node_name :: string
  isFile :: bool
  tfs_content :: string

definition tfs_node_new :: "string \<Rightarrow> bool \<Rightarrow> tfs_node" where
  "tfs_node_new n f = \<lparr>node_name = n, isFile = f, tfs_content = ''''\<rparr>"

definition tfs_new :: "tfs_node dir" where
  "tfs_new = Dir (tfs_node_new ''/'' False) []"

text \<open>A path that does not exist gives a null pointer, which \<^verbatim>\<open>ls\<close> and \<^verbatim>\<open>readContentFromFile\<close> follow.\<close>

definition traverse_filepath :: "string \<Rightarrow> tfs_node dir \<Rightarrow> tfs_node dir option" where
  "traverse_filepath path root = lookup (tokenize path) root"

definition tfs_ls :: "string \<Rightarrow> tfs_node dir \<Rightarrow> string list option" where
  "tfs_ls path root =
     (case traverse_filepath path root of
        None \<Rightarrow> None
      | Some p \<Rightarrow> if isFile (info p) then Some [node_name (info p)] else Some (map fst (kids p)))"

definition readContentFromFile :: "string \<Rightarrow> tfs_node dir \<Rightarrow> string option" where
  "readContentFromFile path root =
     (case traverse_filepath path root of None \<Rightarrow> None | Some p \<Rightarrow> Some (tfs_content (info p)))"

definition tfs_mkdir :: "string \<Rightarrow> tfs_node dir \<Rightarrow> tfs_node dir" where
  "tfs_mkdir path root = descend sm_put (\<lambda>n leaf. tfs_node_new '''' False) id (tokenize path) root"

definition addContentToFile :: "string \<Rightarrow> string \<Rightarrow> tfs_node dir \<Rightarrow> tfs_node dir" where
  "addContentToFile path c root =
     descend sm_put tfs_node_new (\<lambda>p. p\<lparr>isFile := True, tfs_content := tfs_content p @ c\<rparr>) (tokenize path) root"

datatype tfs_op = TMkdir string | TAdd string string

fun tfs_apply :: "tfs_op \<Rightarrow> tfs_node dir \<Rightarrow> tfs_node dir" where
  "tfs_apply (TMkdir path) root = tfs_mkdir path root"
| "tfs_apply (TAdd path c) root = addContentToFile path c root"

text \<open>The paths a history makes, and the contents it adds to one of them.\<close>

fun op_tokens :: "tfs_op \<Rightarrow> string list" where
  "op_tokens (TMkdir path) = tokenize path"
| "op_tokens (TAdd path c) = tokenize path"

fun added :: "string list \<Rightarrow> tfs_op \<Rightarrow> string" where
  "added w (TMkdir path) = ''''"
| "added w (TAdd path c) = (if tokenize path = w then c else '''')"

fun adds_to :: "string list \<Rightarrow> tfs_op \<Rightarrow> bool" where
  "adds_to w (TMkdir path) = False"
| "adds_to w (TAdd path c) = (tokenize path = w)"

definition made :: "tfs_op list \<Rightarrow> string list \<Rightarrow> bool" where
  "made ops w \<longleftrightarrow> w = [] \<or> list_ex (\<lambda>p. prefix w (op_tokens p)) ops"

lemma tfs_run_spec:
  "ordered.dir_ok (fold tfs_apply ops tfs_new) \<and>
   (\<forall>w. (info_at w (fold tfs_apply ops tfs_new) = None \<longleftrightarrow> \<not> made ops w) \<and>
     (\<forall>d. info_at w (fold tfs_apply ops tfs_new) = Some d \<longrightarrow>
        tfs_content d = concat (map (added w) ops) \<and> (list_ex (adds_to w) ops \<longrightarrow> isFile d)))"
proof (induction ops rule: rev_induct)
  case Nil
  have "info_at w tfs_new = (if w = [] then Some (tfs_node_new ''/'' False) else None)" for w by (cases w) (simp_all add: tfs_new_def)
  then show ?case using ordered.dir_ok_leaf by (auto simp: tfs_new_def made_def tfs_node_new_def)
next
  case (snoc p ops)
  let ?t = "fold tfs_apply ops tfs_new"
  have ok: "ordered.dir_ok ?t" using snoc.IH by blast
  have old: "info_at w ?t = None \<longleftrightarrow> \<not> made ops w"
    "info_at w ?t = Some d \<Longrightarrow> tfs_content d = concat (map (added w) ops) \<and> (list_ex (adds_to w) ops \<longrightarrow> isFile d)" for w d
    using snoc.IH by blast+
  have gone: "concat (map (added w) ops) = '''' \<and> \<not> list_ex (adds_to w) ops" if "\<not> made ops w" for w
  proof -
    have "added w q = '''' \<and> \<not> adds_to w q" if "q \<in> set ops" for q
    proof -
      have "\<not> prefix w (op_tokens q)" using that \<open>\<not> made ops w\<close> by (auto simp: made_def list_ex_iff)
      then show ?thesis by (cases q) auto
    qed
    then show ?thesis by (auto simp: list_ex_iff)
  qed
  have made_snoc: "made (ops @ [q]) w \<longleftrightarrow> made ops w \<or> prefix w (op_tokens q)" for q w by (auto simp: made_def)
  show ?case
  proof (cases p)
    case (TMkdir path)
    let ?m = "path_create (\<lambda>n leaf. tfs_node_new '''' False) (tokenize path) (\<lambda>w. info_at w ?t)"
    have "info_at w (tfs_apply p ?t) = ?m w" "ordered.dir_ok (tfs_apply p ?t)" for w
      using TMkdir ordered.descend_spec [OF ok] by (simp_all add: tfs_mkdir_def)
    moreover have "?m w = None \<longleftrightarrow> \<not> made (ops @ [p]) w" for w using old(1) TMkdir by (auto simp: path_create_def made_snoc)
    moreover have "tfs_content d = concat (map (added w) ops) \<and> (list_ex (adds_to w) ops \<longrightarrow> isFile d)" if "?m w = Some d" for w d
      using that old gone by (auto simp: path_create_def tfs_node_new_def split: if_splits)
    ultimately show ?thesis using TMkdir by simp
  next
    case (TAdd path c)
    let ?f = "\<lambda>p. p\<lparr>isFile := True, tfs_content := tfs_content p @ c\<rparr>"
    let ?m = "path_modify ?f (tokenize path) (path_create tfs_node_new (tokenize path) (\<lambda>w. info_at w ?t))"
    have "info_at w (tfs_apply p ?t) = ?m w" "ordered.dir_ok (tfs_apply p ?t)" for w
      using TAdd ordered.descend_spec [OF ok] by (simp_all add: addContentToFile_def)
    moreover have "?m w = None \<longleftrightarrow> \<not> made (ops @ [p]) w" for w using old(1) TAdd by (auto simp: path_create_def path_modify_def made_snoc)
    moreover have "tfs_content d = concat (map (added w) (ops @ [p])) \<and> (list_ex (adds_to w) (ops @ [p]) \<longrightarrow> isFile d)" if "?m w = Some d" for w d
      using that old gone TAdd by (auto simp: path_create_def path_modify_def tfs_node_new_def split: if_splits)
    ultimately show ?thesis by simp
  qed
qed

text \<open>
  C39. Contents round-trip: after any history, reading a path that some operation made gives everything
  added to it, in order, and following one that none made is undefined; a directory lists its entries
  in alphabetical order, each once.
\<close>
theorem tfs_round_trip:
  "let root = fold tfs_apply ops tfs_new in
    readContentFromFile path root = (if made ops (tokenize path) then Some (concat (map (added (tokenize path)) ops)) else None) \<and>
    (case traverse_filepath path root of
       None \<Rightarrow> tfs_ls path root = None
     | Some p \<Rightarrow> if isFile (info p) then tfs_ls path root = Some [node_name (info p)]
         else \<exists>names. tfs_ls path root = Some names \<and> sorted names \<and> distinct names \<and> set names = {n. made ops (tokenize path @ [n])})"
proof -
  let ?root = "fold tfs_apply ops tfs_new"
  note spec = tfs_run_spec [of ops]
  show ?thesis
  proof (cases "lookup (tokenize path) ?root")
    case None
    then have "\<not> made ops (tokenize path)" using spec info_at_lookup(1) by blast
    then show ?thesis using None by (simp add: readContentFromFile_def tfs_ls_def traverse_filepath_def)
  next
    case (Some p)
    have i: "info_at (tokenize path) ?root = Some (info p)" by (rule info_at_lookup(2) [OF Some])
    have ok: "ordered.dir_ok ?root" using spec by blast
    have made: "info_at w ?root \<noteq> None \<longleftrightarrow> made ops w" for w using spec by simp
    have "made ops (tokenize path)" using made i by auto
    moreover have "tfs_content (info p) = concat (map (added (tokenize path)) ops)" using spec i by blast
    moreover have "sm_ok (kids p)" using ok Some by (simp add: ordered.dir_ok_def)
    then have "sorted (map fst (kids p))" unfolding sm_ok_def using strict_sorted_imp_sorted by blast
    moreover have "set (map fst (kids p)) = {n. made ops (tokenize path @ [n])}"
      using ordered.kids_names(2) [OF ok Some] made by blast
    ultimately show ?thesis
      using Some ordered.kids_names(1) [OF ok Some] by (simp add: readContentFromFile_def tfs_ls_def traverse_filepath_def)
  qed
qed

text \<open>A file whose path \<^verbatim>\<open>mkdir\<close> made first has no name, and listing it shows an empty one.\<close>

lemma tfs_nameless: "tfs_ls ''/a'' (addContentToFile ''/a'' ''x'' (tfs_mkdir ''/a'' tfs_new)) = Some ['''']"
  by code_simp

end
