(* ===== verification/External_Sort.thy ===== *)
theory External_Sort
  imports Cxx_Streams "HOL-Library.Monad_Syntax"
begin

text \<open>
  Processing of files larger than memory: the k-way merge of \<^verbatim>\<open>merge_k_sorted_files.cpp\<close>, the external
  sort of \<^verbatim>\<open>sort_1TB_file_with_1GB_RAM.cpp\<close>, and the two programs that partition a log into buckets by
  hash, \<^verbatim>\<open>detect_duplicates_in_500GB_logs.cpp\<close> and \<^verbatim>\<open>top_100IP_in_500GB_logs.cpp\<close>. The disk is a map from
  file names to contents. \<^verbatim>\<open>priority_queue::top\<close> is a parameter, since the standard leaves open which
  of several least entries it returns; \<^verbatim>\<open>std::hash\<close> is a parameter for the same reason.
\<close>

type_synonym disk = "(string \<times> string) list"

section \<open>Reading a file to its end\<close>

text \<open>\<^verbatim>\<open>getline\<close>: it fails only when nothing is left before the end of the file.\<close>

definition getline :: "istream \<Rightarrow> string \<Rightarrow> string \<times> istream" where
  "getline ifs old =
     (case ifs of
        None \<Rightarrow> (old, None)
      | Some r \<Rightarrow> if r = [] then ([], None)
                   else (takeWhile (\<lambda>c. c \<noteq> CHR 0x0A) r, Some (tl (dropWhile (\<lambda>c. c \<noteq> CHR 0x0A) r))))"

lemma getline_size:
  assumes "getline ifs old = (l, ifs')" "ifs' \<noteq> None"
  shows "istream_size ifs' < istream_size ifs"
proof -
  obtain r where r: "ifs = Some r" "r \<noteq> []" "ifs' = Some (tl (dropWhile (\<lambda>c. c \<noteq> CHR 0x0A) r))"
    using assms by (auto simp: getline_def split: option.splits if_splits)
  have "length (tl (dropWhile (\<lambda>c. c \<noteq> CHR 0x0A) r)) < length r"
    using r(2) length_dropWhile_le [of "\<lambda>c. c \<noteq> CHR 0x0A" r] by (cases r) auto
  then show ?thesis using r by simp
qed

text \<open>What the loops \<^verbatim>\<open>while (in >> w)\<close> and \<^verbatim>\<open>while (getline(in, l))\<close> go through.\<close>

function read_words :: "istream \<Rightarrow> string list" where
  "read_words ifs = (case read_word ifs [] of (w, ifs') \<Rightarrow> if ifs' = None then [] else w # read_words ifs')"
  by pat_completeness auto
termination
  by (relation "measure istream_size") (auto simp del: istream_size.simps dest!: read_word_size_Some [OF sym])

function read_lines :: "istream \<Rightarrow> string list" where
  "read_lines ifs = (case getline ifs [] of (l, ifs') \<Rightarrow> if ifs' = None then [] else l # read_lines ifs')"
  by pat_completeness auto
termination
  by (relation "measure istream_size") (auto simp del: istream_size.simps dest!: getline_size [OF sym])

declare read_words.simps [simp del] read_lines.simps [simp del]

text \<open>\<^verbatim>\<open>out << x << newline\<close> for every \<^verbatim>\<open>x\<close> of a list.\<close>

definition render :: "string list \<Rightarrow> string" where
  "render xs = concat (map (\<lambda>x. x @ [CHR 0x0A]) xs)"

lemma render_simps [simp]: "render [] = []" "render (x # xs) = x @ CHR 0x0A # render xs"
    "render (xs @ ys) = render xs @ render ys"
  by (simp_all add: render_def)

lemma read_word_old: "snd (read_word ifs old) = snd (read_word ifs [])"
    "snd (read_word ifs old) \<noteq> None \<Longrightarrow> read_word ifs old = read_word ifs []"
  by (auto simp: read_word_def Let_def split: option.splits)

lemma getline_old: "snd (getline ifs old) = snd (getline ifs [])"
    "snd (getline ifs old) \<noteq> None \<Longrightarrow> getline ifs old = getline ifs []"
  by (auto simp: getline_def split: option.splits)

lemma read_word_is_word:
  assumes "read_word ifs old = (w, Some r')"
  shows "is_word w"
proof -
  obtain r where r: "dropWhile is_ws r \<noteq> []" "w = takeWhile (\<lambda>c. \<not> is_ws c) (dropWhile is_ws r)"
    using assms by (auto simp: read_word_def Let_def split: option.splits if_splits)
  then obtain c cs where "dropWhile is_ws r = c # cs" "\<not> is_ws c"
    by (metis hd_Cons_tl hd_dropWhile)
  then show ?thesis using r(2) by (auto simp: is_word_def dest: set_takeWhileD)
qed

lemma read_words_are_words: "list_all is_word (read_words ifs)"
proof (induction ifs rule: read_words.induct)
  case (1 ifs)
  obtain w ifs' where e: "read_word ifs [] = (w, ifs')" by force
  show ?case
  proof (cases "ifs' = None")
    case True
    then show ?thesis by (subst read_words.simps) (simp add: e)
  next
    case False
    then have "is_word w" using e by (auto intro: read_word_is_word)
    then show ?thesis using 1 e False by (subst read_words.simps) auto
  qed
qed

lemma read_lines_no_newline: "list_all (\<lambda>l. CHR 0x0A \<notin> set l) (read_lines ifs)"
proof (induction ifs rule: read_lines.induct)
  case (1 ifs)
  obtain l ifs' where e: "getline ifs [] = (l, ifs')" by force
  then have "CHR 0x0A \<notin> set l"
    by (auto simp: getline_def dest: set_takeWhileD split: option.splits if_splits)
  then show ?case using 1 e by (subst read_lines.simps) auto
qed

lemma read_lines_render: "list_all (\<lambda>l. CHR 0x0A \<notin> set l) ls \<Longrightarrow> read_lines (Some (render ls)) = ls"
proof (induction ls)
  case (Cons l ls)
  have "takeWhile (\<lambda>c. c \<noteq> CHR 0x0A) (l @ CHR 0x0A # render ls) = l \<and>
        dropWhile (\<lambda>c. c \<noteq> CHR 0x0A) (l @ CHR 0x0A # render ls) = CHR 0x0A # render ls"
    using Cons.prems by (intro takeWhile_all_append) auto
  then have "getline (Some (render (l # ls))) [] = (l, Some (render ls))"
    by (simp add: getline_def)
  then show ?case using Cons by (subst read_lines.simps) simp
qed (simp add: read_lines.simps getline_def)

lemma read_words_newline: "read_words (Some (CHR 0x0A # r)) = read_words (Some r)"
proof -
  have "read_word (Some (CHR 0x0A # r)) [] = read_word (Some r) []"
    by (simp add: read_word_def)
  then show ?thesis by (simp add: read_words.simps)
qed

lemma read_words_render: "list_all is_word ws \<Longrightarrow> read_words (Some (render ws)) = ws"
proof (induction ws)
  case (Cons w ws)
  have "read_word (Some ([] @ w @ CHR 0x0A # render ws)) [] = (w, Some (CHR 0x0A # render ws))"
    using Cons.prems by (intro read_word_word) auto
  then have "read_words (Some (render (w # ws))) = w # read_words (Some (CHR 0x0A # render ws))"
    by (subst read_words.simps) simp
  then show ?case using Cons by (simp add: read_words_newline)
qed (simp add: read_words.simps read_word_def)

lemma read_missing [simp]: "read_words None = []" "read_lines None = []"
  by (simp_all add: read_words.simps read_lines.simps getline_def)

section \<open>Merging k sorted files\<close>

text \<open>
  An entry of the queue is a value and the index of the file it came from. The \<^verbatim>\<open>Compare\<close> of the
  programs makes \<^verbatim>\<open>top\<close> return an entry whose value is least; this is all that is used of it.
\<close>

type_synonym Entry = "string \<times> nat"

definition pq_top_ok :: "('e \<Rightarrow> 'k::linorder) \<Rightarrow> ('e list \<Rightarrow> 'e) \<Rightarrow> bool" where
  "pq_top_ok key pq_top \<longleftrightarrow> (\<forall>q. q \<noteq> [] \<longrightarrow> pq_top q \<in> set q \<and> (\<forall>e \<in> set q. key (pq_top q) \<le> key e))"

lemma pq_top_okD:
  "pq_top_ok key pq_top \<Longrightarrow> q \<noteq> [] \<Longrightarrow> pq_top q \<in> set q \<and> (\<forall>e \<in> set q. key (pq_top q) \<le> key e)"
  by (simp add: pq_top_ok_def)

definition merge_fill ::
    "(istream \<Rightarrow> string \<Rightarrow> string \<times> istream) \<Rightarrow> istream list \<Rightarrow> istream list \<times> Entry list" where
  "merge_fill rd inputs =
     (let rs = map (\<lambda>ifs. rd ifs []) inputs
      in (map snd rs, 
          concat (map (\<lambda>i. if snd (rs ! i) = None then [] else [(fst (rs ! i), i)]) [0..<length rs])))"

partial_function (option) k_merge_loop ::
    "(istream \<Rightarrow> string \<Rightarrow> string \<times> istream) \<Rightarrow> (Entry list \<Rightarrow> Entry) \<Rightarrow> istream list \<Rightarrow> Entry list \<Rightarrow>
       string \<Rightarrow> string option" where
  "k_merge_loop rd pq_top inputs pq output =
     (if pq = [] then Some output
      else let e = pq_top pq;
               pq' = remove1 e pq;
               r = rd (inputs ! snd e) (fst e)
           in k_merge_loop rd pq_top (inputs[snd e := snd r])
                (if snd r = None then pq' else pq' @ [(fst r, snd e)])
                (output @ fst e @ [CHR 0x0A]))"

text \<open>
  The output file is truncated before the first read, so an input file of the same name is empty.
\<close>

definition merge_K_sorted_files ::
    "(istream \<Rightarrow> string \<Rightarrow> string \<times> istream) \<Rightarrow> (Entry list \<Rightarrow> Entry) \<Rightarrow> string list \<Rightarrow> string \<Rightarrow> disk \<Rightarrow>
       disk option" where
  "merge_K_sorted_files rd pq_top in_files out_file d = do {
     let d = um_put out_file [] d;
     let inputs = map (um_find d) in_files;
     let (inputs, pq) = merge_fill rd inputs;
     output \<leftarrow> k_merge_loop rd pq_top inputs pq [];
     Some (um_put out_file output d)
   }"

locale reader =
  fixes rd :: "istream \<Rightarrow> string \<Rightarrow> string \<times> istream" and items :: "istream \<Rightarrow> string list"
  assumes items_rd: "items ifs = (if snd (rd ifs old) = None then [] else fst (rd ifs old) # items (snd (rd ifs old)))"
    and items_None: "items None = []"
begin

definition pending :: "istream list \<Rightarrow> Entry list \<Rightarrow> string multiset" where
  "pending inputs pq = mset (map fst pq) + mset (concat (map items inputs))"

definition merge_inv :: "istream list \<Rightarrow> Entry list \<Rightarrow> string list \<Rightarrow> bool" where
  "merge_inv inputs pq out \<longleftrightarrow>
     distinct (map snd pq) \<and> (\<forall>e \<in> set pq. snd e < length inputs) \<and>
     (\<forall>i < length inputs. i \<notin> snd ` set pq \<longrightarrow> items (inputs ! i) = []) \<and>
     (\<forall>e \<in> set pq. sorted (fst e # items (inputs ! snd e))) \<and>
     sorted out \<and> (\<forall>u \<in> set out. \<forall>e \<in> set pq. u \<le> fst e)"

lemma mset_concat_update:
  assumes "i < length xs"
  shows "mset (concat (map items (xs[i := y]))) + mset (items (xs ! i)) =
         mset (concat (map items xs)) + mset (items y)"
proof -
  have "concat (map items xs) = concat (map items (take i xs)) @ items (xs ! i) @ concat (map items (drop (Suc i) xs))"
    using id_take_nth_drop [OF assms] by (metis concat.simps(2) concat_append list.simps(9) map_append)
  then show ?thesis using assms by (simp add: upd_conv_take_nth_drop)
qed

lemma merge_step:
  assumes inv: "merge_inv inputs pq out" and ne: "pq \<noteq> []" and pq_top: "pq_top_ok fst pq_top"
  defines "e \<equiv> pq_top pq"
  defines "r \<equiv> rd (inputs ! snd e) (fst e)"
  defines "pq' \<equiv> (if snd r = None then remove1 e pq else remove1 e pq @ [(fst r, snd e)])"
  shows "merge_inv (inputs[snd e := snd r]) pq' (out @ [fst e])"
    and "pending inputs pq = add_mset (fst e) (pending (inputs[snd e := snd r]) pq')"
proof -
  have e: "e \<in> set pq" "\<And>x. x \<in> set pq \<Longrightarrow> fst e \<le> fst x"
    using pq_top_okD [OF pq_top ne] by (simp_all add: e_def)
  have d: "distinct (map snd pq)" "distinct pq" and i: "snd e < length inputs"
    using inv e(1) by (auto simp: merge_inv_def distinct_map)
  have rest: "set (remove1 e pq) = set pq - {e}" using d(2) by simp
  have dr: "distinct (map snd (remove1 e pq))"
    using d by (auto simp: distinct_map intro: inj_on_subset)
  have other: "x \<in> set pq \<Longrightarrow> x \<noteq> e \<Longrightarrow> snd x \<noteq> snd e" for x
    using d(1) e(1) by (meson distinct_map inj_onD)
  have its: "items (inputs ! snd e) = (if snd r = None then [] else fst r # items (snd r))"
    unfolding r_def by (rule items_rd)
  have se: "sorted (fst e # items (inputs ! snd e))" using inv e(1) by (simp add: merge_inv_def)
  have "distinct (map snd pq')" "\<forall>x \<in> set pq'. snd x < length inputs"
  proof -
    have "snd e \<notin> snd ` set (remove1 e pq)"
    proof
      assume "snd e \<in> snd ` set (remove1 e pq)"
      then obtain x where x: "x \<in> set (remove1 e pq)" "snd e = snd x" by (rule imageE)
      have "x \<in> set pq" "x \<noteq> e" using x(1) unfolding rest by blast+
      then have "snd x \<noteq> snd e" by (rule other)
      then show False using x(2) by simp
    qed
    then show "distinct (map snd pq')" using dr by (simp add: pq'_def)
    show "\<forall>x \<in> set pq'. snd x < length inputs"
      using rest inv i by (auto simp: pq'_def merge_inv_def)
  qed
  moreover have "items (inputs[snd e := snd r] ! j) = []" if "j < length inputs" "j \<notin> snd ` set pq'" for j
  proof (cases "j = snd e")
    case True
    then have "snd r = None" using that(2) by (rule_tac ccontr) (simp add: pq'_def)
    then show ?thesis using True i items_None by simp
  next
    case False
    have "set pq \<subseteq> insert e (set pq')" using rest by (auto simp: pq'_def)
    then have "j \<notin> snd ` set pq" using that(2) False by blast
    then show ?thesis using inv that(1) False by (simp add: merge_inv_def)
  qed
  moreover have "sorted (fst x # items (inputs[snd e := snd r] ! snd x))" if "x \<in> set pq'" for x
  proof (cases "x \<in> set pq \<and> x \<noteq> e")
    case True
    then have "snd x \<noteq> snd e" by (intro other) blast+
    then show ?thesis using inv True by (simp add: merge_inv_def)
  next
    case False
    then have "x = (fst r, snd e)" "snd r \<noteq> None"
      using that rest by (auto simp: pq'_def split: if_splits)
    then show ?thesis using se its i by auto
  qed
  moreover have "u \<le> fst x" if "u \<in> set (out @ [fst e])" "x \<in> set pq'" for u x
  proof -
    have "u \<le> fst e" using that(1) inv e(1) by (auto simp: merge_inv_def)
    also have "fst e \<le> fst x"
    proof (cases "x \<in> set pq")
      case False
      then have "x = (fst r, snd e)" "snd r \<noteq> None"
        using that(2) rest by (auto simp: pq'_def split: if_splits)
      then show ?thesis using se its by auto
    qed (rule e(2))
    finally show ?thesis .
  qed
  moreover have "sorted (out @ [fst e])"
    using inv e(1) by (auto simp: merge_inv_def sorted_append)
  ultimately show "merge_inv (inputs[snd e := snd r]) pq' (out @ [fst e])"
    unfolding merge_inv_def length_list_update by blast
  have "mset (map fst pq) = add_mset (fst e) (mset (map fst (remove1 e pq)))"
    using e(1) by (simp add: image_mset_Diff [of "{#e#}", simplified])
  then show "pending inputs pq = add_mset (fst e) (pending (inputs[snd e := snd r]) pq')"
    using mset_concat_update [OF i, of "snd r"] its items_None by (auto simp: pending_def pq'_def)
qed

lemma merge_inv_least:
  assumes "merge_inv inputs pq (out @ [x])" "y \<in># pending inputs pq"
  shows "x \<le> y"
proof -
  consider e where "e \<in> set pq" "y = fst e"
    | i where "i < length inputs" "y \<in> set (items (inputs ! i))"
    using assms(2) by (auto simp: pending_def) (metis in_set_conv_nth)
  then show ?thesis
  proof cases
    case 1
    then show ?thesis using assms(1) by (auto simp: merge_inv_def)
  next
    case 2
    then obtain e where "e \<in> set pq" "snd e = i"
      using assms(1) by (fastforce simp: merge_inv_def)
    then show ?thesis using assms(1) 2 by (fastforce simp: merge_inv_def)
  qed
qed

lemma k_merge_loop_sorts:
  assumes "pq_top_ok fst pq_top" "merge_inv inputs pq out"
  shows "k_merge_loop rd pq_top inputs pq (render out) =
         Some (render (out @ sorted_list_of_multiset (pending inputs pq)))"
  using assms(2)
proof (induction "size (pending inputs pq)" arbitrary: inputs pq out)
  case 0
  then have "pq = []" by (simp add: pending_def)
  then show ?case using 0 by (simp add: k_merge_loop.simps [of rd pq_top inputs "[]"])
next
  case (Suc n)
  show ?case
  proof (cases "pq = []")
    case True
    then have "\<forall>i < length inputs. items (inputs ! i) = []" using Suc.prems by (simp add: merge_inv_def)
    then have "concat (map items inputs) = []" by (auto simp: in_set_conv_nth)
    then have "pending inputs pq = {#}" using True unfolding pending_def by (simp only: list.map mset.simps add_0)
    then show ?thesis using Suc.hyps(2) by simp
  next
    case False
    define e where "e = pq_top pq"
    define r where "r = rd (inputs ! snd e) (fst e)"
    define pq' where "pq' = (if snd r = None then remove1 e pq else remove1 e pq @ [(fst r, snd e)])"
    let ?in = "inputs[snd e := snd r]"
    have inv: "merge_inv ?in pq' (out @ [fst e])" and p: "pending inputs pq = add_mset (fst e) (pending ?in pq')"
      unfolding pq'_def r_def e_def by (rule merge_step [OF Suc.prems False assms(1)])+
    have "k_merge_loop rd pq_top ?in pq' (render (out @ [fst e])) =
          Some (render ((out @ [fst e]) @ sorted_list_of_multiset (pending ?in pq')))"
      using Suc.hyps(2) p inv by (intro Suc.hyps(1)) simp_all
    moreover have "k_merge_loop rd pq_top inputs pq (render out) = k_merge_loop rd pq_top ?in pq' (render (out @ [fst e]))"
      using False by (subst k_merge_loop.simps) (simp add: e_def r_def pq'_def Let_def)
    moreover have "sorted_list_of_multiset (pending inputs pq) = fst e # sorted_list_of_multiset (pending ?in pq')"
    proof -
      have "fst e \<le> y" if "y \<in># pending ?in pq'" for y
        using merge_inv_least [OF inv that] .
      then have "sorted (fst e # sorted_list_of_multiset (pending ?in pq'))" by simp
      then show ?thesis
        by (metis mset.simps(2) mset_sorted_list_of_multiset p sorted_list_of_multiset_mset sorted_sort_id)
    qed
    ultimately show ?thesis by simp
  qed
qed

lemma merge_fill_inv:
  assumes "list_all (\<lambda>ifs. sorted (items ifs)) inputs" "merge_fill rd inputs = (inputs', pq)"
  shows "merge_inv inputs' pq []" "pending inputs' pq = mset (concat (map items inputs))"
proof -
  have its: "items ifs = (if snd (rd ifs []) = None then [] else fst (rd ifs []) # items (snd (rd ifs [])))" for ifs
    by (rule items_rd)
  let ?r = "\<lambda>i. rd (inputs ! i) []"
  let ?F = "\<lambda>i. if snd (?r i) = None then [] else [(fst (?r i), i)]"
  have "map (\<lambda>i. if snd (map (\<lambda>ifs. rd ifs []) inputs ! i) = None then []
              else [(fst (map (\<lambda>ifs. rd ifs []) inputs ! i), i)]) [0..<length inputs] = map ?F [0..<length inputs]" (is "?L = _")
    by (rule map_cong) simp_all
  moreover have "inputs' = map (\<lambda>ifs. snd (rd ifs [])) inputs" "pq = concat ?L"
    using assms(2) by (simp_all add: merge_fill_def Let_def o_def)
  ultimately have eqs: "inputs' = map (\<lambda>ifs. snd (rd ifs [])) inputs" "pq = concat (map ?F [0..<length inputs])"
    by (simp_all only:)
  have pq: "e \<in> set pq \<longleftrightarrow> snd e < length inputs \<and> snd (?r (snd e)) \<noteq> None \<and> fst e = fst (?r (snd e))" for e
    by (cases e) (auto simp: eqs)
  have "map snd (concat (map ?F is)) = filter (\<lambda>i. snd (?r i) \<noteq> None) is" for "is"
    by (induction "is") simp_all
  then have d: "distinct (map snd pq)" by (simp add: eqs)
  have "sorted (fst e # items (inputs' ! snd e))" if "e \<in> set pq" for e
    using that assms(1) its [of "inputs ! snd e"] by (auto simp: eqs(1) pq list_all_length)
  moreover have "items (inputs' ! i) = []" if "i < length inputs'" "i \<notin> snd ` set pq" for i
  proof -
    have "snd (rd (inputs ! i) []) = None"
    proof (rule ccontr)
      assume "snd (rd (inputs ! i) []) \<noteq> None"
      then have "(fst (rd (inputs ! i) []), i) \<in> set pq" using that(1) by (simp add: eqs(1) pq)
      then show False using that(2) by force
    qed
    then show ?thesis using that(1) by (simp add: eqs(1) items_None)
  qed
  ultimately show "merge_inv inputs' pq []"
    using d by (auto simp: merge_inv_def eqs(1) pq)
  have "map fst pq = concat (map (\<lambda>i. map fst (?F i)) [0..<length inputs])"
    by (simp add: eqs(2) map_concat o_def)
  also have "map (\<lambda>i. map fst (?F i)) [0..<length inputs] =
             map (\<lambda>ifs. if snd (rd ifs []) = None then [] else [fst (rd ifs [])]) inputs"
    by (rule nth_equalityI) simp_all
  finally have "map fst pq = concat (map (\<lambda>ifs. if snd (rd ifs []) = None then [] else [fst (rd ifs [])]) inputs)" .
  moreover have "mset (concat (map (\<lambda>ifs. if snd (rd ifs []) = None then [] else [fst (rd ifs [])]) is)) +
        mset (concat (map (\<lambda>ifs. items (snd (rd ifs []))) is)) = mset (concat (map items is))" for "is"
  proof (induction "is")
    case (Cons a as)
    show ?case using Cons its [of a] items_None by (cases "snd (rd a []) = None") auto
  qed simp
  ultimately show "pending inputs' pq = mset (concat (map items inputs))"
    by (simp only: pending_def eqs(1) map_map o_def)
qed

lemma merge_sorts:
  assumes "pq_top_ok fst pq_top" "um_ok d" "out_file \<notin> set in_files"
    "list_all (\<lambda>f. sorted (items (um_find d f))) in_files"
  shows "merge_K_sorted_files rd pq_top in_files out_file d =
         Some (um_put out_file (render (sort (concat (map (\<lambda>f. items (um_find d f)) in_files)))) (um_put out_file [] d))"
proof -
  have f: "map (um_find (um_put out_file [] d)) in_files = map (um_find d) in_files"
    using assms(2,3) by (auto simp: cxx_map)
  obtain inputs pq where m: "merge_fill rd (map (um_find d) in_files) = (inputs, pq)" by force
  have "merge_inv inputs pq []" "pending inputs pq = mset (concat (map items (map (um_find d) in_files)))"
    using merge_fill_inv [OF _ m] assms(4) by (simp_all add: list_all_iff)
  then show ?thesis
    using k_merge_loop_sorts [OF assms(1), of inputs pq "[]"]
    by (simp add: merge_K_sorted_files_def f m o_def)
qed

end

interpretation words: reader read_word read_words
proof
  fix ifs old
  show "read_words ifs = (if snd (read_word ifs old) = None then []
          else fst (read_word ifs old) # read_words (snd (read_word ifs old)))"
    by (subst read_words.simps, cases "read_word ifs []", cases "read_word ifs old")
      (use read_word_old [of ifs old] in auto)
qed simp

interpretation text_lines: reader getline read_lines
proof
  fix ifs old
  show "read_lines ifs = (if snd (getline ifs old) = None then []
          else fst (getline ifs old) # read_lines (snd (getline ifs old)))"
    by (subst read_lines.simps, cases "getline ifs []", cases "getline ifs old")
      (use getline_old [of ifs old] in auto)
qed simp

section \<open>External sort\<close>

definition CHUNK_SIZE :: nat where
  "CHUNK_SIZE = 100000"

definition run_file :: "nat \<Rightarrow> string" where
  "run_file i = ''run_'' @ digits i @ ''.txt''"

record run_state =
  chunk :: "string list"
  run_id :: nat
  run_files :: "string list"
  run_disk :: disk

definition write_run :: "run_state \<Rightarrow> run_state" where
  "write_run s = \<lparr>chunk = [], run_id = run_id s + 1, run_files = run_files s @ [run_file (run_id s)],
     run_disk = um_put (run_file (run_id s)) (render (sort (chunk s))) (run_disk s)\<rparr>"

definition run_line :: "string \<Rightarrow> run_state \<Rightarrow> run_state" where
  "run_line l s = (let s = s\<lparr>chunk := chunk s @ [l]\<rparr>
                   in if CHUNK_SIZE \<le> length (chunk s) then write_run s else s)"

text \<open>The loop is a fold over the lines of the input, which is not itself one of the run files.\<close>

definition create_sorted_runs :: "string \<Rightarrow> disk \<Rightarrow> run_state" where
  "create_sorted_runs input_file d =
     (let s = fold run_line (read_lines (um_find d input_file))
                \<lparr>chunk = [], run_id = 0, run_files = [], run_disk = d\<rparr>
      in if chunk s \<noteq> [] then write_run s else s)"

definition external_sort :: "(Entry list \<Rightarrow> Entry) \<Rightarrow> string \<Rightarrow> string \<Rightarrow> disk \<Rightarrow> disk option" where
  "external_sort pq_top input_file out_file d =
     (let s = create_sorted_runs input_file d
      in merge_K_sorted_files getline pq_top (run_files s) out_file (run_disk s))"

lemma run_file_inj: "run_file i = run_file j \<longleftrightarrow> i = j"
  by (auto simp: run_file_def) (metis digits_val_digits)

definition run_contents :: "run_state \<Rightarrow> string list list" where
  "run_contents s = map (\<lambda>f. read_lines (um_find (run_disk s) f)) (run_files s)"

text \<open>
  What holds after every line: the runs written so far are sorted and hold, with the chunk in
  memory, exactly the lines read.
\<close>

definition runs_inv :: "string list \<Rightarrow> run_state \<Rightarrow> bool" where
  "runs_inv ls s \<longleftrightarrow> um_ok (run_disk s) \<and> run_files s = map run_file [0..<run_id s] \<and>
     list_all (\<lambda>l. CHR 0x0A \<notin> set l) (chunk s) \<and> list_all sorted (run_contents s) \<and>
     mset (concat (run_contents s)) + mset (chunk s) = mset ls"

lemma run_contents_write_run:
  assumes "runs_inv ls s"
  shows "run_contents (write_run s) = run_contents s @ [sort (chunk s)]"
proof -
  have "um_find (run_disk (write_run s)) (run_file i) = um_find (run_disk s) (run_file i)" if "i < run_id s" for i
    using that by (simp add: write_run_def cxx_map run_file_inj)
  then have "map (\<lambda>f. read_lines (um_find (run_disk (write_run s)) f)) (map run_file [0..<run_id s]) =
             map (\<lambda>f. read_lines (um_find (run_disk s) f)) (map run_file [0..<run_id s])"
    by simp
  moreover have "read_lines (um_find (run_disk (write_run s)) (run_file (run_id s))) = sort (chunk s)"
    using assms by (simp add: write_run_def cxx_map runs_inv_def read_lines_render list_all_iff)
  ultimately show ?thesis
    using assms by (simp add: run_contents_def runs_inv_def write_run_def)
qed

lemma runs_inv_write_run: "runs_inv ls s \<Longrightarrow> runs_inv ls (write_run s)"
  using run_contents_write_run [of ls s]
  by (simp add: runs_inv_def) (simp add: write_run_def cxx_inv)

lemma runs_inv_run_line:
  assumes "runs_inv ls s" "CHR 0x0A \<notin> set l"
  shows "runs_inv (ls @ [l]) (run_line l s)"
proof -
  have "runs_inv (ls @ [l]) (s\<lparr>chunk := chunk s @ [l]\<rparr>)"
  proof -
    have "run_contents (s\<lparr>chunk := chunk s @ [l]\<rparr>) = run_contents s" by (simp add: run_contents_def)
    then show ?thesis using assms by (simp add: runs_inv_def flip: union_assoc)
  qed
  then show ?thesis using runs_inv_write_run by (simp add: run_line_def Let_def)
qed

lemma runs_inv_fold:
  "runs_inv ls s \<Longrightarrow> list_all (\<lambda>l. CHR 0x0A \<notin> set l) ks \<Longrightarrow> runs_inv (ls @ ks) (fold run_line ks s)"
proof (induction ks arbitrary: ls s)
  case (Cons k ks)
  then show ?case using Cons.IH [of "ls @ [k]" "run_line k s"] runs_inv_run_line by simp
qed simp

lemma create_sorted_runs_inv:
  assumes "um_ok d"
  shows "runs_inv (read_lines (um_find d input_file)) (create_sorted_runs input_file d)"
    and "chunk (create_sorted_runs input_file d) = []"
proof -
  have "runs_inv [] \<lparr>chunk = [], run_id = 0, run_files = [], run_disk = d\<rparr>"
    using assms by (simp add: runs_inv_def run_contents_def)
  from runs_inv_fold [OF this read_lines_no_newline]
  show "runs_inv (read_lines (um_find d input_file)) (create_sorted_runs input_file d)"
    by (simp add: create_sorted_runs_def Let_def runs_inv_write_run)
  show "chunk (create_sorted_runs input_file d) = []"
    by (simp add: create_sorted_runs_def Let_def write_run_def)
qed

text \<open>
  C6. External sort: for every order in which the priority queue returns equal lines, the program
  terminates and the output file holds the lines of the input file in sorted order, each as often
  as in the input, whatever the number of runs. Neither file may have the name of a run file: the runs are written
  while the input is still open, and the output file is truncated before the runs are read.
\<close>

theorem external_sort_sorts:
  assumes "pq_top_ok fst pq_top" "um_ok d" "input_file \<notin> range run_file" "out_file \<notin> range run_file"
  shows "\<exists>d'. external_sort pq_top input_file out_file d = Some d' \<and>
           um_find d' out_file = Some (render (sort (read_lines (um_find d input_file))))"
proof -
  let ?s = "create_sorted_runs input_file d"
  note inv = create_sorted_runs_inv [OF assms(2), of input_file]
  have "merge_K_sorted_files getline pq_top (run_files ?s) out_file (run_disk ?s) =
        Some (um_put out_file (render (sort (concat (run_contents ?s)))) (um_put out_file [] (run_disk ?s)))"
    unfolding run_contents_def using inv assms
    by (intro text_lines.merge_sorts) (auto simp: runs_inv_def run_contents_def list_all_iff)
  moreover have "sort (concat (run_contents ?s)) = sort (read_lines (um_find d input_file))"
    using inv by (simp add: runs_inv_def properties_for_sort)
  ultimately show ?thesis by (simp add: external_sort_def Let_def cxx_map)
qed

definition least_first :: "('e \<Rightarrow> 'k::linorder) \<Rightarrow> 'e list \<Rightarrow> 'e" where
  "least_first key q = fold (\<lambda>x y. if key x < key y then x else y) (tl q) (hd q)"

lemma least_first_ok: "pq_top_ok key (least_first key)"
proof -
  let ?m = "\<lambda>x y. if key x < key y then x else y"
  have fold: "fold ?m q y \<in> insert y (set q) \<and> (\<forall>e \<in> insert y (set q). key (fold ?m q y) \<le> key e)" for q y
  proof (induction q arbitrary: y)
    case (Cons x q)
    define z where "z = ?m x y"
    have z: "key z \<le> key x" "key z \<le> key y" "z \<in> {x, y}" by (auto simp: z_def)
    have f: "fold ?m (x # q) y = fold ?m q z" by (simp add: z_def)
    have m: "fold ?m q z \<in> insert z (set q)" "\<And>e. e \<in> set q \<Longrightarrow> key (fold ?m q z) \<le> key e"
      "key (fold ?m q z) \<le> key z"
      using Cons [of z] by blast+
    show ?case unfolding f using m(1) z(3) m(2) order_trans [OF m(3) z(1)] order_trans [OF m(3) z(2)] by auto
  qed simp
  show ?thesis unfolding pq_top_ok_def
  proof (intro allI impI)
    fix q :: "'a list" assume "q \<noteq> []"
    then obtain x xs where q: "q = x # xs" by (cases q) simp_all
    show "least_first key q \<in> set q \<and> (\<forall>e \<in> set q. key (least_first key q) \<le> key e)"
      using fold [of xs x] unfolding q least_first_def list.sel list.simps(15) .
  qed
qed

theorem external_sort_sorts_witness:
  "\<exists>d'. external_sort (least_first fst) ''in'' ''out'' [(''in'', ''b\<newline>c\<newline>a'')] = Some d' \<and>
     um_find d' ''out'' = Some ''a\<newline>b\<newline>c\<newline>''"
proof -
  have "''in'' \<notin> range run_file" "''out'' \<notin> range run_file" by (auto simp: run_file_def)
  moreover have "read_lines (um_find [(''in'', ''b\<newline>c\<newline>a'')] ''in'') = [''b'', ''c'', ''a'']"
    by (simp add: read_lines.simps getline_def)
  ultimately show ?thesis
    using external_sort_sorts [OF least_first_ok, of "[(''in'', ''b\<newline>c\<newline>a'')]" "''in''" "''out''"]
    by (simp add: um_ok_def)
qed

section \<open>Partitioning a log by hash\<close>

definition bucket_file :: "string \<Rightarrow> nat \<Rightarrow> string" where
  "bucket_file dir i = dir @ ''/bucket_'' @ digits i @ ''.txt''"

definition open_buckets :: "string \<Rightarrow> nat \<Rightarrow> disk \<Rightarrow> disk" where
  "open_buckets dir n d = fold (\<lambda>i. um_put (bucket_file dir i) []) [0..<n] d"

definition bucket_write :: "string \<Rightarrow> nat \<Rightarrow> (string \<Rightarrow> nat) \<Rightarrow> string \<Rightarrow> disk \<Rightarrow> disk" where
  "bucket_write dir n hash w d =
     (let f = bucket_file dir (hash w mod n) in um_put f (um_at [] d f @ w @ [CHR 0x0A]) d)"

text \<open>\<^verbatim>\<open>partitionFile\<close> and \<^verbatim>\<open>partition_file\<close> differ in the directory and the number of buckets only.\<close>

definition hash_partition :: "string \<Rightarrow> nat \<Rightarrow> (string \<Rightarrow> nat) \<Rightarrow> string \<Rightarrow> disk \<Rightarrow> disk" where
  "hash_partition dir n hash input_file d =
     (let d = open_buckets dir n d
      in fold (bucket_write dir n hash) (read_words (um_find d input_file)) d)"

definition partitionFile :: "(string \<Rightarrow> nat) \<Rightarrow> string \<Rightarrow> disk \<Rightarrow> disk" where
  "partitionFile = hash_partition ''dup_buckets'' 50"

definition partition_file :: "(string \<Rightarrow> nat) \<Rightarrow> string \<Rightarrow> disk \<Rightarrow> disk" where
  "partition_file = hash_partition ''top_buckets'' 100"

lemma bucket_file_inj: "bucket_file dir i = bucket_file dir j \<longleftrightarrow> i = j"
  by (auto simp: bucket_file_def) (metis digits_val_digits)

lemma open_buckets_find:
  "um_find (open_buckets dir n d) f = (if f \<in> bucket_file dir ` {..<n} then Some [] else um_find d f)"
  by (induction n) (auto simp: open_buckets_def cxx_map lessThan_Suc)

lemma bucket_writes:
  assumes "i < n"
  shows "um_at [] (fold (bucket_write dir n hash) ws d) (bucket_file dir i) =
         um_at [] d (bucket_file dir i) @ render (filter (\<lambda>w. hash w mod n = i) ws)"
proof (induction ws arbitrary: d)
  case (Cons w ws)
  have "um_at [] (bucket_write dir n hash w d) (bucket_file dir i) =
        um_at [] d (bucket_file dir i) @ (if hash w mod n = i then w @ [CHR 0x0A] else [])"
    by (auto simp: bucket_write_def Let_def um_at_upd bucket_file_inj)
  then show ?case using Cons [of "bucket_write dir n hash w d"] by simp
qed simp

lemma bucket_writes_open:
  "um_find d f \<noteq> None \<Longrightarrow> um_find (fold (bucket_write dir n hash) ws d) f \<noteq> None"
proof (induction ws arbitrary: d)
  case (Cons w ws)
  have "um_find (bucket_write dir n hash w d) f \<noteq> None"
    using Cons.prems by (auto simp: bucket_write_def Let_def cxx_map)
  from Cons.IH [OF this] show ?case by simp
qed simp

lemma hash_partition_bucket:
  assumes "i < n" "input_file \<notin> range (bucket_file dir)"
  shows "read_words (um_find (hash_partition dir n hash input_file d) (bucket_file dir i)) =
         filter (\<lambda>w. hash w mod n = i) (read_words (um_find d input_file))"
proof -
  let ?d = "open_buckets dir n d" and ?ws = "read_words (um_find d input_file)"
  have ws: "um_find ?d input_file = um_find d input_file" and e: "um_find ?d (bucket_file dir i) = Some []"
    using assms by (auto simp: open_buckets_find)
  have "um_find (hash_partition dir n hash input_file d) (bucket_file dir i) =
        Some (render (filter (\<lambda>w. hash w mod n = i) ?ws))"
    using bucket_writes [OF assms(1), of dir hash ?ws ?d] bucket_writes_open [of ?d "bucket_file dir i" dir n hash ?ws] e
    by (auto simp: hash_partition_def Let_def ws um_at_def)
  moreover have "list_all is_word (filter (\<lambda>w. hash w mod n = i) ?ws)"
    using read_words_are_words [of "um_find d input_file"] by (auto simp: list_all_iff)
  ultimately show ?thesis using read_words_render by simp
qed

lemma count_list_filter_if: "count_list (filter P xs) x = (if P x then count_list xs x else 0)"
  by (induction xs) auto

lemma count_list_in_set: "0 < count_list xs x \<longleftrightarrow> x \<in> set xs"
  by (induction xs) auto

section \<open>Finding duplicates\<close>

type_synonym dup_state = "string set \<times> string set \<times> string list"

definition dup_key :: "string \<Rightarrow> dup_state \<Rightarrow> dup_state" where
  "dup_key key = (\<lambda>(seen, printed, out).
     if key \<in> seen \<and> key \<notin> printed then (seen, insert key printed, out @ [key]) else (insert key seen, printed, out))"

definition bucket_duplicates :: "disk \<Rightarrow> nat \<Rightarrow> string list \<Rightarrow> string list" where
  "bucket_duplicates d i out =
     snd (snd (fold dup_key (read_words (um_find d (bucket_file ''dup_buckets'' i))) ({}, {}, out)))"

definition findDuplicates :: "disk \<Rightarrow> string list" where
  "findDuplicates d = fold (bucket_duplicates d) [0..<50] []"

lemma dup_keys:
  "\<exists>xs. fold dup_key ws ({}, {}, out) = (set ws, {w. 2 \<le> count_list ws w}, out @ xs) \<and>
        distinct xs \<and> set xs = {w. 2 \<le> count_list ws w}"
proof (induction ws rule: rev_induct)
  case (snoc w ws)
  then obtain xs where xs: "fold dup_key ws ({}, {}, out) = (set ws, {w. 2 \<le> count_list ws w}, out @ xs)"
    "distinct xs" "set xs = {w. 2 \<le> count_list ws w}" by blast
  have c: "{v. 2 \<le> count_list (ws @ [w]) v} =
           (if w \<in> set ws then insert w {v. 2 \<le> count_list ws v} else {v. 2 \<le> count_list ws v})"
    using count_list_in_set [of ws] by (auto simp: Suc_le_eq)
  have f: "fold dup_key (ws @ [w]) ({}, {}, out) = dup_key w (set ws, {w. 2 \<le> count_list ws w}, out @ xs)"
    by (simp add: xs(1))
  show ?case
  proof (cases "w \<in> set ws \<and> w \<notin> {w. 2 \<le> count_list ws w}")
    case True
    then show ?thesis unfolding c f using xs(2,3) by (intro exI [of _ "xs @ [w]"]) (auto simp: dup_key_def)
  next
    case False
    then have "(if w \<in> set ws then insert w {v. 2 \<le> count_list ws v} else {v. 2 \<le> count_list ws v}) =
      {v. 2 \<le> count_list ws v}" by auto
    then show ?thesis unfolding c f using xs(2,3) False by (intro exI [of _ xs]) (auto simp: dup_key_def)
  qed
qed simp

text \<open>
  Duplicate detection: for every hash function, the program prints each key that occurs at
  least twice in the log exactly once, and nothing else.
\<close>

theorem duplicates_exact:
  assumes "inputFile \<notin> range (bucket_file ''dup_buckets'')"
  shows "distinct (findDuplicates (partitionFile hash inputFile d)) \<and>
    set (findDuplicates (partitionFile hash inputFile d)) =
      {w. 2 \<le> count_list (read_words (um_find d inputFile)) w}"
proof -
  let ?ws = "read_words (um_find d inputFile)" and ?d = "partitionFile hash inputFile d"
  have "m \<le> 50 \<Longrightarrow> distinct (fold (bucket_duplicates ?d) [0..<m] []) \<and>
    set (fold (bucket_duplicates ?d) [0..<m] []) = {w. 2 \<le> count_list ?ws w \<and> hash w mod 50 < m}" for m
  proof (induction m)
    case (Suc m)
    let ?out = "fold (bucket_duplicates ?d) [0..<m] []"
    let ?b = "filter (\<lambda>w. hash w mod 50 = m) ?ws"
    have b: "read_words (um_find ?d (bucket_file ''dup_buckets'' m)) = ?b"
      unfolding partitionFile_def using hash_partition_bucket [of m 50] Suc.prems assms by simp
    obtain xs where xs: "bucket_duplicates ?d m ?out = ?out @ xs" "distinct xs" "set xs = {w. 2 \<le> count_list ?b w}"
      using dup_keys [of ?b ?out] unfolding bucket_duplicates_def b by auto
    have "set xs = {w. 2 \<le> count_list ?ws w \<and> hash w mod 50 = m}"
      unfolding xs(3) by (auto simp: count_list_filter_if split: if_splits)
    then show ?case using Suc xs(1,2) by (auto simp: less_Suc_eq)
  qed simp
  from this [of 50] show ?thesis by (simp add: findDuplicates_def)
qed

theorem duplicates_exact_witness:
  "set (findDuplicates (partitionFile length ''log'' [(''log'', ''a b a'')])) = {''a''}"
proof -
  have "''log'' \<notin> range (bucket_file ''dup_buckets'')" by (auto simp: bucket_file_def)
  moreover have "read_words (um_find [(''log'', ''a b a'')] ''log'') = [''a'', ''b'', ''a'']"
    by (simp add: read_words.simps read_word_def is_ws_def)
  moreover have "{w. 2 \<le> count_list [''a'', ''b'', ''a''] w} = {''a''}" by (auto split: if_splits)
  ultimately show ?thesis
    using duplicates_exact [of "''log''" length "[(''log'', ''a b a'')]"] by simp
qed

section \<open>The K most frequent addresses\<close>

type_synonym ip_count = "string \<times> int"

definition ip_freq :: "string list \<Rightarrow> ip_count list" where
  "ip_freq ws = fold (\<lambda>ip freq. um_put ip (um_at 0 freq ip + 1) freq) ws []"

text \<open>\<^verbatim>\<open>pq.size() > K\<close> compares with the \<^verbatim>\<open>int\<close> converted to \<^verbatim>\<open>size_t\<close>: a negative \<^verbatim>\<open>K\<close> is huge.\<close>

definition pq_bounded_push :: "(ip_count list \<Rightarrow> ip_count) \<Rightarrow> int \<Rightarrow> ip_count \<Rightarrow> ip_count list \<Rightarrow> ip_count list" where
  "pq_bounded_push pq_top K e pq =
     (let pq = pq @ [e] in if nat (K mod 2 ^ 64) < length pq then remove1 (pq_top pq) pq else pq)"

primrec pq_pops :: "(ip_count list \<Rightarrow> ip_count) \<Rightarrow> nat \<Rightarrow> ip_count list \<Rightarrow> ip_count list" where
  "pq_pops pq_top 0 pq = []"
| "pq_pops pq_top (Suc n) pq = pq_top pq # pq_pops pq_top n (remove1 (pq_top pq) pq)"

definition top_K_IPs :: "(ip_count list \<Rightarrow> ip_count) \<Rightarrow> int \<Rightarrow> disk \<Rightarrow> ip_count list" where
  "top_K_IPs pq_top K d =
     (let pq = fold (\<lambda>i pq. fold (pq_bounded_push pq_top K)
                  (ip_freq (read_words (um_find d (bucket_file ''top_buckets'' i)))) pq) [0..<100] []
      in rev (pq_pops pq_top (length pq) pq))"

lemma ip_freq_counts:
  "um_ok (ip_freq ws)" "um_find (ip_freq ws) ip = (if ip \<in> set ws then Some (int (count_list ws ip)) else None)"
proof (induction ws arbitrary: ip rule: rev_induct)
  case (snoc w ws)
  have f: "ip_freq (ws @ [w]) = um_put w (um_at 0 (ip_freq ws) w + 1) (ip_freq ws)"
    by (simp add: ip_freq_def)
  { case 1 show ?case using snoc(1) by (simp add: f cxx_inv) }
  { case 2
    have "count_list ws w = 0" if "w \<notin> set ws" using that by (simp add: count_notin)
    then show ?case using snoc(2) [of ip] snoc(2) [of w] by (auto simp: f cxx_map um_at_def) }
qed (simp_all add: ip_freq_def um_ok_def)

lemma ip_freq_set: "set (ip_freq ws) = {(w, int (count_list ws w)) | w. w \<in> set ws}"
proof -
  have "e \<in> set (ip_freq ws) \<longleftrightarrow> um_find (ip_freq ws) (fst e) = Some (snd e)" for e
    using ip_freq_counts(1) [of ws] by (cases e) (simp add: um_ok_def)
  then show ?thesis using ip_freq_counts(2) [of ws] by (auto split: if_splits)
qed

text \<open>What a heap bounded by \<open>k\<close> holds of the entries pushed so far.\<close>

definition best_of :: "nat \<Rightarrow> ip_count list \<Rightarrow> ip_count list \<Rightarrow> bool" where
  "best_of k es pq \<longleftrightarrow> distinct pq \<and> set pq \<subseteq> set es \<and> length pq = min k (length es) \<and>
     (\<forall>e \<in> set es - set pq. \<forall>p \<in> set pq. snd e \<le> snd p)"

lemma best_of_push:
  assumes "best_of (nat (K mod 2 ^ 64)) es pq" "pq_top_ok snd pq_top" "distinct (es @ [x])"
  shows "best_of (nat (K mod 2 ^ 64)) (es @ [x]) (pq_bounded_push pq_top K x pq)"
proof -
  define k where "k = nat (K mod 2 ^ 64)"
  have b: "distinct pq" "set pq \<subseteq> set es" "length pq = min k (length es)"
    "\<And>e p. e \<in> set es - set pq \<Longrightarrow> p \<in> set pq \<Longrightarrow> snd e \<le> snd p"
    using assms(1) by (auto simp: best_of_def k_def)
  show ?thesis unfolding k_def [symmetric]
  proof (cases "k < length (pq @ [x])")
    case False
    then have l: "length pq = length es" "length pq < k" using b(3) by auto
    then have "set pq = set es"
      using b(1,2) assms(3) by (simp add: card_subset_eq distinct_card)
    then show "best_of k (es @ [x]) (pq_bounded_push pq_top K x pq)"
      using False assms(3) b(1) l by (simp add: best_of_def pq_bounded_push_def k_def)
  next
    case True
    define t where "t = pq_top (pq @ [x])"
    have t: "t \<in> set (pq @ [x])" "\<And>e. e \<in> set (pq @ [x]) \<Longrightarrow> snd t \<le> snd e"
      using pq_top_okD [OF assms(2), of "pq @ [x]"] unfolding t_def by blast+
    have d: "distinct (pq @ [x])" using b(1,2) assms(3) by auto
    have p: "pq_bounded_push pq_top K x pq = remove1 t (pq @ [x])"
      using True by (simp add: pq_bounded_push_def t_def k_def Let_def)
    have s: "set (remove1 t (pq @ [x])) = insert x (set pq) - {t}" using d by simp
    have "length pq = k" using True b(3) by simp
    moreover have "k \<le> length es" using True b(3) by simp
    moreover have "snd e \<le> snd q" if "e \<in> set (es @ [x]) - (insert x (set pq) - {t})" "q \<in> insert x (set pq) - {t}" for e q
    proof (cases "e = t")
      case False
      then have e: "e \<in> set es - set pq" using that(1) by auto
      show ?thesis
      proof (cases "q = x")
        case True
        then have "t \<in> set pq" using t(1) that(2) by auto
        then show ?thesis using b(4) [OF e, of t] t(2) [of q] True by simp
      qed (use b(4) [OF e] that(2) in auto)
    qed (use t(2) that(2) in auto)
    ultimately show "best_of k (es @ [x]) (pq_bounded_push pq_top K x pq)"
      unfolding p best_of_def s using d b(2) t(1) by (auto simp: length_remove1)
  qed
qed

lemma best_of_pushes:
  assumes "best_of (nat (K mod 2 ^ 64)) es pq" "pq_top_ok snd pq_top" "distinct (es @ xs)"
  shows "best_of (nat (K mod 2 ^ 64)) (es @ xs) (fold (pq_bounded_push pq_top K) xs pq)"
  using assms
proof (induction xs arbitrary: es pq)
  case (Cons x xs)
  then show ?case using Cons.IH [of "es @ [x]"] best_of_push [of K es pq pq_top x] by simp
qed simp

lemma pq_pops_sorted:
  assumes "pq_top_ok snd pq_top"
  shows "mset (pq_pops pq_top (length pq) pq) = mset pq \<and> sorted (map snd (pq_pops pq_top (length pq) pq))"
proof (induction "length pq" arbitrary: pq)
  case (Suc n)
  then have ne: "pq \<noteq> []" by auto
  define q where "q = remove1 (pq_top pq) pq"
  have t: "pq_top pq \<in> set pq" "\<And>e. e \<in> set pq \<Longrightarrow> snd (pq_top pq) \<le> snd e"
    using pq_top_okD [OF assms ne] by simp_all
  have q: "length q = n" "mset pq = add_mset (pq_top pq) (mset q)"
    using t(1) Suc.hyps(2) by (simp_all add: q_def length_remove1)
  have IH: "mset (pq_pops pq_top n q) = mset q" "sorted (map snd (pq_pops pq_top n q))"
    using Suc.hyps(1) [of q] q(1) by simp_all
  have "set (pq_pops pq_top n q) \<subseteq> set pq"
    using mset_eq_setD [OF IH(1)] set_remove1_subset [of "pq_top pq" pq] by (simp add: q_def)
  then have "\<forall>y \<in> set (pq_pops pq_top n q). snd (pq_top pq) \<le> snd y" using t(2) by blast
  then have "sorted (map snd (pq_top pq # pq_pops pq_top n q))" using IH(2) by simp
  moreover have "pq_pops pq_top (length pq) pq = pq_top pq # pq_pops pq_top n q"
    using Suc.hyps(2) [symmetric] by (simp add: q_def)
  ultimately show ?case using IH(1) q(2) by simp
qed simp

text \<open>
  The entries of the buckets, in the order the heap sees them: every address once, with the number
  of times it occurs in the whole log, since all its occurrences are in one bucket.
\<close>

lemma bucket_entries:
  fixes d :: disk and hash :: "string \<Rightarrow> nat"
  assumes "input_file \<notin> range (bucket_file ''top_buckets'')" "m \<le> 100"
  defines "ws \<equiv> read_words (um_find d input_file)"
  defines "es \<equiv> \<lambda>m. concat (map (\<lambda>i. ip_freq (read_words (um_find (partition_file hash input_file d)
                   (bucket_file ''top_buckets'' i)))) [0..<m])"
  shows "distinct (map fst (es m)) \<and>
         set (es m) = {(w, int (count_list ws w)) | w. w \<in> set ws \<and> hash w mod 100 < m}"
  using assms(2)
proof (induction m)
  case (Suc m)
  let ?b = "filter (\<lambda>w. hash w mod 100 = m) ws"
  have "read_words (um_find (partition_file hash input_file d) (bucket_file ''top_buckets'' m)) = ?b"
    unfolding partition_file_def ws_def using hash_partition_bucket [of m 100] Suc.prems assms(1) by simp
  then have e: "es (Suc m) = es m @ ip_freq ?b" by (simp add: es_def)
  have b: "set (ip_freq ?b) = {(w, int (count_list ws w)) | w. w \<in> set ws \<and> hash w mod 100 = m}"
    unfolding ip_freq_set by (auto simp: count_list_filter_if)
  have "distinct (map fst (ip_freq ?b))" using ip_freq_counts(1) by (simp add: um_ok_def)
  moreover have "fst ` set (es m) \<inter> fst ` set (ip_freq ?b) = {}"
    using Suc b by auto
  ultimately show ?case unfolding e using Suc b by (auto simp: less_Suc_eq)
qed (simp add: es_def)

lemma fold_concat_map: "fold (\<lambda>i. fold f (g i)) is s = fold f (concat (map g is)) s"
  by (induction "is" arbitrary: s) simp_all

text \<open>
  C20. Most frequent addresses: for every hash function and every choice the heap makes among equal
  counts, the result lists \<open>K\<close> different addresses of the log (all of them if there are fewer) with
  their number of occurrences, in descending order, and no address left out occurs more often than
  one listed.
\<close>

theorem top_K_correct:
  fixes d :: disk and hash :: "string \<Rightarrow> nat" and K :: int
  assumes "pq_top_ok snd pq_top" "input_file \<notin> range (bucket_file ''top_buckets'')"
  defines "ws \<equiv> read_words (um_find d input_file)"
  defines "r \<equiv> top_K_IPs pq_top K (partition_file hash input_file d)"
  shows "distinct (map fst r) \<and> length r = min (nat (K mod 2 ^ 64)) (card (set ws)) \<and>
    sorted (rev (map snd r)) \<and>
    (\<forall>(ip, c) \<in> set r. ip \<in> set ws \<and> c = int (count_list ws ip)) \<and>
    (\<forall>ip \<in> set ws - fst ` set r. \<forall>(jp, c) \<in> set r. int (count_list ws ip) \<le> c)"
proof -
  define es where "es = concat (map (\<lambda>i. ip_freq (read_words (um_find (partition_file hash input_file d)
                   (bucket_file ''top_buckets'' i)))) [0..<100])"
  have es: "distinct (map fst es)" "set es = {(w, int (count_list ws w)) | w. w \<in> set ws}"
    using bucket_entries [OF assms(2), of 100 hash d] unfolding es_def ws_def by simp_all
  define pq where "pq = fold (pq_bounded_push pq_top K) es []"
  have "best_of (nat (K mod 2 ^ 64)) ([] @ es) pq"
    unfolding pq_def using es(1) assms(1) by (intro best_of_pushes) (simp_all add: best_of_def distinct_map)
  then have b: "distinct pq" "set pq \<subseteq> set es" "length pq = min (nat (K mod 2 ^ 64)) (length es)"
    "\<And>e p. e \<in> set es \<Longrightarrow> e \<notin> set pq \<Longrightarrow> p \<in> set pq \<Longrightarrow> snd e \<le> snd p"
    by (simp_all add: best_of_def)
  have r: "r = rev (pq_pops pq_top (length pq) pq)"
    unfolding r_def top_K_IPs_def fold_concat_map es_def [symmetric] pq_def [symmetric] Let_def ..
  have m: "mset r = mset pq" "sorted (rev (map snd r))"
    using pq_pops_sorted [OF assms(1), of pq] by (simp_all add: r rev_map)
  have sr: "set r = set pq" "length r = length pq" using m(1) by (rule mset_eq_setD, rule mset_eq_length)
  have "inj_on fst (set pq)" using es(1) b(2) by (meson distinct_map inj_on_subset)
  then have "distinct (map fst r)"
    using b(1) m(1) sr(1) by (simp add: distinct_map) (metis mset_eq_imp_distinct_iff)
  moreover have "length es = card (set ws)"
  proof -
    have "fst ` set es = set ws" unfolding es(2) by force
    then show ?thesis using distinct_card [OF es(1)] by simp
  qed
  moreover have "\<forall>(ip, c) \<in> set r. ip \<in> set ws \<and> c = int (count_list ws ip)"
    using b(2) es(2) unfolding sr by auto
  moreover have "\<forall>ip \<in> set ws - fst ` set r. \<forall>(jp, c) \<in> set r. int (count_list ws ip) \<le> c"
  proof (intro ballI, clarify)
    fix ip jp c assume ip: "ip \<in> set ws" "ip \<notin> fst ` set r" and p: "(jp, c) \<in> set r"
    have "(ip, int (count_list ws ip)) \<in> set es" using ip(1) es(2) by blast
    moreover have "(ip, int (count_list ws ip)) \<notin> set pq" using ip(2) unfolding sr by force
    ultimately have "snd (ip, int (count_list ws ip)) \<le> snd (jp, c)" using p unfolding sr by (rule b(4))
    then show "int (count_list ws ip) \<le> c" by simp
  qed
  ultimately show ?thesis using b(3) m(2) sr(2) by simp
qed

theorem top_K_correct_witness:
  "length (top_K_IPs (least_first snd) 1 (partition_file length ''log'' [(''log'', ''a b a'')])) = 1"
proof -
  have "''log'' \<notin> range (bucket_file ''top_buckets'')" by (auto simp: bucket_file_def)
  moreover have "read_words (um_find [(''log'', ''a b a'')] ''log'') = [''a'', ''b'', ''a'']"
    by (simp add: read_words.simps read_word_def is_ws_def)
  ultimately show ?thesis
    using top_K_correct [OF least_first_ok, of "''log''" 1 length "[(''log'', ''a b a'')]"]
    by (simp add: card_insert_if)
qed

end
