(* ===== verification/Worker_Pools.thy ===== *)
theory Worker_Pools
  imports Prelude
begin

text \<open>
  Programs in which a fixed set of worker threads takes items from one queue under a mutex and works
  on them outside it: the thread pool of \<^verbatim>\<open>ThreadPool_TaskExecution.cpp\<close>, the search of
  \<^verbatim>\<open>multiThreadedBFS.cpp\<close> and the indexer of \<^verbatim>\<open>SearchEngineIndexing.cpp\<close>. A step is one critical section
  of one thread, in any interleaving; a wait on the condition variable is a step that is not enabled
  until its predicate holds.
\<close>

section \<open>Workers\<close>

datatype 'a worker = Idle | Busy 'a | Exited

definition busy :: "'a worker list \<Rightarrow> 'a multiset" where
  "busy ws = mset (concat (map (\<lambda>w. case w of Busy x \<Rightarrow> [x] | _ \<Rightarrow> []) ws))"

primrec worker_size :: "'a worker \<Rightarrow> nat" where
  "worker_size Idle = 1"
| "worker_size (Busy x) = 2"
| "worker_size Exited = 0"

definition workers_size :: "'a worker list \<Rightarrow> nat" where
  "workers_size ws = sum_list (map worker_size ws)"

lemma busy_update:
  assumes "i < length ws"
  shows "busy (ws[i := w]) + (case ws ! i of Busy x \<Rightarrow> {#x#} | _ \<Rightarrow> {#}) =
         busy ws + (case w of Busy x \<Rightarrow> {#x#} | _ \<Rightarrow> {#})"
proof -
  let ?f = "\<lambda>w. case w of Busy x \<Rightarrow> [x] | _ \<Rightarrow> []"
  have "concat (map ?f ws) = concat (map ?f (take i ws)) @ ?f (ws ! i) @ concat (map ?f (drop (Suc i) ws))"
    using id_take_nth_drop [OF assms] by (metis concat.simps(2) concat_append list.simps(9) map_append)
  then show ?thesis
    using assms by (auto simp: busy_def upd_conv_take_nth_drop split: worker.splits)
qed

lemma busy_take [simp]: "i < length ws \<Longrightarrow> ws ! i = Idle \<Longrightarrow> busy (ws[i := Busy x]) = add_mset x (busy ws)"
  using busy_update [of i ws "Busy x"] by simp

lemma busy_finish: "i < length ws \<Longrightarrow> ws ! i = Busy x \<Longrightarrow> busy ws = add_mset x (busy (ws[i := Idle]))"
  using busy_update [of i ws Idle] by simp

lemma busy_exit [simp]: "i < length ws \<Longrightarrow> ws ! i = Idle \<Longrightarrow> busy (ws[i := Exited]) = busy ws"
  using busy_update [of i ws Exited] by simp

lemma busy_idle [simp]: "busy (replicate n Idle) = {#}"
  by (induction n) (simp_all add: busy_def)

lemma in_busy: "x \<in># busy ws \<longleftrightarrow> Busy x \<in> set ws"
  by (induction ws) (auto simp: busy_def split: worker.splits)

lemma busy_none: "list_all (\<lambda>w. w = Exited) ws \<Longrightarrow> busy ws = {#}"
  by (induction ws) (auto simp: busy_def)

lemma workers_size_update:
  assumes "i < length ws"
  shows "workers_size (ws[i := w]) + worker_size (ws ! i) = workers_size ws + worker_size w"
proof -
  have "workers_size ws = workers_size (take i ws @ ws ! i # drop (Suc i) ws)"
    using id_take_nth_drop [OF assms] by simp
  then show ?thesis using assms by (simp add: workers_size_def upd_conv_take_nth_drop)
qed

lemma Exited_update:
  "i < length ws \<Longrightarrow> w \<noteq> Exited \<Longrightarrow> Exited \<in> set (ws[i := w]) \<Longrightarrow> Exited \<in> set ws"
  by (auto dest!: subsetD [OF set_update_subset_insert])

lemma all_exited_update: "i < length ws \<Longrightarrow> w \<noteq> Exited \<Longrightarrow> \<not> list_all (\<lambda>w. w = Exited) (ws[i := w])"
  by (auto simp: list_all_length)

lemma all_exited_in: "list_all (\<lambda>w. w = Exited) ws \<Longrightarrow> 0 < length ws \<Longrightarrow> Exited \<in> set ws"
  by (cases ws) auto

section \<open>Systems that come to rest\<close>

text \<open>
  The interface of a set of threads whose joins return: every step makes a measure smaller, and as
  long as a thread is left some step can be taken.
\<close>

locale draining = inductive_invariant init step holds
  for init :: "'s \<Rightarrow> bool" and step :: "'s \<Rightarrow> 's \<Rightarrow> bool" and holds :: "'s \<Rightarrow> bool" +
  fixes work :: "'s \<Rightarrow> nat" and rest :: "'s \<Rightarrow> bool"
  assumes work_step: "holds s \<Longrightarrow> step s t \<Longrightarrow> work t < work s"
    and progress: "holds s \<Longrightarrow> \<not> rest s \<Longrightarrow> \<exists>t. step s t"
begin

lemma run_bounded: "(step ^^ n) s t \<Longrightarrow> holds s \<Longrightarrow> n + work t \<le> work s"
proof (induction n arbitrary: t)
  case (Suc n)
  then obtain u where u: "(step ^^ n) s u" "step u t" by auto
  then have "holds u" using Suc.prems(2) always_from by (meson relpowp_imp_rtranclp)
  then show ?case using Suc u work_step [of u t] by fastforce
qed simp

lemma comes_to_rest: "holds s \<Longrightarrow> \<exists>t. step\<^sup>*\<^sup>* s t \<and> rest t"
proof (induction "work s" arbitrary: s rule: less_induct)
  case less
  show ?case
  proof (cases "rest s")
    case False
    then obtain t where t: "step s t" using progress less.prems by blast
    then have "holds t" "work t < work s" using less.prems holds_step work_step by blast+
    then obtain u where "step\<^sup>*\<^sup>* t u" "rest u" using less.hyps by blast
    then show ?thesis using t by (meson converse_rtranclp_into_rtranclp)
  qed blast
qed

end

section \<open>Thread pool\<close>

text \<open>
  A task is a name; what it does is outside the pool. The two logs are ghosts: the tasks in the
  order of submission, and the tasks that have returned. \<^verbatim>\<open>submit\<close> is not called once the destructor has
  begun.
\<close>

record 'a ThreadPool =
  Qtasks :: "'a list"
  tp_stop :: bool
  worker_threads :: "'a worker list"
  submitted :: "'a list"
  executed :: "'a list"

definition tp_new :: "nat \<Rightarrow> 'a ThreadPool" where
  "tp_new numThreads =
     \<lparr>Qtasks = [], tp_stop = False, worker_threads = replicate numThreads Idle, submitted = [], executed = []\<rparr>"

definition tp_submit :: "'a \<Rightarrow> 'a ThreadPool \<Rightarrow> 'a ThreadPool" where
  "tp_submit task s = s\<lparr>Qtasks := Qtasks s @ [task], submitted := submitted s @ [task]\<rparr>"

definition tp_shutdown :: "'a ThreadPool \<Rightarrow> 'a ThreadPool" where
  "tp_shutdown s = s\<lparr>tp_stop := True\<rparr>"

inductive tp_worker :: "nat \<Rightarrow> 'a ThreadPool \<Rightarrow> 'a ThreadPool \<Rightarrow> bool" for i where
  tp_exit: "i < length (worker_threads s) \<Longrightarrow> worker_threads s ! i = Idle \<Longrightarrow> tp_stop s \<Longrightarrow> Qtasks s = [] \<Longrightarrow>
     tp_worker i s (s\<lparr>worker_threads := (worker_threads s)[i := Exited]\<rparr>)"
| tp_take: "i < length (worker_threads s) \<Longrightarrow> worker_threads s ! i = Idle \<Longrightarrow> Qtasks s = task # q \<Longrightarrow>
     tp_worker i s (s\<lparr>Qtasks := q, worker_threads := (worker_threads s)[i := Busy task]\<rparr>)"
| tp_done: "i < length (worker_threads s) \<Longrightarrow> worker_threads s ! i = Busy task \<Longrightarrow>
     tp_worker i s (s\<lparr>worker_threads := (worker_threads s)[i := Idle], executed := executed s @ [task]\<rparr>)"

inductive tp_step :: "'a ThreadPool \<Rightarrow> 'a ThreadPool \<Rightarrow> bool" where
  tp_work: "tp_worker i s t \<Longrightarrow> tp_step s t"
| tp_add: "\<not> tp_stop s \<Longrightarrow> tp_step s (tp_submit task s)"
| tp_end: "tp_step s (tp_shutdown s)"

inductive_cases tp_workerE: "tp_worker i s t"
inductive_cases tp_stepE: "tp_step s t"

definition tp_inv :: "nat \<Rightarrow> 'a ThreadPool \<Rightarrow> bool" where
  "tp_inv n s \<longleftrightarrow> length (worker_threads s) = n \<and>
     mset (submitted s) = mset (executed s) + busy (worker_threads s) + mset (Qtasks s) \<and>
     (Exited \<in> set (worker_threads s) \<longrightarrow> tp_stop s \<and> Qtasks s = [])"

lemma tp_inv_worker: "tp_inv n s \<Longrightarrow> tp_worker i s t \<Longrightarrow> tp_inv n t"
proof (erule tp_workerE)
  fix task assume inv: "tp_inv n s" and i: "i < length (worker_threads s)" "worker_threads s ! i = Busy task"
    and t: "t = s\<lparr>worker_threads := (worker_threads s)[i := Idle], executed := executed s @ [task]\<rparr>"
  show "tp_inv n t"
    using inv busy_finish [OF i] Exited_update [OF i(1), of Idle] by (auto simp: tp_inv_def t)
next
  fix task q assume inv: "tp_inv n s" and i: "i < length (worker_threads s)" "worker_threads s ! i = Idle"
    and q: "Qtasks s = task # q"
    and t: "t = s\<lparr>Qtasks := q, worker_threads := (worker_threads s)[i := Busy task]\<rparr>"
  show "tp_inv n t"
    using inv i q Exited_update [OF i(1), of "Busy task"] by (auto simp: tp_inv_def t)
qed (auto simp: tp_inv_def)

interpretation tp: inductive_invariant "\<lambda>s. s = tp_new n" tp_step "tp_inv n" for n
proof
  fix s t :: "'a ThreadPool"
  assume inv: "tp_inv n s" and "tp_step s t"
  from this(2) show "tp_inv n t"
  proof (rule tp_stepE)
    fix i assume "tp_worker i s t" then show ?thesis using inv tp_inv_worker by blast
  qed (use inv in \<open>auto simp: tp_inv_def tp_submit_def tp_shutdown_def\<close>)
qed (simp add: tp_inv_def tp_new_def)

definition tp_work_left :: "'a ThreadPool \<Rightarrow> nat" where
  "tp_work_left s = workers_size (worker_threads s) + 2 * length (Qtasks s)"

definition tp_joined :: "'a ThreadPool \<Rightarrow> bool" where
  "tp_joined s \<longleftrightarrow> list_all (\<lambda>w. w = Exited) (worker_threads s)"

text \<open>Once the destructor has set the flag only the workers move.\<close>

interpretation tp_drain: draining "\<lambda>s. tp_inv n s \<and> tp_stop s" "\<lambda>s t. \<exists>i. tp_worker i s t"
    "\<lambda>s. tp_inv n s \<and> tp_stop s" tp_work_left tp_joined for n
proof
  fix s t :: "'a ThreadPool"
  assume inv: "tp_inv n s \<and> tp_stop s" and st: "\<exists>i. tp_worker i s t"
  from st obtain i where w: "tp_worker i s t" ..
  have "tp_stop t" using w inv by (auto elim!: tp_workerE)
  then show "tp_inv n t \<and> tp_stop t" using inv w tp_inv_worker by blast
  from w show "tp_work_left t < tp_work_left s"
  proof (rule tp_workerE)
  qed (use workers_size_update [of i "worker_threads s" "worker_threads t ! i"] in \<open>auto simp: tp_work_left_def\<close>)
next
  fix s :: "'a ThreadPool"
  assume inv: "tp_inv n s \<and> tp_stop s" and "\<not> tp_joined s"
  then obtain i where i: "i < length (worker_threads s)" "worker_threads s ! i \<noteq> Exited"
    by (auto simp: tp_joined_def list_all_length)
  show "\<exists>t i. tp_worker i s t"
  proof (cases "worker_threads s ! i")
    case Idle
    then show ?thesis using i inv by (cases "Qtasks s") (blast intro: tp_exit tp_take)+
  qed (use i in \<open>blast intro: tp_done\<close>)+
qed simp

lemma tp_started_in_order:
  assumes "reach (\<lambda>s. s = tp_new n) tp_step s"
  shows "\<exists>started. submitted s = started @ Qtasks s \<and> mset started = mset (executed s) + busy (worker_threads s)"
  using assms
proof (induction rule: reach.induct)
  case (reach_init s)
  then show ?case by (simp add: tp_new_def)
next
  case (reach_step s t)
  then obtain st where st: "submitted s = st @ Qtasks s" "mset st = mset (executed s) + busy (worker_threads s)" by blast
  from reach_step.hyps(2) show ?case
  proof (rule tp_stepE)
    fix i assume "tp_worker i s t"
    then show ?thesis
    proof (rule tp_workerE)
      fix task assume "i < length (worker_threads s)" "worker_threads s ! i = Busy task"
      from busy_finish [OF this] show ?thesis
        if "t = s\<lparr>worker_threads := (worker_threads s)[i := Idle], executed := executed s @ [task]\<rparr>"
        using that st by auto
    next
      fix task q assume "i < length (worker_threads s)" "worker_threads s ! i = Idle" "Qtasks s = task # q"
        "t = s\<lparr>Qtasks := q, worker_threads := (worker_threads s)[i := Busy task]\<rparr>"
      then show ?thesis using st by (intro exI [of _ "st @ [task]"]) auto
    qed (use st in auto)
  qed (use st in \<open>auto simp: tp_submit_def tp_shutdown_def\<close>)
qed

text \<open>
  C2. Thread pool: in every interleaving the tasks are started in the order of submission and none
  is lost or run twice; once the destructor has begun, the workers can always move on until all have
  returned, after a bounded number of steps; and when they have returned every task submitted has been
  executed exactly once.
\<close>

theorem thread_pool_drains:
  assumes "reach (\<lambda>s. s = tp_new n) tp_step s" "0 < n"
  shows "(\<exists>started. submitted s = started @ Qtasks s \<and> mset started = mset (executed s) + busy (worker_threads s)) \<and>
    (if tp_stop s then \<exists>t. (\<lambda>s t. \<exists>i. tp_worker i s t)\<^sup>*\<^sup>* s t \<and> tp_joined t else True) \<and>
    (if tp_stop s \<and> ((\<lambda>s t. \<exists>i. tp_worker i s t) ^^ k) s t then k \<le> tp_work_left s else True) \<and>
    (if tp_joined s then mset (executed s) = mset (submitted s) else True)"
proof -
  have inv: "tp_inv n s" using tp.always assms(1) by blast
  have "mset (executed s) = mset (submitted s)" if "tp_joined s"
  proof -
    have "Exited \<in> set (worker_threads s)"
      using that inv assms(2) by (intro all_exited_in) (simp_all add: tp_joined_def tp_inv_def)
    then show ?thesis using inv that by (simp add: tp_inv_def tp_joined_def busy_none)
  qed
  moreover have "\<exists>t. (\<lambda>s t. \<exists>i. tp_worker i s t)\<^sup>*\<^sup>* s t \<and> tp_joined t" if "tp_stop s"
    using tp_drain.comes_to_rest inv that by blast
  moreover have "k \<le> tp_work_left s" if "tp_stop s" "((\<lambda>s t. \<exists>i. tp_worker i s t) ^^ k) s t"
    using tp_drain.run_bounded [OF that(2)] inv that(1) by fastforce
  ultimately show ?thesis using tp_started_in_order [OF assms(1)] by simp
qed

theorem thread_pool_drains_witness:
  "\<exists>t. (\<lambda>s t. \<exists>i. tp_worker i s t)\<^sup>*\<^sup>* (tp_shutdown (tp_submit (7::nat) (tp_new 2))) t \<and> tp_joined t"
proof -
  have "reach (\<lambda>s. s = tp_new 2) tp_step (tp_new 2 :: nat ThreadPool)" by (rule reach_init) simp
  then have "reach (\<lambda>s. s = tp_new 2) tp_step (tp_submit (7::nat) (tp_new 2))"
    by (rule reach_step) (simp add: tp_add tp_new_def)
  then have "reach (\<lambda>s. s = tp_new 2) tp_step (tp_shutdown (tp_submit (7::nat) (tp_new 2)))"
    by (rule reach_step) (rule tp_end)
  from thread_pool_drains [OF this] show ?thesis by (simp add: tp_shutdown_def)
qed

section \<open>Multi-threaded breadth-first search\<close>

text \<open>
  A worker that has taken a node is \<open>Busy (node, rem)\<close> with the neighbours still to look at; each is
  looked at in a critical section of its own. Ghosts: the nodes in the order they were taken, and the
  source of the search. The edges are added before the search starts, and the search starts once.
\<close>

record Multi_threaded_BFS =
  bfs_graph :: "(int, int list) umap"
  bfs_Q :: "int list"
  visited :: "int set"
  bfs_stop :: bool
  bfs_threads :: "(int \<times> int list) worker list"
  taken :: "int list"
  source :: "int option"

definition addEdge :: "int \<Rightarrow> int \<Rightarrow> (int, int list) umap \<Rightarrow> (int, int list) umap" where
  "addEdge u v g = (let g = um_put u (um_at [] g u @ [v]) g in um_put v (um_at [] g v @ [u]) g)"

definition bfs_new :: "nat \<Rightarrow> (int, int list) umap \<Rightarrow> Multi_threaded_BFS" where
  "bfs_new num_threads g = \<lparr>bfs_graph = g, bfs_Q = [], visited = {}, bfs_stop = False,
     bfs_threads = replicate num_threads Idle, taken = [], source = None\<rparr>"

definition startBFS :: "int \<Rightarrow> Multi_threaded_BFS \<Rightarrow> Multi_threaded_BFS" where
  "startBFS src s = s\<lparr>bfs_Q := bfs_Q s @ [src], visited := insert src (visited s), source := Some src\<rparr>"

definition bfs_shutdown :: "Multi_threaded_BFS \<Rightarrow> Multi_threaded_BFS" where
  "bfs_shutdown s = s\<lparr>bfs_stop := True\<rparr>"

definition look_at :: "int \<Rightarrow> Multi_threaded_BFS \<Rightarrow> Multi_threaded_BFS" where
  "look_at neighbour s =
     (if neighbour \<notin> visited s then s\<lparr>visited := insert neighbour (visited s), bfs_Q := bfs_Q s @ [neighbour]\<rparr> else s)"

definition bfs_set :: "nat \<Rightarrow> (int \<times> int list) worker \<Rightarrow> Multi_threaded_BFS \<Rightarrow> Multi_threaded_BFS" where
  "bfs_set i w s = s\<lparr>bfs_threads := (bfs_threads s)[i := w]\<rparr>"

inductive bfs_worker :: "nat \<Rightarrow> Multi_threaded_BFS \<Rightarrow> Multi_threaded_BFS \<Rightarrow> bool" for i where
  bfs_exit: "i < length (bfs_threads s) \<Longrightarrow> bfs_threads s ! i = Idle \<Longrightarrow> bfs_stop s \<Longrightarrow> bfs_Q s = [] \<Longrightarrow>
     bfs_worker i s (bfs_set i Exited s)"
| bfs_take: "i < length (bfs_threads s) \<Longrightarrow> bfs_threads s ! i = Idle \<Longrightarrow> bfs_Q s = node # q \<Longrightarrow>
     bfs_worker i s (bfs_set i (Busy (node, um_at [] (bfs_graph s) node)) (s\<lparr>bfs_Q := q, taken := taken s @ [node]\<rparr>))"
| bfs_look: "i < length (bfs_threads s) \<Longrightarrow> bfs_threads s ! i = Busy (node, v # rem) \<Longrightarrow>
     bfs_worker i s (bfs_set i (Busy (node, rem)) (look_at v s))"
| bfs_done: "i < length (bfs_threads s) \<Longrightarrow> bfs_threads s ! i = Busy (node, []) \<Longrightarrow>
     bfs_worker i s (bfs_set i Idle s)"

inductive bfs_step :: "Multi_threaded_BFS \<Rightarrow> Multi_threaded_BFS \<Rightarrow> bool" where
  bfs_work: "bfs_worker i s t \<Longrightarrow> bfs_step s t"
| bfs_start: "\<not> bfs_stop s \<Longrightarrow> source s = None \<Longrightarrow> bfs_step s (startBFS src s)"
| bfs_end: "bfs_step s (bfs_shutdown s)"

inductive_cases bfs_workerE: "bfs_worker i s t"
inductive_cases bfs_stepE: "bfs_step s t"

definition bfs_reachable :: "(int, int list) umap \<Rightarrow> int option \<Rightarrow> int set" where
  "bfs_reachable g src = (case src of None \<Rightarrow> {} | Some x \<Rightarrow> {y. (\<lambda>u v. v \<in> set (um_at [] g u))\<^sup>*\<^sup>* x y})"

definition bfs_inv :: "nat \<Rightarrow> (int, int list) umap \<Rightarrow> Multi_threaded_BFS \<Rightarrow> bool" where
  "bfs_inv n g s \<longleftrightarrow> length (bfs_threads s) = n \<and> 0 < n \<and> bfs_graph s = g \<and>
     distinct (taken s @ bfs_Q s) \<and> set (taken s @ bfs_Q s) = visited s \<and>
     visited s \<subseteq> bfs_reachable g (source s) \<and> set_option (source s) \<subseteq> visited s \<and>
     (\<forall>(x, rem) \<in># busy (bfs_threads s). x \<in> set (taken s) \<and> set rem \<subseteq> set (um_at [] g x)) \<and>
     (\<forall>x \<in> set (taken s). \<exists>rem. ((x, rem) \<in># busy (bfs_threads s) \<or> rem = []) \<and> set (um_at [] g x) \<subseteq> visited s \<union> set rem) \<and>
     (Exited \<in> set (bfs_threads s) \<longrightarrow> bfs_stop s) \<and>
     (list_all (\<lambda>w. w = Exited) (bfs_threads s) \<longrightarrow> bfs_Q s = [])"

lemma bfs_reachable_edge:
  "x \<in> bfs_reachable g src \<Longrightarrow> y \<in> set (um_at [] g x) \<Longrightarrow> y \<in> bfs_reachable g src"
  by (auto simp: bfs_reachable_def intro: rtranclp.rtrancl_into_rtrancl split: option.splits)

lemma bfs_reachable_finite: "finite (bfs_reachable g src)"
proof -
  let ?R = "\<lambda>u v. v \<in> set (um_at [] g u)"
  have edge: "y \<in> \<Union> (set ` snd ` set g)" if e: "y \<in> set (um_at [] g u)" for u y
  proof -
    obtain l where "um_find g u = Some l" "y \<in> set l" using e by (cases "um_find g u") (auto simp: um_at_def)
    then show ?thesis using map_of_SomeD [of g u l] by force
  qed
  have "y \<in> insert x (\<Union> (set ` snd ` set g))" if "?R\<^sup>*\<^sup>* x y" for x y
    using that by (cases rule: rtranclp.cases) (use edge in blast)+
  then have "{y. ?R\<^sup>*\<^sup>* x y} \<subseteq> insert x (\<Union> (set ` snd ` set g))" for x by blast
  then have "finite {y. ?R\<^sup>*\<^sup>* x y}" for x by (rule finite_subset) simp
  then show ?thesis by (simp add: bfs_reachable_def split: option.split)
qed

lemma busy_switch:
  assumes "i < length ws" "ws ! i = Busy a"
  shows "busy (ws[i := Busy b]) = add_mset b (busy (ws[i := Idle]))"
proof -
  have "(ws[i := Idle])[i := Busy b] = ws[i := Busy b]" by simp
  then show ?thesis using busy_take [of i "ws[i := Idle]" b] assms by simp
qed

lemma bfs_covered:
  "bfs_inv n g s \<Longrightarrow> x \<in> set (taken s) \<Longrightarrow>
     \<exists>rem. ((x, rem) \<in># busy (bfs_threads s) \<or> rem = []) \<and> set (um_at [] g x) \<subseteq> visited s \<union> set rem"
  by (simp add: bfs_inv_def)

lemma bfs_busyD:
  "bfs_inv n g s \<Longrightarrow> (x, rem) \<in># busy (bfs_threads s) \<Longrightarrow> x \<in> set (taken s) \<and> set rem \<subseteq> set (um_at [] g x)"
  by (auto simp: bfs_inv_def)

lemma bfs_taken_reachable: "bfs_inv n g s \<Longrightarrow> x \<in> set (taken s) \<Longrightarrow> x \<in> bfs_reachable g (source s)"
  unfolding bfs_inv_def set_append by blast

lemma bfs_inv_worker:
  assumes inv: "bfs_inv n g s" and "bfs_worker i s t"
  shows "bfs_inv n g t"
  using assms(2)
proof (rule bfs_workerE)
  assume i: "i < length (bfs_threads s)" "bfs_threads s ! i = Idle" "bfs_stop s" "bfs_Q s = []"
    and t: "t = bfs_set i Exited s"
  then show ?thesis using inv by (auto simp: bfs_inv_def bfs_set_def)
next
  fix node q assume i: "i < length (bfs_threads s)" "bfs_threads s ! i = Idle" and q: "bfs_Q s = node # q"
    and t: "t = bfs_set i (Busy (node, um_at [] (bfs_graph s) node)) (s\<lparr>bfs_Q := q, taken := taken s @ [node]\<rparr>)"
  note upd = Exited_update [OF i(1), of "Busy (node, um_at [] g node)"] all_exited_update [OF i(1), of "Busy (node, um_at [] g node)"]
  have "\<exists>rem. ((x, rem) \<in># busy (bfs_threads t) \<or> rem = []) \<and> set (um_at [] g x) \<subseteq> visited s \<union> set rem"
    if x: "x \<in> set (taken t)" for x
  proof (cases "x = node")
    case True
    then show ?thesis using i inv by (intro exI [of _ "um_at [] g node"]) (auto simp: t bfs_set_def bfs_inv_def)
  next
    case False
    then obtain rem where "(x, rem) \<in># busy (bfs_threads s) \<or> rem = []" "set (um_at [] g x) \<subseteq> visited s \<union> set rem"
      using bfs_covered [OF inv, of x] x by (auto simp: t bfs_set_def)
    then show ?thesis using i by (intro exI [of _ rem]) (auto simp: t bfs_set_def)
  qed
  then show ?thesis using inv i q upd by (auto simp: bfs_inv_def bfs_set_def t)
next
  fix node v rem assume i: "i < length (bfs_threads s)" "bfs_threads s ! i = Busy (node, v # rem)"
    and t: "t = bfs_set i (Busy (node, rem)) (look_at v s)"
  note upd = Exited_update [OF i(1), of "Busy (node, rem)"] all_exited_update [OF i(1), of "Busy (node, rem)"]
  let ?B = "busy ((bfs_threads s)[i := Idle])"
  have B: "busy (bfs_threads s) = add_mset (node, v # rem) ?B" "busy (bfs_threads t) = add_mset (node, rem) ?B"
    using busy_finish [OF i] busy_switch [OF i] by (simp_all add: t bfs_set_def look_at_def)
  have nd: "node \<in> set (taken s)" "v \<in> set (um_at [] g node)" "set rem \<subseteq> set (um_at [] g node)"
    using bfs_busyD [OF inv, of node "v # rem"] B(1) by simp_all
  have vis: "visited t = insert v (visited s)" "taken t = taken s" by (auto simp: t bfs_set_def look_at_def)
  have v: "v \<in> bfs_reachable g (source s)"
    using bfs_taken_reachable [OF inv nd(1)] nd(2) by (rule bfs_reachable_edge)
  have "\<exists>r. ((x, r) \<in># busy (bfs_threads t) \<or> r = []) \<and> set (um_at [] g x) \<subseteq> visited t \<union> set r"
    if x: "x \<in> set (taken t)" for x
  proof -
    obtain r where r: "(x, r) \<in># busy (bfs_threads s) \<or> r = []" "set (um_at [] g x) \<subseteq> visited s \<union> set r"
      using bfs_covered [OF inv, of x] x vis by auto
    show ?thesis
    proof (cases "(x, r) = (node, v # rem)")
      case True
      then show ?thesis using r B(2) vis by (intro exI [of _ rem]) auto
    next
      case False
      then show ?thesis using r B vis by (intro exI [of _ r]) auto
    qed
  qed
  moreover have "\<forall>(x, r) \<in># busy (bfs_threads t). x \<in> set (taken t) \<and> set r \<subseteq> set (um_at [] g x)"
    using bfs_busyD [OF inv] nd unfolding B vis(2) by auto
  moreover have "distinct (taken t @ bfs_Q t) \<and> set (taken t @ bfs_Q t) = visited t"
    using inv by (auto simp: bfs_inv_def t bfs_set_def look_at_def)
  moreover have "length (bfs_threads t) = n" "bfs_graph t = g" "source t = source s" "bfs_stop t = bfs_stop s"
    using inv by (auto simp: bfs_inv_def t bfs_set_def look_at_def)
  moreover have "bfs_threads t = (bfs_threads s)[i := Busy (node, rem)]" by (simp add: t bfs_set_def look_at_def)
  ultimately show ?thesis using inv v upd unfolding bfs_inv_def vis by auto
next
  fix node assume i: "i < length (bfs_threads s)" "bfs_threads s ! i = Busy (node, [])"
    and t: "t = bfs_set i Idle s"
  note upd = Exited_update [OF i(1), of Idle] all_exited_update [OF i(1), of Idle]
  have "\<exists>r. ((x, r) \<in># busy (bfs_threads t) \<or> r = []) \<and> set (um_at [] g x) \<subseteq> visited s \<union> set r"
    if x: "x \<in> set (taken s)" for x
  proof -
    obtain r where "(x, r) \<in># busy (bfs_threads s) \<or> r = []" "set (um_at [] g x) \<subseteq> visited s \<union> set r"
      using bfs_covered [OF inv x] by blast
    then show ?thesis using busy_finish [OF i] by (intro exI [of _ r]) (auto simp: t bfs_set_def)
  qed
  then show ?thesis using inv busy_finish [OF i] upd by (auto simp: bfs_inv_def bfs_set_def t)
qed

lemma bfs_inv_step: "bfs_inv n g s \<Longrightarrow> bfs_step s t \<Longrightarrow> bfs_inv n g t"
proof (erule bfs_stepE)
  fix src assume inv: "bfs_inv n g s" and s: "\<not> bfs_stop s" "source s = None" "t = startBFS src s"
  then have "visited s = {}" "taken s = []" "bfs_Q s = []" by (auto simp: bfs_inv_def bfs_reachable_def)
  moreover have "\<not> list_all (\<lambda>w. w = Exited) (bfs_threads s)" using all_exited_in inv s(1) by (fastforce simp: bfs_inv_def)
  ultimately show "bfs_inv n g t" using inv s by (auto simp: bfs_inv_def startBFS_def bfs_reachable_def)
next
  show "bfs_inv n g s \<Longrightarrow> bfs_worker i s t \<Longrightarrow> bfs_inv n g t" for i by (rule bfs_inv_worker)
  show "bfs_inv n g s \<Longrightarrow> t = bfs_shutdown s \<Longrightarrow> bfs_inv n g t" by (simp add: bfs_inv_def bfs_shutdown_def)
qed

interpretation bfs: inductive_invariant "\<lambda>s. s = bfs_new (Suc n) g" bfs_step "bfs_inv (Suc n) g" for n g
proof
  show "bfs_inv (Suc n) g s" if "s = bfs_new (Suc n) g" for s
    using that by (simp add: bfs_inv_def bfs_new_def busy_idle [of "Suc n", simplified])
qed (rule bfs_inv_step)

primrec bfs_worker_size :: "(int \<times> int list) worker \<Rightarrow> nat" where
  "bfs_worker_size Idle = 1"
| "bfs_worker_size (Busy b) = 2 + length (snd b)"
| "bfs_worker_size Exited = 0"

definition bfs_work_left :: "Multi_threaded_BFS \<Rightarrow> nat" where
  "bfs_work_left s = (\<Sum>x \<in> bfs_reachable (bfs_graph s) (source s) - set (taken s). 3 + length (um_at [] (bfs_graph s) x)) +
     sum_list (map bfs_worker_size (bfs_threads s))"

definition bfs_joined :: "Multi_threaded_BFS \<Rightarrow> bool" where
  "bfs_joined s \<longleftrightarrow> list_all (\<lambda>w. w = Exited) (bfs_threads s)"

lemma bfs_workers_update:
  assumes "i < length ws"
  shows "sum_list (map bfs_worker_size (ws[i := w])) + bfs_worker_size (ws ! i) =
         sum_list (map bfs_worker_size ws) + bfs_worker_size w"
proof -
  have "sum_list (map bfs_worker_size ws) = sum_list (map bfs_worker_size (take i ws @ ws ! i # drop (Suc i) ws))"
    using id_take_nth_drop [OF assms] by simp
  then show ?thesis using assms by (simp add: upd_conv_take_nth_drop)
qed

lemma bfs_work_step:
  assumes inv: "bfs_inv n g s" and "bfs_worker i s t"
  shows "bfs_work_left t < bfs_work_left s"
  using assms(2)
proof (rule bfs_workerE)
  fix node q assume i: "i < length (bfs_threads s)" "bfs_threads s ! i = Idle" and q: "bfs_Q s = node # q"
    and t: "t = bfs_set i (Busy (node, um_at [] (bfs_graph s) node)) (s\<lparr>bfs_Q := q, taken := taken s @ [node]\<rparr>)"
  let ?R = "bfs_reachable (bfs_graph s) (source s)" and ?f = "\<lambda>x. 3 + length (um_at [] (bfs_graph s) x)"
  have "node \<in> ?R - set (taken s)" using inv q by (auto simp: bfs_inv_def)
  then have "sum ?f (?R - set (taken s)) = ?f node + sum ?f (?R - set (taken s) - {node})"
    by (intro sum.remove) (simp_all add: bfs_reachable_finite)
  moreover have "?R - set (taken s) - {node} = ?R - set (taken s @ [node])" by auto
  ultimately show ?thesis
    using bfs_workers_update [OF i(1), of "Busy (node, um_at [] (bfs_graph s) node)"] i(2)
    by (simp add: bfs_work_left_def t bfs_set_def)
next
  fix node v rem assume i: "i < length (bfs_threads s)" "bfs_threads s ! i = Busy (node, v # rem)"
    and t: "t = bfs_set i (Busy (node, rem)) (look_at v s)"
  show ?thesis using bfs_workers_update [OF i(1), of "Busy (node, rem)"] i(2)
    by (simp add: bfs_work_left_def t bfs_set_def look_at_def)
qed (use bfs_workers_update [of i "bfs_threads s" Exited] bfs_workers_update [of i "bfs_threads s" Idle]
  in \<open>auto simp: bfs_work_left_def bfs_set_def\<close>)

interpretation bfs_drain: draining "\<lambda>s. bfs_inv n g s \<and> bfs_stop s" "\<lambda>s t. \<exists>i. bfs_worker i s t"
    "\<lambda>s. bfs_inv n g s \<and> bfs_stop s" bfs_work_left bfs_joined for n g
proof
  fix s t assume inv: "bfs_inv n g s \<and> bfs_stop s" and "\<exists>i. bfs_worker i s t"
  then obtain i where w: "bfs_worker i s t" by blast
  have "bfs_stop t" using w inv by (auto elim!: bfs_workerE simp: bfs_set_def look_at_def)
  then show "bfs_inv n g t \<and> bfs_stop t" using inv w bfs_inv_worker by blast
  show "bfs_work_left t < bfs_work_left s" using inv w bfs_work_step by blast
next
  fix s assume inv: "bfs_inv n g s \<and> bfs_stop s" and "\<not> bfs_joined s"
  then obtain i where i: "i < length (bfs_threads s)" "bfs_threads s ! i \<noteq> Exited"
    by (auto simp: bfs_joined_def list_all_length)
  show "\<exists>t i. bfs_worker i s t"
  proof (cases "bfs_threads s ! i")
    case Idle
    then show ?thesis using i inv by (cases "bfs_Q s") (blast intro: bfs_exit bfs_take)+
  next
    case (Busy b)
    then show ?thesis using i by (cases b, cases "snd b") (auto intro: bfs_look bfs_done)
  qed (use i in simp)
qed simp

text \<open>
  C4. Multi-threaded search: in every interleaving no node is processed twice and only nodes
  reachable from the source are; after \<^verbatim>\<open>shutdown\<close> has set its flag the workers take a bounded number of
  steps and can always go on until all have returned, and then every reachable node has been
  processed, even though a worker may return while another is still about to add nodes.
\<close>

theorem bfs_exact:
  assumes "reach (\<lambda>s. s = bfs_new (Suc n) g) bfs_step s"
  shows "distinct (taken s) \<and> set (taken s) \<subseteq> bfs_reachable g (source s) \<and>
    (if bfs_joined s then set (taken s) = bfs_reachable g (source s) else True) \<and>
    (if bfs_stop s then \<exists>t. (\<lambda>s t. \<exists>i. bfs_worker i s t)\<^sup>*\<^sup>* s t \<and> bfs_joined t else True) \<and>
    (if bfs_stop s \<and> ((\<lambda>s t. \<exists>i. bfs_worker i s t) ^^ k) s t then k \<le> bfs_work_left s else True)"
proof -
  have inv: "bfs_inv (Suc n) g s" using assms by (rule bfs.always)
  have "bfs_reachable g (source s) \<subseteq> set (taken s)" if j: "bfs_joined s"
  proof -
    have Q: "set (taken s) = visited s" and b: "busy (bfs_threads s) = {#}"
      using j inv busy_none [of "bfs_threads s"] by (auto simp: bfs_joined_def bfs_inv_def)
    have closed: "v \<in> set (taken s)" if "u \<in> set (taken s)" "v \<in> set (um_at [] g u)" for u v
      using bfs_covered [OF inv that(1)] that(2) b Q by auto
    show ?thesis
    proof (cases "source s")
      case (Some x)
      have "y \<in> set (taken s)" if "(\<lambda>u v. v \<in> set (um_at [] g u))\<^sup>*\<^sup>* x y" for y
        using that
      proof (induction rule: rtranclp_induct)
        case base
        then show ?case using Some inv unfolding Q by (simp add: bfs_inv_def)
      qed (rule closed)
      then show ?thesis by (auto simp: bfs_reachable_def Some)
    qed (simp add: bfs_reachable_def)
  qed
  moreover have "distinct (taken s)" "set (taken s) \<subseteq> bfs_reachable g (source s)"
    using inv bfs_taken_reachable by (auto simp: bfs_inv_def)
  moreover have "\<exists>t. (\<lambda>s t. \<exists>i. bfs_worker i s t)\<^sup>*\<^sup>* s t \<and> bfs_joined t" if "bfs_stop s"
    using bfs_drain.comes_to_rest inv that by blast
  moreover have "k \<le> bfs_work_left s" if "bfs_stop s" "((\<lambda>s t. \<exists>i. bfs_worker i s t) ^^ k) s t"
    using bfs_drain.run_bounded [OF that(2)] inv that(1) by fastforce
  ultimately show ?thesis by auto
qed

theorem bfs_exact_witness:
  "\<exists>t. (\<lambda>s t. \<exists>i. bfs_worker i s t)\<^sup>*\<^sup>* (bfs_shutdown (startBFS 1 (bfs_new (Suc 3) (addEdge 1 2 [])))) t \<and> bfs_joined t"
proof -
  let ?n = "bfs_new (Suc 3) (addEdge 1 2 [])"
  have "reach (\<lambda>s. s = ?n) bfs_step ?n" by (rule reach_init) simp
  then have "reach (\<lambda>s. s = ?n) bfs_step (startBFS 1 ?n)"
    by (rule reach_step) (rule bfs_start, simp_all add: bfs_new_def)
  then have "reach (\<lambda>s. s = ?n) bfs_step (bfs_shutdown (startBFS 1 ?n))"
    by (rule reach_step) (rule bfs_end)
  from bfs_exact [OF this] show ?thesis by (simp add: bfs_shutdown_def)
qed

section \<open>Search engine\<close>

definition isalnum :: "char \<Rightarrow> bool" where
  "isalnum c \<longleftrightarrow> (let n = of_char c :: nat in 48 \<le> n \<and> n \<le> 57 \<or> 65 \<le> n \<and> n \<le> 90 \<or> 97 \<le> n \<and> n \<le> 122)"

fun tokenize_from :: "string \<Rightarrow> string \<Rightarrow> string list" where
  "tokenize_from word [] = (if word \<noteq> [] then [word] else [])"
| "tokenize_from word (c # cs) =
     (if isalnum c then tokenize_from (word @ [c]) cs
      else if word \<noteq> [] then word # tokenize_from [] cs else tokenize_from [] cs)"

definition doc_tokenize :: "string \<Rightarrow> string list" where
  "doc_tokenize doc_text = tokenize_from [] doc_text"

lemma tokenize_from_words:
  "list_all isalnum word \<Longrightarrow> list_all (\<lambda>w. w \<noteq> [] \<and> list_all isalnum w) (tokenize_from word cs)"
  "concat (tokenize_from word cs) = word @ filter isalnum cs"
  by (induction word cs rule: tokenize_from.induct) simp_all

text \<open>
  A document is its number and its text. Ghosts: the documents added, those among them added after
  \<^verbatim>\<open>stop\<close>, and those whose terms are in the index.
\<close>

type_synonym document = "int \<times> string"

record SearchEngine =
  inverted_index :: "(string, int set) umap"
  document_queue :: "document list"
  se_done :: bool
  se_threads :: "document worker list"
  added :: "document list"
  late :: "document list"
  indexed :: "document list"

definition se_new :: "nat \<Rightarrow> SearchEngine" where
  "se_new numThreads = \<lparr>inverted_index = [], document_queue = [], se_done = False,
     se_threads = replicate numThreads Idle, added = [], late = [], indexed = []\<rparr>"

definition add_document :: "int \<Rightarrow> string \<Rightarrow> SearchEngine \<Rightarrow> SearchEngine" where
  "add_document document_id doc_text s =
     s\<lparr>document_queue := document_queue s @ [(document_id, doc_text)], added := added s @ [(document_id, doc_text)],
       late := (if se_done s then late s @ [(document_id, doc_text)] else late s)\<rparr>"

definition se_stop :: "SearchEngine \<Rightarrow> SearchEngine" where
  "se_stop s = s\<lparr>se_done := True\<rparr>"

definition index_term :: "int \<Rightarrow> string \<Rightarrow> (string, int set) umap \<Rightarrow> (string, int set) umap" where
  "index_term doc_id trm idx = um_put trm (insert doc_id (um_at {} idx trm)) idx"

definition index_document :: "document \<Rightarrow> SearchEngine \<Rightarrow> SearchEngine" where
  "index_document doc s =
     s\<lparr>inverted_index := fold (index_term (fst doc)) (doc_tokenize (snd doc)) (inverted_index s), indexed := indexed s @ [doc]\<rparr>"

definition serach :: "string \<Rightarrow> SearchEngine \<Rightarrow> int list" where
  "serach trm s = (case um_find (inverted_index s) trm of None \<Rightarrow> [] | Some ids \<Rightarrow> sorted_list_of_set ids)"

inductive se_worker :: "nat \<Rightarrow> SearchEngine \<Rightarrow> SearchEngine \<Rightarrow> bool" for i where
  se_exit: "i < length (se_threads s) \<Longrightarrow> se_threads s ! i = Idle \<Longrightarrow> se_done s \<Longrightarrow> document_queue s = [] \<Longrightarrow>
     se_worker i s (s\<lparr>se_threads := (se_threads s)[i := Exited]\<rparr>)"
| se_take: "i < length (se_threads s) \<Longrightarrow> se_threads s ! i = Idle \<Longrightarrow> document_queue s = doc # q \<Longrightarrow>
     se_worker i s (s\<lparr>document_queue := q, se_threads := (se_threads s)[i := Busy doc]\<rparr>)"
| se_index: "i < length (se_threads s) \<Longrightarrow> se_threads s ! i = Busy doc \<Longrightarrow>
     se_worker i s ((index_document doc s)\<lparr>se_threads := (se_threads s)[i := Idle]\<rparr>)"

inductive se_step :: "SearchEngine \<Rightarrow> SearchEngine \<Rightarrow> bool" where
  se_work: "se_worker i s t \<Longrightarrow> se_step s t"
| se_add: "se_step s (add_document document_id doc_text s)"
| se_end: "se_step s (se_stop s)"

inductive_cases se_workerE: "se_worker i s t"
inductive_cases se_stepE: "se_step s t"

definition docs_with :: "string \<Rightarrow> document list \<Rightarrow> int set" where
  "docs_with trm docs = fst ` {doc \<in> set docs. trm \<in> set (doc_tokenize (snd doc))}"

definition se_inv :: "nat \<Rightarrow> SearchEngine \<Rightarrow> bool" where
  "se_inv n s \<longleftrightarrow> length (se_threads s) = n \<and>
     mset (added s) = mset (indexed s) + busy (se_threads s) + mset (document_queue s) \<and>
     (\<forall>trm. um_at {} (inverted_index s) trm = docs_with trm (indexed s)) \<and>
     (Exited \<in> set (se_threads s) \<longrightarrow> se_done s) \<and>
     (list_all (\<lambda>w. w = Exited) (se_threads s) \<longrightarrow> n = 0 \<or> set (document_queue s) \<subseteq> set (late s))"

lemma index_terms:
  "um_at {} (fold (index_term doc_id) ws idx) trm =
     (if trm \<in> set ws then insert doc_id (um_at {} idx trm) else um_at {} idx trm)"
proof (induction ws arbitrary: idx)
  case (Cons w ws)
  have "um_at {} (index_term doc_id w idx) trm = (if trm = w then insert doc_id (um_at {} idx trm) else um_at {} idx trm)"
    by (simp add: index_term_def um_at_upd)
  then show ?case using Cons [of "index_term doc_id w idx"] by auto
qed simp

lemma se_inv_worker:
  assumes inv: "se_inv n s" and "se_worker i s t"
  shows "se_inv n t"
  using assms(2)
proof (rule se_workerE)
  fix doc q assume i: "i < length (se_threads s)" "se_threads s ! i = Idle" and q: "document_queue s = doc # q"
    and t: "t = s\<lparr>document_queue := q, se_threads := (se_threads s)[i := Busy doc]\<rparr>"
  show ?thesis using inv i q Exited_update [OF i(1), of "Busy doc"] all_exited_update [OF i(1), of "Busy doc"]
    by (auto simp: se_inv_def t)
next
  fix doc assume i: "i < length (se_threads s)" "se_threads s ! i = Busy doc"
    and t: "t = (index_document doc s)\<lparr>se_threads := (se_threads s)[i := Idle]\<rparr>"
  have "um_at {} (inverted_index t) trm = docs_with trm (indexed t)" for trm
    using inv by (auto simp: se_inv_def t index_document_def index_terms docs_with_def)
  then show ?thesis using inv busy_finish [OF i] Exited_update [OF i(1), of Idle] all_exited_update [OF i(1), of Idle]
    by (auto simp: se_inv_def t index_document_def)
qed (use inv in \<open>auto simp: se_inv_def\<close>)

interpretation se: inductive_invariant "\<lambda>s. s = se_new n" se_step "se_inv n" for n
proof
  show "se_inv n s" if "s = se_new n" for s
    using that by (simp add: se_inv_def se_new_def docs_with_def um_at_def)
  fix s t assume inv: "se_inv n s" and "se_step s t"
  from this(2) show "se_inv n t"
  proof (rule se_stepE)
    show "se_inv n t" if "se_worker i s t" for i using inv that by (rule se_inv_worker)
    show "se_inv n t" if t: "t = add_document d x s" for d x
    proof (cases "list_all (\<lambda>w. w = Exited) (se_threads s) \<and> n \<noteq> 0")
      case True
      then have "se_done s" using inv all_exited_in by (auto simp: se_inv_def)
      then show ?thesis using inv True by (auto simp: se_inv_def t add_document_def)
    qed (use inv in \<open>auto simp: se_inv_def t add_document_def\<close>)
  qed (use inv in \<open>simp add: se_inv_def se_stop_def\<close>)
qed

text \<open>
  Search engine: in every interleaving a search returns, in ascending order and without
  repetition, exactly the documents indexed so far that contain the term; no document is lost or
  indexed twice; and once all workers have returned, every document not added after \<^verbatim>\<open>stop\<close> is indexed.
\<close>

theorem search_exact:
  assumes "reach (\<lambda>s. s = se_new (Suc n)) se_step s"
  shows "serach trm s = sorted_list_of_set (docs_with trm (indexed s)) \<and>
    mset (added s) = mset (indexed s) + busy (se_threads s) + mset (document_queue s) \<and>
    (if list_all (\<lambda>w. w = Exited) (se_threads s) \<and> late s = [] then mset (indexed s) = mset (added s) else True)"
proof -
  have inv: "se_inv (Suc n) s" using assms by (rule se.always)
  have "serach trm s = sorted_list_of_set (um_at {} (inverted_index s) trm)"
    by (simp add: serach_def um_at_def split: option.split)
  then show ?thesis using inv by (auto simp: se_inv_def busy_none)
qed

theorem search_exact_witness: "serach ''a'' (add_document 1 ''a b'' (se_new (Suc 0))) = []"
proof -
  have "reach (\<lambda>s. s = se_new (Suc 0)) se_step (se_new (Suc 0))" by (rule reach_init) simp
  then have "reach (\<lambda>s. s = se_new (Suc 0)) se_step (add_document 1 ''a b'' (se_new (Suc 0)))"
    by (rule reach_step) (rule se_add)
  from search_exact [OF this, of "''a''"] show ?thesis by (simp add: add_document_def se_new_def docs_with_def)
qed

end
