(* ===== verification/Build_System.thy ===== *)
theory Build_System
  imports Worker_Pools
begin

text \<open>
  The parallel build system of \<^verbatim>\<open>BuildSystem_Make_Bazel.cpp\<close>: a dependency graph with in-degrees, and
  workers that build the targets whose dependencies are built. The steps are the critical sections
  of the workers. The properties are the order of the builds, that the build ends and reports
  success exactly for an acyclic graph, and the case in which it never ends.
\<close>

section \<open>Model\<close>

text \<open>\<open>built\<close> and \<open>started\<close> are ghosts: the targets finished and started, in that order.\<close>

record BuildSystem =
  graph :: "(string, string list) umap"
  indegree :: "(string, int) umap"
  ready_queue :: "string list"
  processed_targets :: int
  total_targets :: int
  active_workers :: int
  bs_done :: bool
  bs_threads :: "string worker list"
  started :: "string list"
  built :: "string list"

definition bs_new :: BuildSystem where
  "bs_new = \<lparr>graph = [], indegree = [], ready_queue = [], processed_targets = 0, total_targets = 0,
     active_workers = 0, bs_done = False, bs_threads = [], started = [], built = []\<rparr>"

definition add_dependency :: "string \<Rightarrow> string \<Rightarrow> BuildSystem \<Rightarrow> BuildSystem" where
  "add_dependency target dep s =
     (let s = s\<lparr>graph := um_put dep (um_at [] (graph s) dep @ [target]) (graph s)\<rparr>;
          s = s\<lparr>indegree := um_put target (um_at 0 (indegree s) target + 1) (indegree s)\<rparr>
      in if um_find (indegree s) dep = None then s\<lparr>indegree := um_put dep 0 (indegree s)\<rparr> else s)"

text \<open>\<^verbatim>\<open>build\<close> up to the creation of the threads.\<close>

definition build_start :: "nat \<Rightarrow> BuildSystem \<Rightarrow> BuildSystem" where
  "build_start numThreads s =
     s\<lparr>total_targets := int (um_size (indegree s)),
       ready_queue := ready_queue s @ map fst (filter (\<lambda>(target, degree). degree = 0) (indegree s)),
       bs_threads := replicate numThreads Idle\<rparr>"

definition release_child :: "string \<Rightarrow> BuildSystem \<Rightarrow> BuildSystem" where
  "release_child child s =
     (let d = um_at 0 (indegree s) child - 1;
          s = s\<lparr>indegree := um_put child d (indegree s)\<rparr>
      in if d = 0 then s\<lparr>ready_queue := ready_queue s @ [child]\<rparr> else s)"

definition finish_target :: "string \<Rightarrow> BuildSystem \<Rightarrow> BuildSystem" where
  "finish_target target s =
     (let s = fold release_child (um_at [] (graph s) target) (s\<lparr>graph := um_touch [] target (graph s)\<rparr>);
          s = s\<lparr>active_workers := active_workers s - 1, processed_targets := processed_targets s + 1,
                built := built s @ [target]\<rparr>
      in if processed_targets s = total_targets s \<or> ready_queue s = [] \<and> active_workers s = 0
         then s\<lparr>bs_done := True\<rparr> else s)"

inductive bs_worker :: "nat \<Rightarrow> BuildSystem \<Rightarrow> BuildSystem \<Rightarrow> bool" for i where
  bs_exit: "i < length (bs_threads s) \<Longrightarrow> bs_threads s ! i = Idle \<Longrightarrow> bs_done s \<Longrightarrow> ready_queue s = [] \<Longrightarrow>
     bs_worker i s (s\<lparr>bs_threads := (bs_threads s)[i := Exited]\<rparr>)"
| bs_take: "i < length (bs_threads s) \<Longrightarrow> bs_threads s ! i = Idle \<Longrightarrow> ready_queue s = target # q \<Longrightarrow>
     bs_worker i s (s\<lparr>ready_queue := q, active_workers := active_workers s + 1,
       bs_threads := (bs_threads s)[i := Busy target], started := started s @ [target]\<rparr>)"
| bs_finish: "i < length (bs_threads s) \<Longrightarrow> bs_threads s ! i = Busy target \<Longrightarrow>
     bs_worker i s ((finish_target target s)\<lparr>bs_threads := (bs_threads s)[i := Idle]\<rparr>)"

definition bs_step :: "BuildSystem \<Rightarrow> BuildSystem \<Rightarrow> bool" where
  "bs_step s t \<longleftrightarrow> (\<exists>i. bs_worker i s t)"

definition bs_joined :: "BuildSystem \<Rightarrow> bool" where
  "bs_joined s \<longleftrightarrow> list_all (\<lambda>w. w = Exited) (bs_threads s)"

text \<open>The message printed after the joins.\<close>

definition bs_report :: "BuildSystem \<Rightarrow> string" where
  "bs_report s = (if processed_targets s = total_targets s then ''Build Completed Successfully.'' else ''Cycle detected! Build Failed.'')"

inductive_cases bs_workerE: "bs_worker i s t"

definition declare_deps :: "(string \<times> string) list \<Rightarrow> BuildSystem" where
  "declare_deps ds = fold (\<lambda>(target, dep). add_dependency target dep) ds bs_new"

section \<open>The graph\<close>

definition targets :: "(string \<times> string) list \<Rightarrow> string set" where
  "targets ds = fst ` set ds \<union> snd ` set ds"

definition deps_on :: "(string \<times> string) list \<Rightarrow> string \<Rightarrow> string list" where
  "deps_on ds d = map fst (filter (\<lambda>(t, e). e = d) ds)"

text \<open>How many of the dependencies of \<open>t\<close> are not in \<open>B\<close>, repeated declarations counted.\<close>

definition open_deps :: "(string \<times> string) list \<Rightarrow> string set \<Rightarrow> string \<Rightarrow> nat" where
  "open_deps ds B t = length (filter (\<lambda>(u, d). u = t \<and> d \<notin> B) ds)"

lemma open_deps_insert:
  "d \<notin> B \<Longrightarrow> open_deps ds B t = open_deps ds (insert d B) t + count_list (deps_on ds d) t"
  by (induction ds) (auto simp: open_deps_def deps_on_def)

lemma open_deps_0: "open_deps ds B t = 0 \<longleftrightarrow> (\<forall>d. (t, d) \<in> set ds \<longrightarrow> d \<in> B)"
  by (auto simp: open_deps_def filter_empty_conv)

lemma deps_on_targets: "set (deps_on ds d) \<subseteq> targets ds"
  by (force simp: deps_on_def targets_def)

definition deps_ok :: "(string \<times> string) list \<Rightarrow> BuildSystem \<Rightarrow> bool" where
  "deps_ok ds s \<longleftrightarrow> um_ok (indegree s) \<and> dom (um_find (indegree s)) = targets ds \<and>
     (\<forall>d. um_at [] (graph s) d = deps_on ds d) \<and>
     (\<forall>t. um_at 0 (indegree s) t = int (open_deps ds (set (built s)) t))"

lemma declare_deps_ok:
  "deps_ok ds (declare_deps ds)" "declare_deps ds = bs_new\<lparr>graph := graph (declare_deps ds), indegree := indegree (declare_deps ds)\<rparr>"
proof (induction ds rule: rev_induct)
  case (snoc x ds)
  obtain t d where x: "x = (t, d)" by force
  let ?s = "declare_deps ds"
  have step: "declare_deps (ds @ [x]) = add_dependency t d ?s" by (simp add: declare_deps_def x)
  have b: "built ?s = []" by (subst snoc(2)) (simp add: bs_new_def)
  { case 2 show ?case unfolding step by (subst (1) snoc(2)) (simp add: add_dependency_def Let_def) }
  { case 1
    have "dom (um_find (indegree (add_dependency t d ?s))) = targets (ds @ [x])"
      using snoc(1) by (auto simp: deps_ok_def add_dependency_def Let_def cxx_map targets_def x)
    moreover have "um_ok (indegree (add_dependency t d ?s))"
      using snoc(1) by (simp add: deps_ok_def add_dependency_def Let_def cxx_inv)
    moreover have "um_at [] (graph (add_dependency t d ?s)) e = deps_on (ds @ [x]) e" for e
      using snoc(1) by (simp add: deps_ok_def add_dependency_def Let_def um_at_upd deps_on_def x)
    moreover have "um_at 0 (indegree (add_dependency t d ?s)) u = int (open_deps (ds @ [x]) {} u)" for u
    proof -
      have "um_find (indegree ?s) d = None \<Longrightarrow> um_at 0 (indegree ?s) d = 0" by (simp add: um_at_def)
      then show ?thesis using snoc(1) b
        by (auto simp: deps_ok_def add_dependency_def Let_def um_at_upd open_deps_def x cxx_map)
    qed
    moreover have "built (add_dependency t d ?s) = []" by (simp add: add_dependency_def Let_def b)
    ultimately show ?case unfolding step by (simp add: deps_ok_def) }
qed (auto simp: deps_ok_def declare_deps_def bs_new_def um_ok_def targets_def um_at_def deps_on_def open_deps_def)

section \<open>The invariant\<close>

definition released :: "string list \<Rightarrow> BuildSystem \<Rightarrow> BuildSystem \<Rightarrow> bool" where
  "released cs s u \<longleftrightarrow>
     (\<exists>new. ready_queue u = ready_queue s @ new \<and> distinct new \<and>
        set new = {t \<in> set cs. um_at 0 (indegree s) t = int (count_list cs t)}) \<and>
     (\<forall>t. um_at 0 (indegree u) t = um_at 0 (indegree s) t - int (count_list cs t)) \<and>
     dom (um_find (indegree u)) = dom (um_find (indegree s)) \<union> set cs \<and>
     (um_ok (indegree s) \<longrightarrow> um_ok (indegree u)) \<and>
     u = s\<lparr>indegree := indegree u, ready_queue := ready_queue u\<rparr>"

lemma release_children:
  "\<forall>t. int (count_list cs t) \<le> um_at 0 (indegree s) t \<Longrightarrow> released cs s (fold release_child cs s)"
proof (induction cs rule: rev_induct)
  case (snoc c cs)
  define u where "u = fold release_child cs s"
  have "int (count_list cs t) \<le> um_at 0 (indegree s) t" for t
    using snoc.prems [rule_format, of t] by (simp split: if_splits)
  then have "released cs s u" using snoc.IH unfolding u_def by blast
  then obtain new where new: "ready_queue u = ready_queue s @ new" "distinct new"
      "set new = {t \<in> set cs. um_at 0 (indegree s) t = int (count_list cs t)}"
    and IH: "\<And>t. um_at 0 (indegree u) t = um_at 0 (indegree s) t - int (count_list cs t)"
      "dom (um_find (indegree u)) = dom (um_find (indegree s)) \<union> set cs"
      "um_ok (indegree s) \<longrightarrow> um_ok (indegree u)"
      "u = s\<lparr>indegree := indegree u, ready_queue := ready_queue u\<rparr>"
    unfolding released_def by (elim conjE exE) metis
  have c: "int (count_list cs c) < um_at 0 (indegree s) c" using snoc.prems [rule_format, of c] by simp
  let ?N = "{t \<in> set (cs @ [c]). um_at 0 (indegree s) t = int (count_list (cs @ [c]) t)}"
  have old: "set new = ?N - {c}" unfolding new(3) using c by auto
  have "\<exists>new'. ready_queue (release_child c u) = ready_queue s @ new' \<and> distinct new' \<and> set new' = ?N"
  proof (cases "um_at 0 (indegree s) c = int (count_list (cs @ [c]) c)")
    case True
    then have "ready_queue (release_child c u) = ready_queue s @ new @ [c]"
      by (simp add: release_child_def Let_def IH(1) new(1))
    moreover have "c \<in> ?N" using True by simp
    then have "set (new @ [c]) = ?N" unfolding set_append old by auto
    moreover have "c \<notin> set new" using new(3) c by auto
    ultimately show ?thesis using new(2) by (intro exI [of _ "new @ [c]"]) simp
  next
    case False
    then have "ready_queue (release_child c u) = ready_queue s @ new"
      by (simp add: release_child_def Let_def IH(1) new(1))
    moreover have "c \<notin> ?N" using False by simp
    then have "set new = ?N" unfolding old by blast
    ultimately show ?thesis using new(2) by blast
  qed
  moreover have "um_at 0 (indegree (release_child c u)) t = um_at 0 (indegree s) t - int (count_list (cs @ [c]) t)" for t
    using IH(1) by (simp add: release_child_def Let_def um_at_upd)
  moreover have "dom (um_find (indegree (release_child c u))) = dom (um_find (indegree s)) \<union> set (cs @ [c])"
    using IH(2) by (auto simp: release_child_def Let_def cxx_map)
  moreover have "um_ok (indegree s) \<longrightarrow> um_ok (indegree (release_child c u))"
    using IH(3) by (simp add: release_child_def Let_def cxx_inv)
  moreover have "release_child c u = s\<lparr>indegree := indegree (release_child c u), ready_queue := ready_queue (release_child c u)\<rparr>"
    by (subst (1) IH(4)) (simp add: release_child_def Let_def)
  moreover have "fold release_child (cs @ [c]) s = release_child c u" by (simp add: u_def)
  ultimately show ?case unfolding released_def by metis
qed (simp add: released_def)

definition bs_inv :: "(string \<times> string) list \<Rightarrow> nat \<Rightarrow> BuildSystem \<Rightarrow> bool" where
  "bs_inv ds n s \<longleftrightarrow> deps_ok ds s \<and> length (bs_threads s) = n \<and> distinct (started s @ ready_queue s) \<and>
     set (started s @ ready_queue s) = {t \<in> targets ds. open_deps ds (set (built s)) t = 0} \<and>
     mset (started s) = mset (built s) + busy (bs_threads s) \<and>
     processed_targets s = int (length (built s)) \<and> total_targets s = int (card (targets ds)) \<and>
     active_workers s = int (size (busy (bs_threads s))) \<and>
     (bs_done s \<longrightarrow> ready_queue s = [] \<and> busy (bs_threads s) = {#}) \<and>
     (\<not> bs_done s \<longrightarrow> ready_queue s \<noteq> [] \<or> busy (bs_threads s) \<noteq> {#}) \<and>
     (Exited \<in> set (bs_threads s) \<longrightarrow> bs_done s)"

lemma finite_targets: "finite (targets ds)"
  by (simp add: targets_def)

lemma bs_all_built:
  assumes "mset st = mset b + B" "distinct (st @ q)" "set (st @ q) \<subseteq> targets ds" "length b = card (targets ds)"
  shows "q = [] \<and> B = {#}"
proof -
  have "length (st @ q) \<le> card (targets ds)"
    using assms(2,3) by (metis card_mono distinct_card finite_targets)
  moreover have "length st = length b + size B" using assms(1) by (metis size_mset size_union)
  ultimately show ?thesis using assms(4) by simp
qed

lemma bs_inv_finish:
  assumes inv: "bs_inv ds n s" and i: "i < length (bs_threads s)" "bs_threads s ! i = Busy target"
  shows "bs_inv ds n ((finish_target target s)\<lparr>bs_threads := (bs_threads s)[i := Idle]\<rparr>)"
proof -
  let ?B = "busy ((bs_threads s)[i := Idle])" and ?C = "deps_on ds target" and ?b = "set (built s)"
  have B: "busy (bs_threads s) = add_mset target ?B" using busy_finish [OF i] .
  have m: "mset (started s) = mset (built s @ [target]) + ?B" using inv by (simp add: bs_inv_def B)
  have d: "distinct (started s @ ready_queue s)" using inv by (simp add: bs_inv_def)
  have nb: "target \<notin> ?b"
  proof
    assume "target \<in> ?b"
    then have "2 \<le> count (mset (started s)) target" unfolding m by (simp add: Suc_le_eq)
    moreover have "count (mset (started s)) target \<le> 1" using d by (simp add: distinct_count_atmost_1 [of "started s"])
    ultimately show False by simp
  qed
  have dep: "deps_ok ds s" using inv by (simp add: bs_inv_def)
  have op: "open_deps ds ?b t = open_deps ds (set (built s @ [target])) t + count_list ?C t" for t
    using open_deps_insert [OF nb, of ds t] by simp
  define s0 where "s0 = s\<lparr>graph := um_touch [] target (graph s)\<rparr>"
  define u where "u = fold release_child ?C s0"
  have le: "\<forall>t. int (count_list ?C t) \<le> um_at 0 (indegree s0) t"
    using dep op by (simp add: deps_ok_def s0_def)
  note rel = release_children [OF le, folded u_def, unfolded released_def]
  obtain new where new: "ready_queue u = ready_queue s @ new" "distinct new"
    "set new = {t \<in> set ?C. um_at 0 (indegree s) t = int (count_list ?C t)}"
    using rel by (auto simp: s0_def)
  have news: "set new = {t \<in> targets ds. open_deps ds (set (built s @ [target])) t = 0 \<and> open_deps ds ?b t \<noteq> 0}"
    unfolding new(3) using dep op deps_on_targets [of ds target] count_list_0_iff [of ?C] by (auto simp: deps_ok_def)
  have uf: "u = s0\<lparr>indegree := indegree u, ready_queue := ready_queue u\<rparr>" using rel by blast
  define v where "v = u\<lparr>active_workers := active_workers u - 1, processed_targets := processed_targets u + 1, built := built u @ [target]\<rparr>"
  have fields: "started v = started s" "total_targets v = total_targets s" "built v = built s @ [target]" "bs_done v = bs_done s"
    "processed_targets v = processed_targets s + 1" "active_workers v = active_workers s - 1" "graph v = graph s0" "indegree v = indegree u"
    "ready_queue v = ready_queue s @ new"
    by (simp_all add: v_def new(1)) (subst uf, simp add: s0_def)+
  have old: "set (started s @ ready_queue s) = {t \<in> targets ds. open_deps ds ?b t = 0}" using inv by (simp add: bs_inv_def)
  have all: "set (started s @ ready_queue s @ new) = {t \<in> targets ds. open_deps ds (set (built s @ [target])) t = 0}"
    using old news op by auto
  have "set (started s @ ready_queue s) \<inter> set new = {}" unfolding old news by auto
  then have dist: "distinct (started s @ ready_queue s @ new)" using d new(2) by auto
  have dv: "deps_ok ds v"
    using dep rel op deps_on_targets [of ds target] unfolding deps_ok_def fields
    by (auto simp: s0_def um_at_upd)
  have nd: "\<not> bs_done s" using inv B by (auto simp: bs_inv_def)
  have full: "ready_queue v = [] \<and> ?B = {#}" if "processed_targets v = total_targets v"
  proof -
    have "length (built s @ [target]) = card (targets ds)" using that inv by (simp add: fields bs_inv_def)
    then show ?thesis unfolding fields by (intro bs_all_built [OF m]) (use dist all in auto)
  qed
  have fin: "finish_target target s = (if processed_targets v = total_targets v \<or> ready_queue v = [] \<and> active_workers v = 0
      then v\<lparr>bs_done := True\<rparr> else v)"
    using dep by (simp add: finish_target_def Let_def deps_ok_def s0_def u_def v_def)
  have act: "active_workers v = int (size ?B)" using inv B by (simp add: fields bs_inv_def)
  show ?thesis
    using inv full nd all dist m dv act Exited_update [OF i(1), of Idle]
    unfolding bs_inv_def fin by (auto simp: fields deps_ok_def)
qed

lemma bs_inv_step: "bs_inv ds n s \<Longrightarrow> bs_step s t \<Longrightarrow> bs_inv ds n t"
  unfolding bs_step_def
proof (elim exE bs_workerE)
  fix i target q assume inv: "bs_inv ds n s" and i: "i < length (bs_threads s)" "bs_threads s ! i = Idle"
    and q: "ready_queue s = target # q"
    and t: "t = s\<lparr>ready_queue := q, active_workers := active_workers s + 1,
       bs_threads := (bs_threads s)[i := Busy target], started := started s @ [target]\<rparr>"
  show "bs_inv ds n t"
    using inv i q Exited_update [OF i(1), of "Busy target"] by (auto simp: bs_inv_def t deps_ok_def)
qed (auto intro: bs_inv_finish, auto simp: bs_inv_def deps_ok_def)

lemma bs_ready_start:
  "set (ready_queue (build_start n (declare_deps ds))) = {t \<in> targets ds. open_deps ds {} t = 0}"
proof -
  let ?s = "declare_deps ds"
  note ok = declare_deps_ok(1) [of ds, unfolded deps_ok_def]
  have f: "ready_queue ?s = []" "built ?s = []" by (subst declare_deps_ok(2), simp add: bs_new_def)+
  have dm: "dom (um_find (indegree ?s)) = targets ds" using ok by blast
  have um: "(t, c) \<in> set (indegree ?s) \<longleftrightarrow> um_find (indegree ?s) t = Some c" for t c
    using ok by (simp add: um_ok_def)
  have "t \<in> set (map fst (filter (\<lambda>(target, degree). degree = 0) (indegree ?s))) \<longleftrightarrow>
        t \<in> targets ds \<and> open_deps ds {} t = 0" for t
  proof -
    have "t \<in> set (map fst (filter (\<lambda>(target, degree). degree = 0) (indegree ?s))) \<longleftrightarrow> um_find (indegree ?s) t = Some 0"
      by (force simp: um [symmetric])
    also have "\<dots> \<longleftrightarrow> t \<in> targets ds \<and> um_at 0 (indegree ?s) t = 0"
      unfolding dm [symmetric] by (auto simp: um_at_def split: option.splits)
    finally show ?thesis using ok f by simp
  qed
  then show ?thesis by (auto simp: build_start_def f)
qed

lemma bs_inv_start:
  assumes "ready_queue (build_start n (declare_deps ds)) \<noteq> []"
  shows "bs_inv ds n (build_start n (declare_deps ds))"
proof -
  let ?s = "declare_deps ds"
  note ok = declare_deps_ok(1) [of ds, unfolded deps_ok_def]
  have f: "ready_queue ?s = []" "started ?s = []" "built ?s = []" "processed_targets ?s = 0" "active_workers ?s = 0" "\<not> bs_done ?s"
    by (subst declare_deps_ok(2), simp add: bs_new_def)+
  have "distinct (map fst (filter (\<lambda>(target, degree). degree = 0) (indegree ?s)))"
    using ok by (simp add: um_ok_def distinct_map_filter)
  moreover have "um_size (indegree ?s) = card (targets ds)" using ok um_size_eq_card [of "indegree ?s"] by simp
  moreover have "deps_ok ds (build_start n ?s)"
    using declare_deps_ok(1) [of ds] by (simp add: deps_ok_def build_start_def)
  ultimately show ?thesis
    using assms f bs_ready_start [of n ds] by (auto simp: bs_inv_def build_start_def)
qed

section \<open>Order, termination and outcome\<close>

definition bs_work_left :: "(string \<times> string) list \<Rightarrow> BuildSystem \<Rightarrow> nat" where
  "bs_work_left ds s = workers_size (bs_threads s) + 3 * (card (targets ds) - length (started s))"

lemma bs_started_ready_bound: "bs_inv ds n s \<Longrightarrow> length (started s @ ready_queue s) \<le> card (targets ds)"
proof -
  assume "bs_inv ds n s"
  then have "distinct (started s @ ready_queue s)" "set (started s @ ready_queue s) \<subseteq> targets ds"
    by (auto simp: bs_inv_def)
  then show ?thesis by (metis card_mono distinct_card finite_targets)
qed

lemma finish_started [simp]: "started (finish_target target s) = started s"
proof -
  have "started (fold release_child cs s) = started s" for cs s
    by (induction cs arbitrary: s) (simp_all add: release_child_def Let_def)
  then show ?thesis by (simp add: finish_target_def Let_def)
qed

lemma bs_work_step:
  assumes inv: "bs_inv ds n s" and "bs_step s t"
  shows "bs_work_left ds t < bs_work_left ds s"
proof -
  obtain i where "bs_worker i s t" using assms(2) by (auto simp: bs_step_def)
  then show ?thesis
  proof (rule bs_workerE)
    fix target q assume i: "i < length (bs_threads s)" "bs_threads s ! i = Idle" and q: "ready_queue s = target # q"
      and t: "t = s\<lparr>ready_queue := q, active_workers := active_workers s + 1,
         bs_threads := (bs_threads s)[i := Busy target], started := started s @ [target]\<rparr>"
    show ?thesis using workers_size_update [OF i(1), of "Busy target"] i(2) bs_started_ready_bound [OF inv] q
      by (simp add: bs_work_left_def t)
  qed (use workers_size_update [of i "bs_threads s" Idle] workers_size_update [of i "bs_threads s" Exited]
    in \<open>auto simp: bs_work_left_def\<close>)
qed

interpretation bs_drain: draining "bs_inv ds n" bs_step "bs_inv ds n" "bs_work_left ds" bs_joined for ds n
proof
  fix s assume inv: "bs_inv ds n s" and "\<not> bs_joined s"
  then obtain i where i: "i < length (bs_threads s)" "bs_threads s ! i \<noteq> Exited"
    by (auto simp: bs_joined_def list_all_length)
  show "\<exists>t. bs_step s t"
  proof (cases "bs_threads s ! i")
    case Idle
    show ?thesis
    proof (cases "ready_queue s")
      case Nil
      show ?thesis
      proof (cases "bs_done s")
        case True
        then show ?thesis using Nil Idle i by (auto simp: bs_step_def intro: bs_exit)
      next
        case False
        then have "busy (bs_threads s) \<noteq> {#}" using inv Nil by (simp add: bs_inv_def)
        then obtain x where "Busy x \<in> set (bs_threads s)" by (auto simp flip: in_busy)
        then obtain j where "j < length (bs_threads s)" "bs_threads s ! j = Busy x" by (meson in_set_conv_nth)
        then show ?thesis unfolding bs_step_def by (blast intro: bs_finish)
      qed
    qed (use Idle i in \<open>auto simp: bs_step_def intro: bs_take\<close>)
  next
    case (Busy x)
    then show ?thesis using i unfolding bs_step_def by (blast intro: bs_finish)
  qed (use i in simp)
qed (simp_all add: bs_inv_step bs_work_step)

text \<open>The dependencies of a target precede it in the list of the targets built.\<close>

definition bs_ordered :: "(string \<times> string) list \<Rightarrow> BuildSystem \<Rightarrow> bool" where
  "bs_ordered ds s \<longleftrightarrow> (\<forall>k < length (built s). \<forall>d. (built s ! k, d) \<in> set ds \<longrightarrow> d \<in> set (take k (built s)))"

lemma bs_started_deps:
  assumes "bs_inv ds n s" "t \<in> set (started s)" "(t, d) \<in> set ds"
  shows "d \<in> set (built s)"
proof -
  have "open_deps ds (set (built s)) t = 0" using assms(1,2) by (auto simp: bs_inv_def)
  then show ?thesis using assms(3) by (simp add: open_deps_0)
qed

lemma finish_built: "built (finish_target target s) = built s @ [target]"
proof -
  have "built (fold release_child cs s) = built s" for cs s
    by (induction cs arbitrary: s) (simp_all add: release_child_def Let_def)
  then show ?thesis by (simp add: finish_target_def Let_def)
qed

lemma bs_ordered_step:
  assumes inv: "bs_inv ds n s" and o: "bs_ordered ds s" and "bs_step s t"
  shows "bs_ordered ds t"
proof -
  obtain i where "bs_worker i s t" using assms(3) by (auto simp: bs_step_def)
  then show ?thesis
  proof (rule bs_workerE)
    fix target assume i: "i < length (bs_threads s)" "bs_threads s ! i = Busy target"
      and t: "t = (finish_target target s)\<lparr>bs_threads := (bs_threads s)[i := Idle]\<rparr>"
    have "target \<in># mset (started s)" using inv busy_finish [OF i] by (auto simp: bs_inv_def)
    then have "(target, d) \<in> set ds \<Longrightarrow> d \<in> set (built s)" for d using bs_started_deps [OF inv] by simp
    then show ?thesis using o unfolding bs_ordered_def t
      by (auto simp: finish_built nth_append less_Suc_eq)
  qed (use o in \<open>auto simp: bs_ordered_def\<close>)
qed

lemma bs_ordered_acyclic:
  assumes "bs_ordered ds s" "set (built s) = targets ds"
  shows "acyclic (set ds)"
proof (rule acyclicI_order)
  fix t d assume e: "(t, d) \<in> set ds"
  let ?P = "\<lambda>x k. k < length (built s) \<and> built s ! k = x" and ?f = "\<lambda>x. LEAST k. k < length (built s) \<and> built s ! k = x"
  have "t \<in> targets ds" using e by (force simp: targets_def)
  then obtain k where "?P t k" using assms(2) by (metis in_set_conv_nth)
  then have k: "?P t (?f t)" by (rule LeastI)
  then have "d \<in> set (take (?f t) (built s))"
    using assms(1) [unfolded bs_ordered_def, rule_format, of "?f t" d] e by simp
  then obtain j where j: "j < ?f t" "?P d j" using k by (auto simp: in_set_conv_nth)
  then have "?f d \<le> j" by (intro Least_le)
  then show "?f d < ?f t" using j(1) by simp
qed

text \<open>
  C1. Parallel build, with at least one worker and one target without dependencies: in every
  interleaving a target is started only after all its dependencies are built, and at most once; the
  workers take a bounded number of steps and can always go on until all have returned; and then the
  build reports success exactly when the dependencies are acyclic, in which case every target is built.
\<close>

theorem build_correct:
  assumes "0 < n" "t0 \<in> targets ds" "open_deps ds {} t0 = 0"
    "bs_step\<^sup>*\<^sup>* (build_start n (declare_deps ds)) s"
  shows "distinct (started s) \<and> (\<forall>(t, d) \<in> set ds. t \<in> set (started s) \<longrightarrow> d \<in> set (built s)) \<and>
    (\<exists>t. bs_step\<^sup>*\<^sup>* s t \<and> bs_joined t) \<and>
    ((bs_step ^^ k) s t \<longrightarrow> k \<le> bs_work_left ds s) \<and>
    (bs_joined s \<longrightarrow>
       (bs_report s = ''Build Completed Successfully.'') = acyclic (set ds) \<and>
       (acyclic (set ds) \<longrightarrow> set (built s) = targets ds))"
proof -
  have ne: "ready_queue (build_start n (declare_deps ds)) \<noteq> []"
    using bs_ready_start [of n ds] assms(2,3) by force
  have "bs_inv ds n s \<and> bs_ordered ds s" using assms(4)
  proof (induction rule: rtranclp_induct)
    case base
    have "built (build_start n (declare_deps ds)) = []"
      by (subst declare_deps_ok(2)) (simp add: bs_new_def build_start_def)
    then show ?case using bs_inv_start [OF ne] by (simp add: bs_ordered_def)
  next
    case (step y z)
    then show ?case using bs_inv_step bs_ordered_step by blast
  qed
  then have inv: "bs_inv ds n s" and ord: "bs_ordered ds s" by simp_all
  have final: "(bs_report s = ''Build Completed Successfully.'') = acyclic (set ds) \<and>
       (acyclic (set ds) \<longrightarrow> set (built s) = targets ds)" if j: "bs_joined s"
  proof -
    have "Exited \<in> set (bs_threads s)"
      using j inv assms(1) by (intro all_exited_in) (simp_all add: bs_joined_def bs_inv_def)
    then have e: "ready_queue s = []" "mset (started s) = mset (built s)" using inv by (auto simp: bs_inv_def)
    then have sb: "set (started s) = set (built s)" "distinct (built s)"
      using inv mset_eq_setD [OF e(2)] mset_eq_imp_distinct_iff [OF e(2)] by (auto simp: bs_inv_def)
    then have b: "set (built s) = {t \<in> targets ds. open_deps ds (set (built s)) t = 0}"
      using inv e(1) by (simp add: bs_inv_def)
    have all: "set (built s) = targets ds" if "acyclic (set ds)"
    proof (rule ccontr)
      assume "set (built s) \<noteq> targets ds"
      then obtain x where "x \<in> targets ds - set (built s)" using b by blast
      moreover have "wf ((set ds)\<inverse>)" using that by (simp add: finite_acyclic_wf_converse)
      ultimately obtain z where z: "z \<in> targets ds - set (built s)"
        "\<And>y. (y, z) \<in> (set ds)\<inverse> \<Longrightarrow> y \<notin> targets ds - set (built s)" by (metis wfE_min)
      have "d \<in> set (built s)" if "(z, d) \<in> set ds" for d
        using z(2) [of d] that by (force simp: targets_def)
      then have "open_deps ds (set (built s)) z = 0" by (simp add: open_deps_0)
      then show False using z(1) b by blast
    qed
    have "bs_report s = ''Build Completed Successfully.'' \<longleftrightarrow> length (built s) = card (targets ds)"
      using inv by (simp add: bs_report_def bs_inv_def)
    also have "\<dots> \<longleftrightarrow> set (built s) = targets ds"
      using sb(2) b finite_targets [of ds] by (metis (no_types, lifting) card_subset_eq distinct_card mem_Collect_eq subsetI)
    finally show ?thesis using all bs_ordered_acyclic [OF ord] by blast
  qed
  have "distinct (started s)" using inv by (simp add: bs_inv_def)
  moreover have "\<forall>(t, d) \<in> set ds. t \<in> set (started s) \<longrightarrow> d \<in> set (built s)" using bs_started_deps [OF inv] by blast
  moreover have "\<exists>t. bs_step\<^sup>*\<^sup>* s t \<and> bs_joined t" using inv by (rule bs_drain.comes_to_rest)
  moreover have "(bs_step ^^ k) s t \<longrightarrow> k \<le> bs_work_left ds s" using bs_drain.run_bounded [OF _ inv] by fastforce
  ultimately show ?thesis using final by blast
qed

theorem build_correct_witness:
  "\<exists>t. bs_step\<^sup>*\<^sup>* (build_start 3 (declare_deps [(''parser'', ''lexer''), (''main'', ''parser'')])) t \<and> bs_joined t"
  using build_correct [of 3 "''lexer''" "[(''parser'', ''lexer''), (''main'', ''parser'')]"]
  by (simp add: targets_def open_deps_def)

text \<open>
  C14. When every target has a dependency, as in a cycle of two targets or when nothing was added,
  the ready queue starts empty, no worker ever sets \<^verbatim>\<open>done\<close>, and the build waits forever: the cycle is not
  reported.
\<close>

theorem build_hangs:
  assumes "\<forall>t \<in> targets ds. \<exists>d. (t, d) \<in> set ds" "0 < n"
  shows "\<not> bs_step (build_start n (declare_deps ds)) t \<and> \<not> bs_joined (build_start n (declare_deps ds))"
proof -
  let ?s = "build_start n (declare_deps ds)"
  have "set (ready_queue ?s) = {}" unfolding bs_ready_start using assms(1) by (auto simp: open_deps_0)
  moreover have "\<not> bs_done ?s" by (subst declare_deps_ok(2)) (simp add: bs_new_def build_start_def)
  moreover have "bs_threads ?s = replicate n Idle" by (simp add: build_start_def)
  ultimately show ?thesis
    using assms(2) by (auto simp: bs_step_def bs_joined_def list_all_length elim!: bs_workerE)
qed

theorem build_hangs_witness:
  "\<nexists>t. bs_step (build_start 3 (declare_deps [(''a'', ''b''), (''b'', ''a'')])) t"
  using build_hangs [of "[(''a'', ''b''), (''b'', ''a'')]" 3] by (simp add: targets_def)

end
