(* ===== verification/Mutex_Programs.thy ===== *)
theory Mutex_Programs
  imports Worker_Pools "HOL-Library.Word"
begin

text \<open>
  Small programs about mutual exclusion: \<^verbatim>\<open>Deadlock_create_fix.cpp\<close> and \<^verbatim>\<open>DiningPhilosophers.cpp\<close> as threads
  that acquire and release mutexes, the counters of \<^verbatim>\<open>AtomicCounter_with_CAS.cpp\<close>,
  \<^verbatim>\<open>AtomicCounter_without_CAS.cpp\<close> and \<^verbatim>\<open>AtomicCounter_usingCAS.cpp\<close>, and the sequencer of
  \<^verbatim>\<open>StrictSequencer_ThreadSafe.cpp\<close>.
\<close>

section \<open>Threads and mutexes\<close>

text \<open>
  What a thread does, as far as mutexes go. A \<^verbatim>\<open>lock_guard\<close> acquires one mutex; \<^verbatim>\<open>std::lock\<close> acquires
  several and keeps none of them while it waits, so that it is one step taken when all are free. The
  destructors release one mutex each.
\<close>

datatype instr = Acquire "nat list" | Release nat

record lock_state =
  held :: "nat list list"
  progs :: "instr list list"

definition all_free :: "nat list \<Rightarrow> lock_state \<Rightarrow> bool" where
  "all_free ms s \<longleftrightarrow> set ms \<inter> set (concat (held s)) = {}"

inductive lock_step :: "lock_state \<Rightarrow> lock_state \<Rightarrow> bool" where
  ls_acquire: "i < length (progs s) \<Longrightarrow> progs s ! i = Acquire ms # p \<Longrightarrow> all_free ms s \<Longrightarrow>
     lock_step s \<lparr>held = (held s)[i := ms @ held s ! i], progs = (progs s)[i := p]\<rparr>"
| ls_release: "i < length (progs s) \<Longrightarrow> progs s ! i = Release m # p \<Longrightarrow>
     lock_step s \<lparr>held = (held s)[i := remove1 m (held s ! i)], progs = (progs s)[i := p]\<rparr>"

inductive_cases lock_stepE: "lock_step s t"

definition lock_start :: "instr list list \<Rightarrow> lock_state" where
  "lock_start ps = \<lparr>held = replicate (length ps) [], progs = ps\<rparr>"

definition lock_finished :: "lock_state \<Rightarrow> bool" where
  "lock_finished s \<longleftrightarrow> list_all (\<lambda>p. p = []) (progs s)"

definition lock_deadlock :: "lock_state \<Rightarrow> bool" where
  "lock_deadlock s \<longleftrightarrow> \<not> lock_finished s \<and> (\<nexists>t. lock_step s t)"

subsection \<open>Programs that acquire everything at once\<close>

text \<open>
  A thread acquires mutexes only while it holds none, with one exception: the leaf mutex \<open>q\<close> may be taken
  on top of others, and then releasing it is the very next thing the thread does.
\<close>

definition releases_next :: "nat \<Rightarrow> instr list \<Rightarrow> bool" where
  "releases_next q p \<longleftrightarrow> p \<noteq> [] \<and> hd p = Release q"

fun all_at_once :: "nat \<Rightarrow> nat list \<Rightarrow> instr list \<Rightarrow> bool" where
  "all_at_once q h [] = (h = [])"
| "all_at_once q h (Acquire ms # p) =
     (if ms = [q] then q \<notin> set h \<and> releases_next q p \<and> all_at_once q (q # h) p
      else h = [] \<and> distinct ms \<and> q \<notin> set ms \<and> all_at_once q ms p)"
| "all_at_once q h (Release m # p) = (m \<in> set h \<and> all_at_once q (remove1 m h) p)"

definition thread_ok :: "nat \<Rightarrow> nat list \<Rightarrow> instr list \<Rightarrow> bool" where
  "thread_ok q h p \<longleftrightarrow> all_at_once q h p \<and> (q \<in> set h \<longrightarrow> releases_next q p)"

definition lock_inv :: "nat \<Rightarrow> lock_state \<Rightarrow> bool" where
  "lock_inv q s \<longleftrightarrow> length (held s) = length (progs s) \<and> distinct (concat (held s)) \<and>
     (\<forall>i < length (progs s). thread_ok q (held s ! i) (progs s ! i))"

definition lock_work :: "lock_state \<Rightarrow> nat" where
  "lock_work s = length (concat (progs s))"

lemma concat_update:
  "i < length xs \<Longrightarrow> mset (concat (xs[i := y])) + mset (xs ! i) = mset (concat xs) + mset y"
proof -
  assume i: "i < length xs"
  have "concat xs = concat (take i xs) @ xs ! i @ concat (drop (Suc i) xs)"
    using id_take_nth_drop [OF i] by (metis concat.simps(2) concat_append)
  then show ?thesis using i by (simp add: upd_conv_take_nth_drop)
qed

lemma distinct_mset_eq: "mset xs = mset ys \<Longrightarrow> distinct xs \<longleftrightarrow> distinct ys"
  by (rule mset_eq_imp_distinct_iff)

lemma concat_empty: "(\<And>i. i < length xs \<Longrightarrow> xs ! i = []) \<Longrightarrow> concat xs = []"
  by (auto simp: in_set_conv_nth)

lemma lock_invD:
  "lock_inv q s \<Longrightarrow> i < length (progs s) \<Longrightarrow> i < length (held s) \<and> thread_ok q (held s ! i) (progs s ! i)"
  by (simp add: lock_inv_def)

lemma lock_inv_distinct: "lock_inv q s \<Longrightarrow> distinct (concat (held s))"
  by (simp add: lock_inv_def)

lemma thread_ok_acquire:
  "thread_ok q h (Acquire ms # p) \<Longrightarrow> distinct ms \<and> thread_ok q (ms @ h) p \<and> (ms = [q] \<or> h = [])"
  by (auto simp: thread_ok_def releases_next_def split: if_splits)

lemma thread_ok_release:
  "thread_ok q h (Release m # p) \<Longrightarrow> distinct h \<Longrightarrow> m \<in> set h \<and> thread_ok q (remove1 m h) p"
  by (auto simp: thread_ok_def releases_next_def)

lemma lock_inv_update:
  "lock_inv q s \<Longrightarrow> distinct (concat ((held s)[i := h])) \<Longrightarrow> thread_ok q h p \<Longrightarrow>
     lock_inv q \<lparr>held = (held s)[i := h], progs = (progs s)[i := p]\<rparr>"
  by (cases "i < length (progs s)") (simp_all add: lock_inv_def nth_list_update)

lemma lock_inv_step:
  assumes inv: "lock_inv q s" and "lock_step s t"
  shows "lock_inv q t"
  using assms(2)
proof (rule lock_stepE)
  fix i ms p assume i: "i < length (progs s)" "progs s ! i = Acquire ms # p" and "all_free ms s"
    and t: "t = \<lparr>held = (held s)[i := ms @ held s ! i], progs = (progs s)[i := p]\<rparr>"
  then have free: "set ms \<inter> set (concat (held s)) = {}" by (simp add: all_free_def)
  have h: "i < length (held s)" "distinct ms" "thread_ok q (ms @ held s ! i) p"
    using lock_invD [OF inv i(1)] i thread_ok_acquire [of q "held s ! i" ms p] by simp_all
  then have "mset (concat ((held s)[i := ms @ held s ! i])) = mset (ms @ concat (held s))"
    using concat_update [of i "held s" "ms @ held s ! i"] by simp
  from distinct_mset_eq [OF this] have "distinct (concat ((held s)[i := ms @ held s ! i]))"
    using free h(2) lock_inv_distinct [OF inv] unfolding distinct_append by blast
  then show "lock_inv q t" unfolding t using inv h(3) by (intro lock_inv_update)
next
  fix i m p assume i: "i < length (progs s)" "progs s ! i = Release m # p"
    and t: "t = \<lparr>held = (held s)[i := remove1 m (held s ! i)], progs = (progs s)[i := p]\<rparr>"
  have "distinct (held s ! i)"
    using lock_inv_distinct [OF inv] lock_invD [OF inv i(1)] by (simp add: distinct_concat_iff)
  then have h: "i < length (held s)" "m \<in> set (held s ! i)" "thread_ok q (remove1 m (held s ! i)) p"
    using lock_invD [OF inv i(1)] i thread_ok_release [of q "held s ! i" m p] by simp_all
  then have hm: "mset (held s ! i) = add_mset m (mset (remove1 m (held s ! i)))" by simp
  have "mset (m # concat ((held s)[i := remove1 m (held s ! i)])) = mset (concat (held s))"
    using concat_update [OF h(1), of "remove1 m (held s ! i)"] unfolding hm by (simp del: mset_remove1)
  from distinct_mset_eq [OF this] have "distinct (m # concat ((held s)[i := remove1 m (held s ! i)]))"
    using lock_inv_distinct [OF inv] by blast
  then show "lock_inv q t" unfolding t using inv h(3) by (intro lock_inv_update) simp_all
qed

text \<open>
  When no thread is about to release, the leaf is free; so a thread that wants the leaf can go on, and
  if there is none then nobody holds anything.
\<close>

definition at_release :: "lock_state \<Rightarrow> nat \<Rightarrow> bool" where
  "at_release s j \<longleftrightarrow> (\<exists>m p. progs s ! j = Release m # p)"

lemma not_at_release:
  assumes "lock_inv q s" "j < length (progs s)" "\<not> at_release s j"
  shows "q \<notin> set (held s ! j) \<and> (held s ! j = [] \<or> (\<exists>p. progs s ! j = Acquire [q] # p))"
proof (cases "progs s ! j")
  case Nil
  then show ?thesis using lock_invD [OF assms(1,2)] by (simp add: thread_ok_def)
next
  case (Cons a p)
  then obtain ms where "a = Acquire ms" using assms(3) by (cases a) (auto simp: at_release_def)
  then show ?thesis
    using lock_invD [OF assms(1,2)] Cons thread_ok_acquire [of q "held s ! j" ms p]
    by (auto simp: thread_ok_def releases_next_def)
qed

lemma all_free_nth: "(\<And>j. j < length (held s) \<Longrightarrow> set ms \<inter> set (held s ! j) = {}) \<Longrightarrow> all_free ms s"
  by (fastforce simp: all_free_def in_set_conv_nth)

lemma lock_progress:
  assumes inv: "lock_inv q s" and "\<not> lock_finished s"
  shows "\<exists>t. lock_step s t"
proof (cases "\<exists>j < length (progs s). at_release s j")
  case True
  then show ?thesis by (auto simp: at_release_def intro: ls_release)
next
  case False
  have len: "length (held s) = length (progs s)" using inv by (simp add: lock_inv_def)
  note nr = not_at_release [OF inv]
  show ?thesis
  proof (cases "\<exists>j < length (progs s). \<exists>p. progs s ! j = Acquire [q] # p")
    case True
    have "all_free [q] s" by (rule all_free_nth) (use nr False len in auto)
    then show ?thesis using True ls_acquire by blast
  next
    case no_leaf: False
    obtain i where i: "i < length (progs s)" "progs s ! i \<noteq> []"
      using assms(2) by (auto simp: lock_finished_def list_all_length)
    then obtain ms p where "progs s ! i = Acquire ms # p"
      using False by (cases "progs s ! i", simp) (metis instr.exhaust at_release_def)
    moreover have "all_free ms s" by (rule all_free_nth) (use nr False no_leaf len in fastforce)
    ultimately show ?thesis using ls_acquire [OF i(1)] by blast
  qed
qed

lemma lock_step_work:
  assumes "lock_step s t"
  shows "lock_work t < lock_work s"
proof -
  have "mset (concat ((progs s)[i := p])) + {#x#} = mset (concat (progs s))"
    if "i < length (progs s)" "progs s ! i = x # p" for i x p
    using concat_update [of i "progs s" p] that by simp
  then have "length (concat ((progs s)[i := p])) < length (concat (progs s))"
    if "i < length (progs s)" "progs s ! i = x # p" for i x p
    using that by (metis less_add_one size_mset size_single size_union)
  then show ?thesis using assms by (auto elim!: lock_stepE simp: lock_work_def)
qed

interpretation locking: draining "lock_inv q" lock_step "lock_inv q" lock_work lock_finished for q
  by unfold_locales (use lock_inv_step lock_progress lock_step_work in auto)

lemma lock_inv_start: "list_all (all_at_once q []) ps \<Longrightarrow> lock_inv q (lock_start ps)"
  by (auto simp: lock_inv_def lock_start_def list_all_length thread_ok_def)

section \<open>Creating and fixing a deadlock\<close>

definition deadlockThread_1 :: "instr list" where
  "deadlockThread_1 = [Acquire [1], Acquire [2], Release 2, Release 1]"

definition deadlockThread_2 :: "instr list" where
  "deadlockThread_2 = [Acquire [2], Acquire [1], Release 1, Release 2]"

definition safeThread_1 :: "instr list" where
  "safeThread_1 = [Acquire [1, 2], Release 2, Release 1]"

definition safeThread_2 :: "instr list" where
  "safeThread_2 = [Acquire [2, 1], Release 1, Release 2]"

text \<open>
  The two threads that lock in opposite orders can reach a state in which both wait forever; the
  two that use \<^verbatim>\<open>std::lock\<close> never can, and from every reachable state both still finish.
\<close>

theorem deadlock_and_fix:
  "(\<exists>s. lock_step\<^sup>*\<^sup>* (lock_start [deadlockThread_1, deadlockThread_2]) s \<and> lock_deadlock s) \<and>
   (if lock_step\<^sup>*\<^sup>* (lock_start [safeThread_1, safeThread_2]) s
    then \<not> lock_deadlock s \<and> (\<exists>t. lock_step\<^sup>*\<^sup>* s t \<and> lock_finished t) else True)"
proof -
  let ?s0 = "lock_start [deadlockThread_1, deadlockThread_2]"
  let ?s1 = "\<lparr>held = [[1], []], progs = [[Acquire [2], Release 2, Release 1], deadlockThread_2]\<rparr>"
  let ?s2 = "\<lparr>held = [[1], [2]], progs = [[Acquire [2], Release 2, Release 1], [Acquire [1], Release 1, Release 2]]\<rparr>"
  have "lock_step ?s0 ?s1"
    using ls_acquire [of 0 ?s0 "[1]" "[Acquire [2], Release 2, Release 1]"]
    by (simp add: lock_start_def deadlockThread_1_def numeral_2_eq_2 all_free_def)
  moreover have "lock_step ?s1 ?s2"
    using ls_acquire [of 1 ?s1 "[2]" "[Acquire [1], Release 1, Release 2]"] by (simp add: deadlockThread_2_def all_free_def)
  moreover have "lock_deadlock ?s2"
    by (auto simp: lock_deadlock_def lock_finished_def all_free_def less_Suc_eq elim!: lock_stepE)
  ultimately have "\<exists>s. lock_step\<^sup>*\<^sup>* ?s0 s \<and> lock_deadlock s" by (meson converse_rtranclp_into_rtranclp rtranclp.rtrancl_refl)
  moreover have "\<not> lock_deadlock s \<and> (\<exists>t. lock_step\<^sup>*\<^sup>* s t \<and> lock_finished t)"
    if "lock_step\<^sup>*\<^sup>* (lock_start [safeThread_1, safeThread_2]) s"
  proof -
    have "lock_inv 0 (lock_start [safeThread_1, safeThread_2])"
      by (rule lock_inv_start) (simp add: safeThread_1_def safeThread_2_def)
    then have "lock_inv 0 s" using that locking.always_from by blast
    then show ?thesis using locking.progress locking.comes_to_rest by (auto simp: lock_deadlock_def)
  qed
  ultimately show ?thesis by simp
qed

section \<open>Dining philosophers\<close>

text \<open>
  Fork \<open>i\<close> is left of philosopher \<open>i\<close>; a philosopher thinks and eats three times. After the \<open>n\<close> forks,
  mutex \<open>n\<close> is \<^verbatim>\<open>printMtx\<close>: every message is printed under it, two of them while both forks are held.
\<close>

definition print_message :: "nat \<Rightarrow> instr list" where
  "print_message printMtx = [Acquire [printMtx], Release printMtx]"

definition think :: "nat \<Rightarrow> instr list" where
  "think printMtx = print_message printMtx"

definition eat :: "nat \<Rightarrow> nat \<Rightarrow> nat \<Rightarrow> instr list" where
  "eat printMtx leftFork rightFork =
     [Acquire [leftFork, rightFork]] @ print_message printMtx @ print_message printMtx @
     [Release rightFork, Release leftFork]"

definition philosopher :: "nat \<Rightarrow> nat \<Rightarrow> instr list" where
  "philosopher n philosopher_id =
     (let leftFork = philosopher_id; rightFork = (philosopher_id + 1) mod n
      in concat (map (\<lambda>meal. think n @ eat n leftFork rightFork) [1..<4]))"

definition dining :: "nat \<Rightarrow> lock_state" where
  "dining n = lock_start (map (philosopher n) [0..<n])"

definition eating :: "nat \<Rightarrow> nat \<Rightarrow> lock_state \<Rightarrow> bool" where
  "eating n i s \<longleftrightarrow> {i, (i + 1) mod n} \<subseteq> set (held s ! i)"

definition printing :: "nat \<Rightarrow> nat \<Rightarrow> lock_state \<Rightarrow> bool" where
  "printing n i s \<longleftrightarrow> n \<in> set (held s ! i)"

lemma right_fork:
  assumes "2 \<le> n" "i < n"
  shows "(i + 1) mod n \<noteq> (i::nat)"
  using assms by (cases "i + 1 < n") (simp_all, metis One_nat_def Suc_1 Suc_eq_plus1 le_antisym linorder_not_less mod_self not_less_eq_eq less_eq_Suc_le zero_neq_one)

lemma distinct_concat_nth:
  "distinct (concat xs) \<Longrightarrow> i < length xs \<Longrightarrow> j < length xs \<Longrightarrow> i \<noteq> j \<Longrightarrow> set (xs ! i) \<inter> set (xs ! j) = {}"
proof (induction xs arbitrary: i j)
  case (Cons x xs)
  have m: "set (xs ! k) \<inter> set x = {}" "set x \<inter> set (xs ! k) = {}" if "k < length xs" for k
    using Cons.prems(1) nth_mem [OF that] by auto
  show ?case using Cons m by (cases i; cases j) auto
qed simp

lemma philosopher_all_at_once:
  assumes "2 \<le> n" "i < n"
  shows "all_at_once n [] (philosopher n i)"
proof -
  have "[1..<4] = [1, 2, 3 :: nat]" by (simp add: upt_rec)
  moreover have "(i + 1) mod n \<noteq> n" using assms(1) mod_less_divisor [of n "i + 1"] by linarith
  ultimately show ?thesis
    using right_fork [OF assms] assms(2)
    by (simp add: philosopher_def think_def eat_def print_message_def releases_next_def Let_def)
qed

lemma dining_start_inv: "2 \<le> n \<Longrightarrow> lock_inv n (dining n)"
  unfolding dining_def by (rule lock_inv_start) (simp add: list_all_iff philosopher_all_at_once)

lemma lock_step_length: "lock_step\<^sup>*\<^sup>* s t \<Longrightarrow> length (progs t) = length (progs s)"
  by (induction rule: rtranclp_induct) (auto elim!: lock_stepE)

text \<open>
  C23. Dining philosophers, at least two at the table, who take their two forks with \<^verbatim>\<open>std::lock\<close> and print
  under \<^verbatim>\<open>printMtx\<close>, also while they hold the forks: in every interleaving two philosophers who share a
  fork never eat at the same time, no two threads print at once, there is no deadlock, and within a
  bounded number of steps all have had their three meals.
\<close>

theorem dining_philosophers:
  assumes "2 \<le> n" "lock_step\<^sup>*\<^sup>* (dining n) s"
  shows "(if i < n \<and> j < n \<and> i \<noteq> j \<and> eating n i s \<and> eating n j s then j \<noteq> (i + 1) mod n \<and> i \<noteq> (j + 1) mod n else True) \<and>
    \<not> (i < n \<and> j < n \<and> i \<noteq> j \<and> printing n i s \<and> printing n j s) \<and>
    \<not> lock_deadlock s \<and> (\<exists>t. lock_step\<^sup>*\<^sup>* s t \<and> lock_finished t) \<and>
    (if (lock_step ^^ k) s t then k \<le> lock_work s else True)"
proof -
  have inv: "lock_inv n s" using assms dining_start_inv locking.always_from by blast
  have "length (progs s) = n" using lock_step_length [OF assms(2)] by (simp add: dining_def lock_start_def)
  then have l: "length (held s) = n" using inv by (simp add: lock_inv_def)
  have "j \<noteq> (i + 1) mod n \<and> i \<noteq> (j + 1) mod n"
    if "i < n" "j < n" "i \<noteq> j" "eating n i s" "eating n j s"
    using distinct_concat_nth [OF lock_inv_distinct [OF inv], of i j] l that by (auto simp: eating_def)
  moreover have "\<not> (i < n \<and> j < n \<and> i \<noteq> j \<and> printing n i s \<and> printing n j s)"
    using distinct_concat_nth [OF lock_inv_distinct [OF inv], of i j] l by (auto simp: printing_def)
  moreover have "k \<le> lock_work s" if "(lock_step ^^ k) s t" using locking.run_bounded [OF that inv] by simp
  moreover have "\<not> lock_deadlock s" using locking.progress [OF inv] by (auto simp: lock_deadlock_def)
  ultimately show ?thesis using locking.comes_to_rest [OF inv] by simp
qed

theorem dining_philosophers_witness: "\<exists>t. lock_step\<^sup>*\<^sup>* (dining 5) t \<and> lock_finished t"
  using dining_philosophers [of 5 "dining 5"] by simp

section \<open>Atomic counters\<close>

text \<open>
  \<^verbatim>\<open>atomic<int>\<close> is a 32 bit word, whose arithmetic wraps. A thread has increments to do and, inside the
  loop of \<^verbatim>\<open>increment\<close>, the value \<open>old\<close> it last read. \<^verbatim>\<open>compare_exchange_weak\<close> stores only if the counter still
  is \<open>old\<close>, may fail all the same, and on failure loads the counter into \<open>old\<close>.
\<close>

record cas_thread =
  todo :: nat
  old :: "32 word option"

record cas_state =
  cas_count :: "32 word"
  cas_threads :: "cas_thread list"

definition cas_new :: "nat list \<Rightarrow> cas_state" where
  "cas_new ns = \<lparr>cas_count = 0, cas_threads = map (\<lambda>n. \<lparr>todo = n, old = None\<rparr>) ns\<rparr>"

inductive cas_step :: "cas_state \<Rightarrow> cas_state \<Rightarrow> bool" where
  cas_load: "i < length (cas_threads s) \<Longrightarrow> cas_threads s ! i = \<lparr>todo = Suc n, old = None\<rparr> \<Longrightarrow>
     cas_step s (s\<lparr>cas_threads := (cas_threads s)[i := \<lparr>todo = Suc n, old = Some (cas_count s)\<rparr>]\<rparr>)"
| cas_success: "i < length (cas_threads s) \<Longrightarrow> cas_threads s ! i = \<lparr>todo = Suc n, old = Some v\<rparr> \<Longrightarrow> cas_count s = v \<Longrightarrow>
     cas_step s \<lparr>cas_count = v + 1, cas_threads = (cas_threads s)[i := \<lparr>todo = n, old = None\<rparr>]\<rparr>"
| cas_fail: "i < length (cas_threads s) \<Longrightarrow> cas_threads s ! i = \<lparr>todo = Suc n, old = Some v\<rparr> \<Longrightarrow>
     cas_step s (s\<lparr>cas_threads := (cas_threads s)[i := \<lparr>todo = Suc n, old = Some (cas_count s)\<rparr>]\<rparr>)"

definition cas_get :: "cas_state \<Rightarrow> int" where
  "cas_get s = sint (cas_count s)"

text \<open>\<^verbatim>\<open>fetch_add\<close>, as the other two counters use it.\<close>

definition fetch_add_step :: "nat \<Rightarrow> cas_state \<Rightarrow> cas_state option" where
  "fetch_add_step i s =
     (case todo (cas_threads s ! i) of
        0 \<Rightarrow> None
      | Suc n \<Rightarrow> Some \<lparr>cas_count = cas_count s + 1, cas_threads = (cas_threads s)[i := (cas_threads s ! i)\<lparr>todo := n\<rparr>]\<rparr>)"

definition cas_total :: "cas_state \<Rightarrow> 32 word" where
  "cas_total s = cas_count s + of_nat (sum_list (map todo (cas_threads s)))"

lemma todo_update:
  assumes "i < length ts"
  shows "sum_list (map todo (ts[i := t])) + todo (ts ! i) = sum_list (map todo ts) + todo t"
proof -
  have "sum_list (map todo ts) = sum_list (map todo (take i ts @ ts ! i # drop (Suc i) ts))"
    using id_take_nth_drop [OF assms] by simp
  then show ?thesis using assms by (simp add: upd_conv_take_nth_drop)
qed

lemma todo_decr:
  assumes "i < length ts" "todo (ts ! i) = Suc n" "todo t = n"
  shows "sum_list (map todo ts) = Suc (sum_list (map todo (ts[i := t])))"
  using todo_update [OF assms(1), of t] assms(2,3) by simp

lemma cas_total_step: "cas_step s t \<Longrightarrow> cas_total t = cas_total s"
proof (induction rule: cas_step.induct)
  case (cas_success i s n v)
  then show ?case using todo_decr [of i "cas_threads s" n "\<lparr>todo = n, old = None\<rparr>"] by (simp add: cas_total_def)
next
  case (cas_load i s n)
  then show ?case using todo_update [of i "cas_threads s" "\<lparr>todo = Suc n, old = Some (cas_count s)\<rparr>"] by (simp add: cas_total_def)
next
  case (cas_fail i s n v)
  then show ?case using todo_update [of i "cas_threads s" "\<lparr>todo = Suc n, old = Some (cas_count s)\<rparr>"] by (simp add: cas_total_def)
qed

text \<open>A thread that loops while no other stores gets through after at most two more steps.\<close>

lemma cas_not_stuck:
  assumes "i < length (cas_threads s)" "0 < todo (cas_threads s ! i)"
  shows "\<exists>t. cas_step\<^sup>*\<^sup>* s t \<and> cas_threads t = (cas_threads s)[i := \<lparr>todo = todo (cas_threads s ! i) - 1, old = None\<rparr>]"
proof -
  obtain n where n: "todo (cas_threads s ! i) = Suc n" using assms(2) by (cases "todo (cas_threads s ! i)") auto
  let ?t = "s\<lparr>cas_threads := (cas_threads s)[i := \<lparr>todo = Suc n, old = Some (cas_count s)\<rparr>]\<rparr>"
  have "cas_step s ?t"
  proof (cases "old (cas_threads s ! i)")
    case None
    then have "cas_threads s ! i = \<lparr>todo = Suc n, old = None\<rparr>" using n by (simp add: cas_thread.equality)
    then show ?thesis using assms(1) by (rule_tac cas_load)
  next
    case (Some v)
    then have "cas_threads s ! i = \<lparr>todo = Suc n, old = Some v\<rparr>" using n by (simp add: cas_thread.equality)
    then show ?thesis using assms(1) by (rule_tac cas_fail)
  qed
  moreover have "cas_step ?t \<lparr>cas_count = cas_count s + 1, cas_threads = (cas_threads s)[i := \<lparr>todo = n, old = None\<rparr>]\<rparr>"
    using cas_success [of i ?t n "cas_count s"] assms(1) by simp
  ultimately have "cas_step\<^sup>*\<^sup>* s \<lparr>cas_count = cas_count s + 1, cas_threads = (cas_threads s)[i := \<lparr>todo = n, old = None\<rparr>]\<rparr>"
    by (rule converse_rtranclp_into_rtranclp [OF _ r_into_rtranclp])
  then show ?thesis using n by (auto intro!: exI)
qed

text \<open>
  Atomic counter: whatever the interleaving and however often the exchange fails, no increment
  is lost or counted twice, up to the wrap-around of the 32 bit counter: with 4 threads of 100000
  increments the counter read at the end is 400000. \<^verbatim>\<open>fetch_add\<close> keeps the same balance in one step.
\<close>

theorem counter_exact:
  assumes "cas_step\<^sup>*\<^sup>* (cas_new ns) s"
  shows "cas_count s = of_nat (sum_list ns - sum_list (map todo (cas_threads s))) \<and>
    (if list_all (\<lambda>t. todo t = 0) (cas_threads s) \<and> sum_list ns < 2 ^ 31 then cas_get s = int (sum_list ns) else True) \<and>
    (if i < length (cas_threads s) then case fetch_add_step i s of None \<Rightarrow> True | Some t \<Rightarrow> cas_total t = cas_total s else True)"
proof -
  have "cas_total s = of_nat (sum_list ns)" using assms
    by (induction rule: rtranclp_induct) (simp_all add: cas_total_step, simp add: cas_total_def cas_new_def o_def)
  moreover have le: "sum_list (map todo (cas_threads s)) \<le> sum_list ns" using assms
  proof (induction rule: rtranclp_induct)
    case (step y z)
    from step.hyps(2) have "sum_list (map todo (cas_threads z)) \<le> sum_list (map todo (cas_threads y))"
    proof (induction rule: cas_step.induct)
      case (cas_success i s n v)
      then show ?case using todo_decr [of i "cas_threads s" n "\<lparr>todo = n, old = None\<rparr>"] by simp
    next
      case (cas_load i s n)
      then show ?case using todo_update [of i "cas_threads s" "\<lparr>todo = Suc n, old = Some (cas_count s)\<rparr>"] by simp
    next
      case (cas_fail i s n v)
      then show ?case using todo_update [of i "cas_threads s" "\<lparr>todo = Suc n, old = Some (cas_count s)\<rparr>"] by simp
    qed
    then show ?case using step.IH by simp
  qed (simp add: cas_new_def o_def)
  ultimately have c: "cas_count s = of_nat (sum_list ns - sum_list (map todo (cas_threads s)))"
    by (simp add: cas_total_def of_nat_diff algebra_simps)
  moreover have "cas_get s = int (sum_list ns)"
    if "list_all (\<lambda>t. todo t = 0) (cas_threads s)" "sum_list ns < 2 ^ 31"
  proof -
    have "sum_list (map todo (cas_threads s)) = 0" using that(1) by (simp add: list_all_iff)
    then have "cas_count s = of_nat (sum_list ns)" using c by (simp only: minus_nat.diff_0)
    then show ?thesis unfolding cas_get_def using that(2) by (simp add: signed_of_nat signed_take_bit_int_eq_self)
  qed
  moreover have "case fetch_add_step i s of None \<Rightarrow> True | Some t \<Rightarrow> cas_total t = cas_total s"
    if "i < length (cas_threads s)"
  proof (cases "todo (cas_threads s ! i)")
    case (Suc n)
    then show ?thesis using todo_decr [OF that Suc, of "(cas_threads s ! i)\<lparr>todo := n\<rparr>"]
      by (simp add: fetch_add_step_def cas_total_def)
  qed (simp add: fetch_add_step_def)
  ultimately show ?thesis by simp
qed

theorem counter_exact_witness: "cas_count (cas_new [100000, 100000]) = 0"
  using counter_exact [of "[100000, 100000]" "cas_new [100000, 100000]"] by (simp add: cas_new_def)

section \<open>Sequencer\<close>

definition seq_next :: "int \<Rightarrow> int \<times> int" where
  "seq_next counter = (counter, counter + 1)"

fun seq_calls :: "nat \<Rightarrow> int \<Rightarrow> int list \<times> int" where
  "seq_calls 0 c = ([], c)"
| "seq_calls (Suc n) c = (let (v, c) = seq_next c; (vs, c) = seq_calls n c in (v # vs, c))"

text \<open>However the threads interleave, the calls of \<^verbatim>\<open>next\<close> return 1, 2, 3 and so on.\<close>

lemma sequencer_strict: "seq_calls n 1 = (map (\<lambda>k. 1 + int k) [0..<n], 1 + int n)"
proof -
  have "seq_calls n c = (map (\<lambda>k. c + int k) [0..<n], c + int n)" for c
  proof (induction n arbitrary: c)
    case (Suc n)
    have "map (\<lambda>k. c + int k) [0..<Suc n] = c # map (\<lambda>k. (c + 1) + int k) [0..<n]"
      by (simp add: upt_conv_Cons map_Suc_upt [symmetric] o_def del: upt_Suc)
    then show ?case using Suc [of "c + 1"] by (simp add: seq_next_def del: upt_Suc)
  qed simp
  then show ?thesis .
qed

end
