(* ===== verification/Skip_List.thy ===== *)
theory Skip_List
  imports Prelude "HOL-Library.Sublist"
begin

text \<open>
  The skip list of \<^verbatim>\<open>skipList.cpp\<close>. The nodes that one insertion creates, linked by \<^verbatim>\<open>down\<close>, form a tower
  with a number of its own; a node is a tower at a level, so a level is the list of the towers that
  reach it, linked by \<^verbatim>\<open>right\<close>, and \<^verbatim>\<open>down\<close> leads to the same tower one level below. The successive results of
  \<^verbatim>\<open>rand() & 1\<close> are a parameter. The list is shown to implement a sorted list with repetitions.
\<close>

section \<open>Model\<close>

type_synonym sk_node = "nat \<times> int"

type_synonym sk_level = "sk_node list"

text \<open>The levels, top first; every level has a head node of its own.\<close>

record SkipList =
  levels :: "sk_level list"
  towers :: nat

definition sk_new :: SkipList where
  "sk_new = \<lparr>levels = [[]], towers = 0\<rparr>"

text \<open>What is to the right of a node: \<^const>\<open>None\<close> is the head of the level.\<close>

definition right_of :: "nat option \<Rightarrow> sk_level \<Rightarrow> sk_level" where
  "right_of c l = (case c of None \<Rightarrow> l | Some k \<Rightarrow> tl (dropWhile (\<lambda>e. fst e \<noteq> k) l))"

fun sk_walk :: "int \<Rightarrow> nat option \<Rightarrow> sk_level \<Rightarrow> nat option \<times> sk_level" where
  "sk_walk target c [] = (c, [])"
| "sk_walk target c (e # r) = (if snd e < target then sk_walk target (Some (fst e)) r else (c, e # r))"

fun sk_find :: "int \<Rightarrow> nat option \<Rightarrow> sk_level list \<Rightarrow> bool" where
  "sk_find target c [] = False"
| "sk_find target c (l # ls) =
     (case sk_walk target c (right_of c l) of
        (c, r) \<Rightarrow> if r \<noteq> [] \<and> snd (hd r) = target then True else sk_find target c ls)"

definition sk_serach :: "int \<Rightarrow> SkipList \<Rightarrow> bool" where
  "sk_serach target s = sk_find target None (levels s)"

fun insert_points :: "int \<Rightarrow> nat option \<Rightarrow> sk_level list \<Rightarrow> nat option list" where
  "insert_points target c [] = []"
| "insert_points target c (l # ls) =
     (case sk_walk target c (right_of c l) of (c, r) \<Rightarrow> c # insert_points target c ls)"

definition insert_right :: "nat option \<Rightarrow> sk_node \<Rightarrow> sk_level \<Rightarrow> sk_level" where
  "insert_right c e l =
     (case c of None \<Rightarrow> e # l
      | Some k \<Rightarrow> takeWhile (\<lambda>x. fst x \<noteq> k) l @ take 1 (dropWhile (\<lambda>x. fst x \<noteq> k) l) @ e # right_of c l)"

text \<open>The second loop of \<^verbatim>\<open>insert\<close>, over the levels and the insert points from the bottom.\<close>

fun insert_up :: "sk_node \<Rightarrow> (nat \<Rightarrow> bool) \<Rightarrow> nat \<Rightarrow> (sk_level \<times> nat option) list \<Rightarrow> sk_level list \<times> bool" where
  "insert_up e coin i [] = ([], True)"
| "insert_up e coin i ((l, c) # lcs) =
     (let l' = insert_right c e l
      in if coin i then case insert_up e coin (i + 1) lcs of (ls, up) \<Rightarrow> (l' # ls, up) else (l' # map fst lcs, False))"

definition sk_insert :: "(nat \<Rightarrow> bool) \<Rightarrow> int \<Rightarrow> SkipList \<Rightarrow> SkipList" where
  "sk_insert coin target s =
     (let e = (towers s, target);
          points = insert_points target None (levels s);
          (ls, up) = insert_up e coin 0 (zip (rev (levels s)) (rev points))
      in \<lparr>levels = (if up then [[e]] else []) @ rev ls, towers = towers s + 1\<rparr>)"

definition remove_right :: "nat option \<Rightarrow> sk_level \<Rightarrow> sk_level" where
  "remove_right c l =
     (case c of None \<Rightarrow> tl l
      | Some k \<Rightarrow> takeWhile (\<lambda>x. fst x \<noteq> k) l @ take 1 (dropWhile (\<lambda>x. fst x \<noteq> k) l) @ tl (right_of c l))"

fun sk_erase_from :: "int \<Rightarrow> nat option \<Rightarrow> sk_level list \<Rightarrow> sk_level list \<times> bool" where
  "sk_erase_from target c [] = ([], False)"
| "sk_erase_from target c (l # ls) =
     (case sk_walk target c (right_of c l) of
        (c, r) \<Rightarrow> case sk_erase_from target c ls of
          (ls', found) \<Rightarrow> if r \<noteq> [] \<and> snd (hd r) = target then (remove_right c l # ls', True) else (l # ls', found))"

definition sk_erase :: "int \<Rightarrow> SkipList \<Rightarrow> SkipList \<times> bool" where
  "sk_erase target s = (case sk_erase_from target None (levels s) of (ls, found) \<Rightarrow> (s\<lparr>levels := ls\<rparr>, found))"

section \<open>Levels\<close>

definition level_ok :: "sk_level \<Rightarrow> bool" where
  "level_ok l \<longleftrightarrow> sorted (map snd l) \<and> distinct (map fst l)"

text \<open>The nodes of a level before and from the first one that is not less than the target.\<close>

abbreviation low :: "int \<Rightarrow> sk_level \<Rightarrow> sk_level" where
  "low t l \<equiv> filter (\<lambda>e. snd e < t) l"

abbreviation high :: "int \<Rightarrow> sk_level \<Rightarrow> sk_level" where
  "high t l \<equiv> filter (\<lambda>e. t \<le> snd e) l"

lemma level_split: "level_ok l \<Longrightarrow> l = low t l @ high t l"
proof (induction l)
  case (Cons e l)
  have l: "level_ok l" using Cons.prems by (simp add: level_ok_def)
  show ?case
  proof (cases "snd e < t")
    case False
    then have "\<forall>x \<in> set l. t \<le> snd x" using Cons.prems by (auto simp: level_ok_def)
    then have "low t l = []" "high t l = l" by (auto simp: filter_empty_conv filter_id_conv)
    then show ?thesis using False by simp
  qed (use Cons.IH [OF l] in simp)
qed simp

definition last_of :: "sk_level \<Rightarrow> nat option" where
  "last_of l = (if l = [] then None else Some (fst (last l)))"

lemma sk_walk_prefix: "\<forall>e \<in> set a. snd e < t \<Longrightarrow> b = [] \<or> t \<le> snd (hd b) \<Longrightarrow>
    sk_walk t c (a @ b) = (if a = [] then c else last_of a, b)"
  by (induction a arbitrary: c) (cases b, auto simp: last_of_def)

text \<open>A place from which a walk to \<open>t\<close> may start on level \<open>l\<close>.\<close>

definition start_ok :: "int \<Rightarrow> nat option \<Rightarrow> sk_level \<Rightarrow> bool" where
  "start_ok t c l \<longleftrightarrow> (case c of None \<Rightarrow> True | Some k \<Rightarrow> \<exists>v < t. (k, v) \<in> set l)"

lemma split_at_node:
  assumes "distinct (map fst l)" "(k, v) \<in> set l"
  obtains a b where "l = a @ (k, v) # b" "right_of (Some k) l = b"
    "takeWhile (\<lambda>e. fst e \<noteq> k) l = a" "take 1 (dropWhile (\<lambda>e. fst e \<noteq> k) l) = [(k, v)]"
proof -
  obtain a b where l: "l = a @ (k, v) # b" using assms(2) by (meson split_list)
  have a: "\<forall>e \<in> set a. fst e \<noteq> k" using assms(1) l by auto
  have "takeWhile (\<lambda>e. fst e \<noteq> k) l = a" "dropWhile (\<lambda>e. fst e \<noteq> k) l = (k, v) # b"
    using a by (simp_all add: l takeWhile_append dropWhile_append)
  then show thesis using l by (intro that) (simp_all add: right_of_def)
qed

lemma sk_walk_level:
  assumes ok: "level_ok l" and c: "start_ok t c l"
  shows "sk_walk t c (right_of c l) = (last_of (low t l), high t l)"
proof -
  have f: "high t l = [] \<or> t \<le> snd (hd (high t l))"
    using hd_in_set [of "high t l"] by (cases "high t l = []") auto
  show ?thesis
  proof (cases c)
    case None
    have "sk_walk t None (low t l @ high t l) = (if low t l = [] then None else last_of (low t l), high t l)"
      using f by (intro sk_walk_prefix) auto
    then show ?thesis using level_split [OF ok, of t] None by (simp add: right_of_def last_of_def)
  next
    case (Some k)
    then obtain v where v: "v < t" "(k, v) \<in> set l" using c by (auto simp: start_ok_def)
    obtain a b where l: "l = a @ (k, v) # b" "right_of (Some k) l = b"
      using split_at_node [OF _ v(2)] ok unfolding level_ok_def by metis
    have "level_ok b" using ok by (auto simp: level_ok_def sorted_append l(1))
    note b = level_split [OF this, of t]
    have "\<forall>e \<in> set a. snd e < t" using ok v(1) by (auto simp: level_ok_def sorted_append l(1))
    then have "low t a = a" "high t a = []" by (auto simp: filter_id_conv filter_empty_conv)
    then have eq: "low t l = a @ (k, v) # low t b" "high t l = high t b" using v(1) by (simp_all add: l(1))
    have "sk_walk t (Some k) (low t b @ high t b) =
        (if low t b = [] then Some k else last_of (low t b), high t b)"
      using f unfolding eq(2) by (intro sk_walk_prefix) auto
    then show ?thesis using b eq l(2) Some by (auto simp: last_of_def)
  qed
qed

text \<open>Both updates cut the level after the last node that is less than the target.\<close>

lemma cut_at_last:
  assumes ok: "level_ok l" and a: "low t l = a @ [(k, v)]"
  shows "takeWhile (\<lambda>e. fst e \<noteq> k) l = a" "take 1 (dropWhile (\<lambda>e. fst e \<noteq> k) l) = [(k, v)]"
    "right_of (Some k) l = high t l"
proof -
  have l: "l = a @ (k, v) # high t l" using level_split [OF ok, of t] a by simp
  have "distinct (map fst (a @ (k, v) # high t l))" using ok l by (simp add: level_ok_def)
  then have n: "\<forall>e \<in> set a. fst e \<noteq> k" by auto
  have "takeWhile (\<lambda>e. fst e \<noteq> k) (a @ (k, v) # high t l) = a"
    "dropWhile (\<lambda>e. fst e \<noteq> k) (a @ (k, v) # high t l) = (k, v) # high t l"
    using n by (simp_all add: takeWhile_append dropWhile_append)
  then show "takeWhile (\<lambda>e. fst e \<noteq> k) l = a" "take 1 (dropWhile (\<lambda>e. fst e \<noteq> k) l) = [(k, v)]"
    "right_of (Some k) l = high t l" using l by (simp_all add: right_of_def)
qed

lemma update_level:
  assumes ok: "level_ok l"
  shows "insert_right (last_of (low t l)) e l = low t l @ e # high t l"
    and "remove_right (last_of (low t l)) l = low t l @ tl (high t l)"
proof -
  have "insert_right (last_of (low t l)) e l = low t l @ e # high t l \<and>
        remove_right (last_of (low t l)) l = low t l @ tl (high t l)"
  proof (cases "low t l" rule: rev_cases)
    case Nil
    then show ?thesis using level_split [OF ok, of t] by (simp add: insert_right_def remove_right_def last_of_def)
  next
    case (snoc a x)
    obtain k v where x: "x = (k, v)" by force
    show ?thesis using cut_at_last [OF ok snoc [unfolded x]] snoc x
      by (simp add: insert_right_def remove_right_def last_of_def)
  qed
  then show "insert_right (last_of (low t l)) e l = low t l @ e # high t l"
    "remove_right (last_of (low t l)) l = low t l @ tl (high t l)" by simp_all
qed

section \<open>The invariant\<close>

text \<open>Every level is sorted and part of the level below.\<close>

definition levels_ok :: "sk_level list \<Rightarrow> bool" where
  "levels_ok ls \<longleftrightarrow> list_all level_ok ls \<and> sorted_wrt subseq ls"

definition sk_ok :: "SkipList \<Rightarrow> bool" where
  "sk_ok s \<longleftrightarrow> levels s \<noteq> [] \<and> levels_ok (levels s) \<and> (\<forall>l \<in> set (levels s). \<forall>e \<in> set l. fst e < towers s)"

definition sk_values :: "SkipList \<Rightarrow> int list" where
  "sk_values s = map snd (last (levels s))"

lemma subseq_subset: "subseq xs ys \<Longrightarrow> set xs \<subseteq> set ys"
  by (auto dest: list_emb_set)

lemma start_ok_below:
  assumes "subseq l m"
  shows "start_ok t (last_of (low t l)) m"
proof (cases "low t l = []")
  case False
  obtain k v where e: "last (low t l) = (k, v)" by force
  then have "(k, v) \<in> set (low t l)" using last_in_set [OF False] by simp
  then have "v < t" "(k, v) \<in> set m" using subseq_subset [OF assms] by auto
  then show ?thesis using False e by (auto simp: start_ok_def last_of_def)
qed (simp add: start_ok_def last_of_def)

lemma start_ok_head: "levels_ok (l # ls) \<Longrightarrow> ls = [] \<or> start_ok t (last_of (low t l)) (hd ls)"
  by (cases ls) (auto simp: levels_ok_def intro: start_ok_below)

lemma high_head:
  assumes "level_ok l"
  shows "high t l \<noteq> [] \<and> snd (hd (high t l)) = t \<longleftrightarrow> t \<in> snd ` set l"
proof
  assume "high t l \<noteq> [] \<and> snd (hd (high t l)) = t"
  then have "hd (high t l) \<in> set l" "snd (hd (high t l)) = t" using hd_in_set [of "high t l"] by auto
  then show "t \<in> snd ` set l" by force
next
  assume "t \<in> snd ` set l"
  then obtain k where "(k, t) \<in> set (high t l)" by force
  moreover have "sorted (map snd (high t l))" using assms by (simp add: level_ok_def sorted_filter)
  ultimately have "high t l \<noteq> []" "snd (hd (high t l)) \<le> t" "t \<le> snd (hd (high t l))"
    using hd_in_set [of "high t l"] by (cases "high t l", auto)+
  then show "high t l \<noteq> [] \<and> snd (hd (high t l)) = t" by simp
qed

lemma sk_find_levels:
  "levels_ok ls \<Longrightarrow> ls = [] \<or> start_ok t c (hd ls) \<Longrightarrow> sk_find t c ls \<longleftrightarrow> (\<exists>l \<in> set ls. t \<in> snd ` set l)"
proof (induction ls arbitrary: c)
  case (Cons l ls)
  have ok: "level_ok l" "levels_ok ls" using Cons.prems(1) by (simp_all add: levels_ok_def)
  have "sk_walk t c (right_of c l) = (last_of (low t l), high t l)" using Cons.prems(2) ok by (intro sk_walk_level) simp_all
  then show ?case using Cons.IH [OF ok(2) start_ok_head [OF Cons.prems(1)]] high_head [OF ok(1), of t] by auto
qed simp

lemma insert_points_levels:
  "levels_ok ls \<Longrightarrow> ls = [] \<or> start_ok t c (hd ls) \<Longrightarrow> insert_points t c ls = map (\<lambda>l. last_of (low t l)) ls"
proof (induction ls arbitrary: c)
  case (Cons l ls)
  have ok: "level_ok l" "levels_ok ls" using Cons.prems(1) by (simp_all add: levels_ok_def)
  have "sk_walk t c (right_of c l) = (last_of (low t l), high t l)" using Cons.prems(2) ok by (intro sk_walk_level) simp_all
  then show ?case using Cons.IH [OF ok(2) start_ok_head [OF Cons.prems(1)]] by simp
qed simp

definition erased :: "int \<Rightarrow> sk_level \<Rightarrow> sk_level" where
  "erased t l = low t l @ (if t \<in> snd ` set l then tl (high t l) else high t l)"

lemma erase_levels:
  "levels_ok ls \<Longrightarrow> ls = [] \<or> start_ok t c (hd ls) \<Longrightarrow>
     sk_erase_from t c ls = (map (erased t) ls, \<exists>l \<in> set ls. t \<in> snd ` set l)"
proof (induction ls arbitrary: c)
  case (Cons l ls)
  have ok: "level_ok l" "levels_ok ls" using Cons.prems(1) by (simp_all add: levels_ok_def)
  have "sk_walk t c (right_of c l) = (last_of (low t l), high t l)" using Cons.prems(2) ok by (intro sk_walk_level) simp_all
  then show ?case
    using Cons.IH [OF ok(2) start_ok_head [OF Cons.prems(1)]] high_head [OF ok(1), of t] level_split [OF ok(1), of t]
    by (auto simp: erased_def update_level(2) [OF ok(1)])
qed simp

definition inserted :: "int \<Rightarrow> sk_node \<Rightarrow> sk_level \<Rightarrow> sk_level" where
  "inserted t e l = low t l @ e # high t l"

lemma insert_up_levels:
  assumes "list_all level_ok ls"
  shows "\<exists>k \<le> length ls. (ls \<noteq> [] \<longrightarrow> 0 < k) \<and>
    fst (insert_up e coin i (map (\<lambda>l. (l, last_of (low t l))) ls)) = map (inserted t e) (take k ls) @ drop k ls \<and>
    (snd (insert_up e coin i (map (\<lambda>l. (l, last_of (low t l))) ls)) \<longrightarrow> k = length ls)"
  using assms
proof (induction ls arbitrary: i)
  case (Cons l ls)
  have l: "insert_right (last_of (low t l)) e l = inserted t e l"
    using Cons.prems by (simp add: inserted_def update_level(1))
  show ?case
  proof (cases "coin i")
    case True
    obtain k where "k \<le> length ls"
      "fst (insert_up e coin (i + 1) (map (\<lambda>l. (l, last_of (low t l))) ls)) = map (inserted t e) (take k ls) @ drop k ls"
      "snd (insert_up e coin (i + 1) (map (\<lambda>l. (l, last_of (low t l))) ls)) \<longrightarrow> k = length ls"
      using Cons.IH [of "i + 1"] Cons.prems by auto
    then show ?thesis using True l by (intro exI [of _ "Suc k"]) (auto simp: Let_def split: prod.splits)
  next
    case False
    then show ?thesis using l by (intro exI [of _ 1]) (simp add: Let_def o_def)
  qed
qed simp

lemma sk_insert_levels:
  fixes t :: int
  assumes "sk_ok s"
  defines "e \<equiv> (towers s, t)"
  shows "\<exists>j < length (levels s). \<exists>up \<in> {[], [[e]]}. (up \<noteq> [] \<longrightarrow> j = 0) \<and>
    sk_insert coin t s = \<lparr>levels = up @ take j (levels s) @ map (inserted t e) (drop j (levels s)), towers = towers s + 1\<rparr>"
proof -
  let ?L = "rev (levels s)"
  have ok: "levels s \<noteq> []" "levels_ok (levels s)" using assms by (simp_all add: sk_ok_def)
  have okL: "list_all level_ok ?L" and ne: "?L \<noteq> []" using ok by (simp_all add: levels_ok_def list_all_iff)
  have "zip ?L (rev (insert_points t None (levels s))) = map (\<lambda>l. (l, last_of (low t l))) ?L"
    using insert_points_levels [OF ok(2), of t None] by (simp add: start_ok_def rev_map zip_map2 zip_same_conv_map)
  moreover obtain k where k: "k \<le> length ?L" "0 < k"
    "fst (insert_up e coin 0 (map (\<lambda>l. (l, last_of (low t l))) ?L)) = map (inserted t e) (take k ?L) @ drop k ?L"
    "snd (insert_up e coin 0 (map (\<lambda>l. (l, last_of (low t l))) ?L)) \<longrightarrow> k = length ?L"
    using insert_up_levels [OF okL, of e coin 0 t] ne by blast
  moreover have "rev (map (inserted t e) (take k ?L) @ drop k ?L) =
      take (length ?L - k) (levels s) @ map (inserted t e) (drop (length ?L - k) (levels s))"
    by (simp add: rev_map take_rev drop_rev)
  ultimately show ?thesis using k ok(1)
    by (intro exI [of _ "length ?L - k"] conjI bexI [of _ "if snd (insert_up e coin 0 (map (\<lambda>l. (l, last_of (low t l))) ?L)) then [[e]] else []"])
      (auto simp: sk_insert_def Let_def e_def split: prod.splits)
qed

lemma inserted_subseq:
  "level_ok l \<Longrightarrow> subseq l (inserted t e l)" "subseq l m \<Longrightarrow> subseq (inserted t e l) (inserted t e m)" "subseq [e] (inserted t e l)"
proof -
  assume "level_ok l"
  then have "l = low t l @ high t l" by (rule level_split)
  moreover have "subseq (low t l @ high t l) (inserted t e l)"
    unfolding inserted_def by (intro list_emb_append_mono) auto
  ultimately show "subseq l (inserted t e l)" by simp
next
  assume "subseq l m"
  then show "subseq (inserted t e l) (inserted t e m)"
    unfolding inserted_def by (intro list_emb_append_mono) (auto intro: subseq_filter)
next
  show "subseq [e] (inserted t e l)" by (simp add: inserted_def subseq_singleton_left)
qed

lemma inserted_ok:
  assumes "level_ok l" "fst e \<notin> fst ` set l" "snd e = t"
  shows "level_ok (inserted t e l)"
proof -
  have "distinct (map fst (low t l @ high t l))" "sorted (map snd (low t l @ high t l))"
    using assms(1) level_split [OF assms(1), of t] by (simp_all add: level_ok_def)
  then show ?thesis using assms(2,3) by (auto simp: level_ok_def inserted_def sorted_append image_iff)
qed

lemma erased_subseq:
  assumes "level_ok l" "level_ok m" "subseq l m"
  shows "subseq (erased t l) (erased t m)"
proof -
  have h: "subseq (high t l) (high t m)" and lo: "subseq (low t l) (low t m)"
    using assms(3) by (auto intro: subseq_filter)
  have "subseq (if t \<in> snd ` set l then tl (high t l) else high t l) (if t \<in> snd ` set m then tl (high t m) else high t m)"
  proof (cases "t \<in> snd ` set m")
    case False
    then have "t \<notin> snd ` set l" using subseq_subset [OF assms(3)] by blast
    then show ?thesis using False h by simp
  next
    case True
    then obtain y ys where m: "high t m = y # ys" "snd y = t"
      using high_head [OF assms(2), of t] by (cases "high t m") auto
    show ?thesis
    proof (cases "t \<in> snd ` set l")
      case True
      then obtain x xs where "high t l = x # xs" using high_head [OF assms(1), of t] by (cases "high t l") auto
      then show ?thesis using h m True \<open>t \<in> snd ` set m\<close>
        by (cases "x = y") (auto dest: subseq_Cons')
    next
      case False
      then have "y \<notin> set (high t l)" using m(2) by auto
      then have "subseq (high t l) ys" using h m by (cases "high t l") auto
      then show ?thesis using False True m by simp
    qed
  qed
  then show ?thesis unfolding erased_def using lo by (intro list_emb_append_mono)
qed

lemma erased_subset: "set (erased t l) \<subseteq> set l"
proof -
  have "set (tl (high t l)) \<subseteq> set (high t l)" by (cases "high t l") auto
  then show ?thesis by (auto simp: erased_def)
qed

lemma erased_ok:
  assumes "level_ok l"
  shows "level_ok (erased t l)"
proof -
  have "level_ok (low t l @ high t l)" using assms level_split [OF assms, of t] by simp
  then show ?thesis by (cases "high t l") (auto simp: level_ok_def erased_def sorted_append)
qed

section \<open>The operations keep the invariant\<close>

lemma sk_ok_new: "sk_ok sk_new"
  by (simp add: sk_ok_def sk_new_def levels_ok_def level_ok_def)

lemma sk_ok_erase: "sk_ok s \<Longrightarrow> sk_ok (fst (sk_erase t s))"
proof -
  assume s: "sk_ok s"
  then have ok: "levels_ok (levels s)" by (simp add: sk_ok_def)
  have l: "levels (fst (sk_erase t s)) = map (erased t) (levels s)" "towers (fst (sk_erase t s)) = towers s"
    using erase_levels [OF ok, of t None] by (simp_all add: sk_erase_def start_ok_def)
  have "sorted_wrt subseq (map (erased t) (levels s))"
    using ok unfolding sorted_wrt_map levels_ok_def
    by (auto intro: sorted_wrt_mono_rel [of "levels s" subseq] erased_subseq simp: list_all_iff)
  moreover have "fst e < towers s" if "m \<in> set (levels s)" "e \<in> set (erased t m)" for m e
    using s that erased_subset [of t m] unfolding sk_ok_def by blast
  ultimately show ?thesis using s by (simp add: sk_ok_def l levels_ok_def list_all_iff erased_ok)
qed

lemma sk_ok_insert: "sk_ok s \<Longrightarrow> sk_ok (sk_insert coin t s)"
proof -
  assume s: "sk_ok s"
  define e where "e = (towers s, t)"
  have ok: "levels s \<noteq> []" "list_all level_ok (levels s)" "sorted_wrt subseq (levels s)"
    and ids: "\<forall>l \<in> set (levels s). \<forall>x \<in> set l. fst x < towers s"
    using s by (simp_all add: sk_ok_def levels_ok_def)
  obtain j up where j: "j < length (levels s)" "up \<in> {[], [[e]]}" "up \<noteq> [] \<longrightarrow> j = 0"
    "sk_insert coin t s = \<lparr>levels = up @ take j (levels s) @ map (inserted t e) (drop j (levels s)), towers = towers s + 1\<rparr>"
    using sk_insert_levels [OF s, of t coin] unfolding e_def by blast
  define a b where "a = take j (levels s)" and "b = drop j (levels s)"
  then have s_ab: "levels s = a @ b" by simp
  have below: "fst x < towers s" if "y \<in> set a \<union> set b" "x \<in> set y" for y x
    using ids that unfolding s_ab set_append by blast
  have i: "sk_insert coin t s = \<lparr>levels = up @ a @ map (inserted t e) b, towers = towers s + 1\<rparr>"
    "up \<noteq> [] \<longrightarrow> a = []" "b \<noteq> []" using j by (auto simp: a_def b_def)
  have "sorted_wrt subseq (map (inserted t e) b)"
    using ok(3) unfolding sorted_wrt_map sorted_wrt_append s_ab
    by (auto intro: sorted_wrt_mono_rel [of b subseq] inserted_subseq)
  moreover have "subseq x (inserted t e y)" if "x \<in> set a" "y \<in> set b" for x y
  proof -
    have "subseq x y" "level_ok y" using ok that by (auto simp: sorted_wrt_append list_all_iff s_ab)
    then show ?thesis using inserted_subseq(1) subseq_order.trans by blast
  qed
  ultimately have "sorted_wrt subseq (a @ map (inserted t e) b)" using ok(3) by (auto simp: sorted_wrt_append s_ab)
  moreover have "level_ok (inserted t e y)" if "y \<in> set b" for y
  proof (rule inserted_ok)
    show "level_ok y" using ok(2) that by (simp add: list_all_iff s_ab)
    show "fst e \<notin> fst ` set y" using below [of y] that by (force simp: e_def)
  qed (simp add: e_def)
  moreover have "fst x < Suc (towers s)" if "y \<in> set b" "x \<in> set (inserted t e y)" for y x
    using below [of y x] that by (cases "x = e") (auto simp: inserted_def e_def less_SucI)
  moreover have "fst x < Suc (towers s)" if "y \<in> set a" "x \<in> set y" for y x
    using below [of y x] that by (simp add: less_SucI)
  ultimately show ?thesis using i j(2) ok(2)
    by (auto simp: sk_ok_def levels_ok_def level_ok_def [of "[e]"] list_all_iff s_ab inserted_subseq(3)) (simp_all add: e_def)
qed

lemma sk_values_sorted: "sk_ok s \<Longrightarrow> sorted (sk_values s)"
  by (simp add: sk_ok_def levels_ok_def sk_values_def level_ok_def list_all_iff)

lemma bottom_level:
  assumes "sk_ok s"
  shows "level_ok (last (levels s))" "l \<in> set (levels s) \<Longrightarrow> set l \<subseteq> set (last (levels s))"
proof -
  have s: "levels s \<noteq> []" "list_all level_ok (levels s)" "sorted_wrt subseq (levels s)"
    using assms by (simp_all add: sk_ok_def levels_ok_def)
  then show "level_ok (last (levels s))" by (simp add: list_all_iff)
  assume l: "l \<in> set (levels s)"
  obtain a b where ab: "levels s = a @ [b]" using s(1) by (cases "levels s" rule: rev_cases) simp_all
  then have "l = last (levels s) \<or> subseq l (last (levels s))"
    using l s(3) by (auto simp: sorted_wrt_append)
  then show "set l \<subseteq> set (last (levels s))" using subseq_subset by blast
qed

lemma any_level:
  assumes "sk_ok s"
  shows "(\<exists>l \<in> set (levels s). t \<in> snd ` set l) \<longleftrightarrow> t \<in> snd ` set (last (levels s))"
proof
  assume "\<exists>l \<in> set (levels s). t \<in> snd ` set l"
  then obtain l where l: "l \<in> set (levels s)" "t \<in> snd ` set l" ..
  from subsetD [OF image_mono [OF bottom_level(2) [OF assms l(1)]] l(2)]
  show "t \<in> snd ` set (last (levels s))" .
next
  assume "t \<in> snd ` set (last (levels s))"
  moreover have "last (levels s) \<in> set (levels s)" using assms by (simp add: sk_ok_def)
  ultimately show "\<exists>l \<in> set (levels s). t \<in> snd ` set l" ..
qed

lemma sk_serach_values: "sk_ok s \<Longrightarrow> sk_serach t s \<longleftrightarrow> t \<in> set (sk_values s)"
proof -
  assume s: "sk_ok s"
  have "sk_serach t s \<longleftrightarrow> (\<exists>l \<in> set (levels s). t \<in> snd ` set l)"
    unfolding sk_serach_def using s by (intro sk_find_levels) (auto simp: sk_ok_def start_ok_def)
  also have "\<dots> \<longleftrightarrow> t \<in> snd ` set (last (levels s))"
    by (rule any_level [OF s])
  finally show ?thesis by (simp add: sk_values_def)
qed

lemma insort_split: "sorted vs \<Longrightarrow> insort t vs = filter (\<lambda>v. v < t) vs @ t # filter (\<lambda>v. t \<le> v) vs" for t :: int
proof (induction vs)
  case (Cons v vs)
  show ?case
  proof (cases "t \<le> v")
    case True
    then have "filter (\<lambda>v. v < t) vs = []" "filter (\<lambda>v. t \<le> v) vs = vs"
      using Cons.prems by (auto simp: filter_empty_conv filter_id_conv)
    then show ?thesis using True by simp
  qed (use Cons in simp)
qed simp

lemma sk_insert_values:
  assumes "sk_ok s"
  shows "sk_values (sk_insert coin t s) = insort t (sk_values s)"
proof -
  obtain j up where j: "j < length (levels s)"
    "levels (sk_insert coin t s) = up @ take j (levels s) @ map (inserted t (towers s, t)) (drop j (levels s))"
    using sk_insert_levels [OF assms, of t coin] by (metis (no_types, lifting) SkipList.select_convs(1))
  then have "last (levels (sk_insert coin t s)) = inserted t (towers s, t) (last (levels s))"
    by (simp add: last_map)
  then show ?thesis
    using insort_split [OF sk_values_sorted [OF assms], of t] by (simp add: sk_values_def inserted_def filter_map o_def)
qed

lemma sk_erase_values:
  assumes "sk_ok s"
  shows "sk_values (fst (sk_erase t s)) = remove1 t (sk_values s)" "snd (sk_erase t s) \<longleftrightarrow> t \<in> set (sk_values s)"
proof -
  let ?l = "last (levels s)"
  have ok: "levels_ok (levels s)" "levels s \<noteq> []" using assms by (simp_all add: sk_ok_def)
  note e = erase_levels [OF ok(1), of t None]
  have "sk_values (fst (sk_erase t s)) = map snd (erased t ?l)"
    using e ok(2) by (simp add: sk_values_def sk_erase_def start_ok_def last_map)
  also have "\<dots> = remove1 t (map snd (low t ?l @ high t ?l))"
  proof (cases "t \<in> snd ` set ?l")
    case True
    then obtain y ys where "high t ?l = y # ys" "snd y = t"
      using high_head [OF bottom_level(1) [OF assms], of t] by (cases "high t ?l") auto
    then show ?thesis using True by (auto simp: erased_def remove1_append)
  next
    case False
    then have "t \<notin> set (map snd (low t ?l @ high t ?l))" by auto
    then have "remove1 t (map snd (low t ?l @ high t ?l)) = map snd (low t ?l @ high t ?l)" by (rule remove1_idem)
    then show ?thesis using False by (simp add: erased_def)
  qed
  also have "low t ?l @ high t ?l = ?l" using level_split [OF bottom_level(1) [OF assms], of t] by simp
  finally show "sk_values (fst (sk_erase t s)) = remove1 t (sk_values s)" by (simp add: sk_values_def)
  have "snd (sk_erase t s) \<longleftrightarrow> (\<exists>l \<in> set (levels s). t \<in> snd ` set l)"
    using e by (simp add: sk_erase_def start_ok_def)
  also have "\<dots> \<longleftrightarrow> t \<in> snd ` set ?l" by (rule any_level [OF assms])
  finally show "snd (sk_erase t s) \<longleftrightarrow> t \<in> set (sk_values s)" by (simp add: sk_values_def)
qed

section \<open>Refinement\<close>

datatype sk_op = SkInsert "nat \<Rightarrow> bool" int | SkErase int

primrec sk_run_op :: "sk_op \<Rightarrow> SkipList \<Rightarrow> SkipList" where
  "sk_run_op (SkInsert coin t) s = sk_insert coin t s"
| "sk_run_op (SkErase t) s = fst (sk_erase t s)"

primrec sorted_list_op :: "sk_op \<Rightarrow> int list \<Rightarrow> int list" where
  "sorted_list_op (SkInsert coin t) vs = insort t vs"
| "sorted_list_op (SkErase t) vs = remove1 t vs"

text \<open>
  C8. Skip list: whatever the coin flips, after any insertions and erasures the list holds the same
  values as a sorted list to which the same operations are applied, repetitions included; a search finds
  exactly the values it holds, and an erasure reports exactly whether there was something to erase.
\<close>

theorem skip_list_refines:
  "let s = fold sk_run_op ops sk_new; vs = fold sorted_list_op ops []
   in sk_values s = vs \<and> sk_serach t s = (t \<in> set vs) \<and> snd (sk_erase t s) = (t \<in> set vs)"
proof -
  have "sk_ok (fold sk_run_op ops s) \<and> sk_values (fold sk_run_op ops s) = fold sorted_list_op ops (sk_values s)"
    if "sk_ok s" for s
    using that
  proof (induction ops arbitrary: s)
    case (Cons p ops)
    have "sk_ok (sk_run_op p s) \<and> sk_values (sk_run_op p s) = sorted_list_op p (sk_values s)"
      using Cons.prems by (cases p) (simp_all add: sk_ok_insert sk_ok_erase sk_insert_values sk_erase_values)
    then show ?case using Cons.IH [of "sk_run_op p s"] by simp
  qed simp
  from this [OF sk_ok_new] show ?thesis
    by (simp add: Let_def sk_serach_values sk_erase_values) (simp add: sk_values_def sk_new_def)
qed

end
