(* ===== verification/Process_Manager.thy ===== *)
theory Process_Manager
  imports Prelude "HOL-Library.Word" "HOL-Library.Monad_Syntax"
begin

text \<open>
  The process table of \<^verbatim>\<open>ProcessManager_structure.cpp\<close>: process objects on a heap, linked to their parent
  and children by pointers, and a table from process numbers to objects. An operation that follows a
  pointer to a freed object has the value \<^const>\<open>None\<close>. The properties are that \<^verbatim>\<open>killProcess\<close> terminates and
  removes exactly a subtree, the invariant of the pointers, and the pointer that \<^verbatim>\<open>removeProcess\<close> leaves
  dangling.
\<close>

section \<open>Model\<close>

datatype ProcessState = READY | RUNNING | BLOCKED | TERMINATED

record CPUcontext =
  pc :: "64 word"
  sp :: "64 word"
  registers :: "64 word list"

definition cpu_new :: CPUcontext where
  "cpu_new = \<lparr>pc = 0, sp = 0, registers = replicate 32 0\<rparr>"

record Process =
  pid :: int
  ppid :: int
  p_state :: ProcessState
  cpu_time :: "64 word"
  memory_usage :: "64 word"
  p_context :: CPUcontext
  parent :: "nat option"
  children :: "nat list"

definition process_new :: "int \<Rightarrow> int \<Rightarrow> Process" where
  "process_new i pp = \<lparr>pid = i, ppid = pp, p_state = READY, cpu_time = 0, memory_usage = 0, p_context = cpu_new,
     parent = None, children = []\<rparr>"

record ProcessManager =
  heap :: "nat \<Rightarrow> Process option"
  fresh :: nat
  process_table :: "(int, nat) umap"

definition pm_new :: ProcessManager where
  "pm_new = \<lparr>heap = (\<lambda>_. None), fresh = 0, process_table = []\<rparr>"

definition pm_store :: "nat \<Rightarrow> Process \<Rightarrow> ProcessManager \<Rightarrow> ProcessManager" where
  "pm_store a p s = s\<lparr>heap := (heap s)(a \<mapsto> p)\<rparr>"

definition pm_free :: "nat \<Rightarrow> ProcessManager \<Rightarrow> ProcessManager" where
  "pm_free a s = s\<lparr>heap := (heap s)(a := None)\<rparr>"

definition addProcess :: "int \<Rightarrow> int \<Rightarrow> ProcessManager \<Rightarrow> ProcessManager option" where
  "addProcess i pp s = do {
     let a = fresh s;
     let proc = process_new i pp;
     let s = s\<lparr>fresh := a + 1\<rparr>;
     s \<leftarrow> (case um_find (process_table s) pp of
             None \<Rightarrow> Some (pm_store a proc s)
           | Some q \<Rightarrow> do {
               r \<leftarrow> heap s q;
               Some (pm_store a (proc\<lparr>parent := Some q\<rparr>) (pm_store q (r\<lparr>children := children r @ [a]\<rparr>) s))
             });
     Some (s\<lparr>process_table := um_put i a (process_table s)\<rparr>)
   }"

definition getProcess :: "int \<Rightarrow> ProcessManager \<Rightarrow> nat option" where
  "getProcess i s = um_find (process_table s) i"

definition getChildren :: "int \<Rightarrow> ProcessManager \<Rightarrow> nat list option" where
  "getChildren i s =
     (case um_find (process_table s) i of None \<Rightarrow> Some [] | Some a \<Rightarrow> map_option children (heap s a))"

definition pm_update :: "(Process \<Rightarrow> Process) \<Rightarrow> int \<Rightarrow> ProcessManager \<Rightarrow> ProcessManager option" where
  "pm_update f i s =
     (case um_find (process_table s) i of
        None \<Rightarrow> Some s
      | Some a \<Rightarrow> do { p \<leftarrow> heap s a; Some (pm_store a (f p) s) })"

definition updateState :: "int \<Rightarrow> ProcessState \<Rightarrow> ProcessManager \<Rightarrow> ProcessManager option" where
  "updateState i st = pm_update (\<lambda>p. p\<lparr>p_state := st\<rparr>) i"

definition updateCpuTime :: "int \<Rightarrow> 64 word \<Rightarrow> ProcessManager \<Rightarrow> ProcessManager option" where
  "updateCpuTime i t = pm_update (\<lambda>p. p\<lparr>cpu_time := t\<rparr>) i"

definition updateMemoryUsage :: "int \<Rightarrow> 64 word \<Rightarrow> ProcessManager \<Rightarrow> ProcessManager option" where
  "updateMemoryUsage i m = pm_update (\<lambda>p. p\<lparr>memory_usage := m\<rparr>) i"

definition setState :: "int \<Rightarrow> ProcessState \<Rightarrow> ProcessManager \<Rightarrow> ProcessManager option" where
  "setState i st = pm_update (\<lambda>p. p\<lparr>p_state := st\<rparr>) i"

text \<open>The end of \<^verbatim>\<open>removeProcess\<close> and of \<^verbatim>\<open>killProcess\<close>: unlink the object from its parent, then from the table.\<close>

definition pm_unlink :: "nat \<Rightarrow> int \<Rightarrow> ProcessManager \<Rightarrow> ProcessManager option" where
  "pm_unlink a i s = do {
     p \<leftarrow> heap s a;
     s \<leftarrow> (case parent p of
             None \<Rightarrow> Some s
           | Some q \<Rightarrow> do { r \<leftarrow> heap s q; Some (pm_store q (r\<lparr>children := filter (\<lambda>c. c \<noteq> a) (children r)\<rparr>) s) });
     Some (pm_free a (s\<lparr>process_table := um_erase i (process_table s)\<rparr>))
   }"

definition removeProcess :: "int \<Rightarrow> ProcessManager \<Rightarrow> ProcessManager option" where
  "removeProcess i s =
     (case um_find (process_table s) i of None \<Rightarrow> Some s | Some a \<Rightarrow> pm_unlink a i s)"

text \<open>The recursion of \<^verbatim>\<open>killProcess\<close> is bounded by fuel; running out of it is \<^const>\<open>None\<close> too.\<close>

fun kill_fuel :: "nat \<Rightarrow> int \<Rightarrow> ProcessManager \<Rightarrow> ProcessManager option" where
  "kill_fuel 0 i s = None"
| "kill_fuel (Suc n) i s =
     (case getProcess i s of
        None \<Rightarrow> Some s
      | Some a \<Rightarrow> do {
          p \<leftarrow> heap s a;
          s \<leftarrow> foldl (\<lambda>so c. do { s \<leftarrow> so; q \<leftarrow> heap s c; kill_fuel n (pid q) s }) (Some s) (children p);
          p \<leftarrow> heap s a;
          pm_unlink a i (pm_store a (p\<lparr>p_state := TERMINATED\<rparr>) s)
        })"

definition killProcess :: "int \<Rightarrow> ProcessManager \<Rightarrow> ProcessManager option" where
  "killProcess i s = kill_fuel (fresh s + 1) i s"

section \<open>The forest of processes\<close>

definition child_rel :: "ProcessManager \<Rightarrow> nat \<Rightarrow> nat \<Rightarrow> bool" where
  "child_rel s a c \<longleftrightarrow> (\<exists>p. heap s a = Some p \<and> c \<in> set (children p))"

definition subtree :: "ProcessManager \<Rightarrow> nat \<Rightarrow> nat set" where
  "subtree s a = {c. (child_rel s)\<^sup>*\<^sup>* a c}"

text \<open>
  The table and the objects correspond, every child knows its parent and every parent its child,
  and a child is younger than its parent.
\<close>

definition pm_inv :: "ProcessManager \<Rightarrow> bool" where
  "pm_inv s \<longleftrightarrow> um_ok (process_table s) \<and>
     (\<forall>i a. um_find (process_table s) i = Some a \<longleftrightarrow> (\<exists>p. heap s a = Some p \<and> pid p = i)) \<and>
     (\<forall>a p. heap s a = Some p \<longrightarrow> a < fresh s \<and> distinct (children p)) \<and>
     (\<forall>a p q. heap s a = Some p \<and> parent p = Some q \<longrightarrow> child_rel s q a) \<and>
     (\<forall>a c. child_rel s a c \<longrightarrow> a < c \<and> (\<exists>q. heap s c = Some q \<and> parent q = Some a))"

lemma pm_invD:
  assumes "pm_inv s"
  shows "um_find (process_table s) i = Some a \<longleftrightarrow> (\<exists>p. heap s a = Some p \<and> pid p = i)"
    and "heap s a = Some p \<Longrightarrow> a < fresh s"
    and "heap s a = Some p \<Longrightarrow> distinct (children p)"
    and "heap s a = Some p \<Longrightarrow> parent p = Some q \<Longrightarrow> child_rel s q a"
    and "child_rel s a c \<Longrightarrow> a < c"
    and "child_rel s a c \<Longrightarrow> \<exists>q. heap s c = Some q \<and> parent q = Some a"
  using assms unfolding pm_inv_def by blast+

text \<open>Taking a set of objects out of the forest.\<close>

definition prune :: "nat set \<Rightarrow> ProcessManager \<Rightarrow> ProcessManager" where
  "prune D s =
     \<lparr>heap = (\<lambda>a. if a \<in> D then None else map_option (\<lambda>p. p\<lparr>children := filter (\<lambda>c. c \<notin> D) (children p)\<rparr>) (heap s a)),
      fresh = fresh s, process_table = filter (\<lambda>(i, a). a \<notin> D) (process_table s)\<rparr>"

lemma prune_simps [simp]:
  "heap (prune D s) a = (if a \<in> D then None else map_option (\<lambda>p. p\<lparr>children := filter (\<lambda>c. c \<notin> D) (children p)\<rparr>) (heap s a))"
  "fresh (prune D s) = fresh s"
  "process_table (prune D s) = filter (\<lambda>(i, a). a \<notin> D) (process_table s)"
  by (simp_all add: prune_def)

lemma prune_prune: "prune E (prune D s) = prune (D \<union> E) s"
  by (auto simp: prune_def fun_eq_iff option.map_comp o_def intro!: filter_cong ext option.map_cong0)

lemma prune_empty: "prune {} s = s"
proof -
  have "heap (prune {} s) = heap s" by (auto simp: fun_eq_iff option.map_ident)
  then show ?thesis by (simp add: prune_def)
qed

lemma child_rel_prune: "child_rel (prune D s) a c \<longleftrightarrow> a \<notin> D \<and> c \<notin> D \<and> child_rel s a c"
  by (auto simp: child_rel_def)

text \<open>A set that is closed under children leaves a forest behind.\<close>

lemma pm_inv_prune:
  assumes inv: "pm_inv s" and closed: "\<And>a c. a \<in> D \<Longrightarrow> child_rel s a c \<Longrightarrow> c \<in> D"
  shows "pm_inv (prune D s)"
proof -
  have "um_find (process_table (prune D s)) i = Some a \<longleftrightarrow> (\<exists>p. heap (prune D s) a = Some p \<and> pid p = i)" for i a
  proof -
    have "um_find (process_table (prune D s)) i = Some a \<longleftrightarrow> um_find (process_table s) i = Some a \<and> a \<notin> D"
    proof -
      have "um_ok (process_table s)" using inv by (simp add: pm_inv_def)
      from um_find_filter [OF this, of "\<lambda>i a. a \<notin> D" i] show ?thesis
        by (cases "um_find (process_table s) i") auto
    qed
    also have "\<dots> \<longleftrightarrow> (\<exists>p. heap (prune D s) a = Some p \<and> pid p = i)"
      unfolding pm_invD(1) [OF inv] by auto
    finally show ?thesis .
  qed
  moreover have "um_ok (process_table (prune D s))" using inv by (simp add: pm_inv_def cxx_inv)
  moreover have "a < fresh (prune D s) \<and> distinct (children p)" if "heap (prune D s) a = Some p" for a p
    using that pm_invD(2,3) [OF inv] by (fastforce split: if_splits)
  moreover have "child_rel (prune D s) q a" if "heap (prune D s) a = Some p" "parent p = Some q" for a p q
  proof -
    have "a \<notin> D" and *: "child_rel s q a" using that pm_invD(4) [OF inv] by (auto split: if_splits)
    then show ?thesis using closed by (auto simp: child_rel_prune)
  qed
  moreover have "a < c \<and> (\<exists>q. heap (prune D s) c = Some q \<and> parent q = Some a)" if "child_rel (prune D s) a c" for a c
    using that pm_invD(5,6) [OF inv, of a c] by (auto simp: child_rel_prune)
  ultimately show ?thesis unfolding pm_inv_def by blast
qed

section \<open>Subtrees\<close>

lemma subtree_self: "a \<in> subtree s a"
  by (simp add: subtree_def)

lemma subtree_closed: "x \<in> subtree s a \<Longrightarrow> child_rel s x c \<Longrightarrow> c \<in> subtree s a"
  by (auto simp: subtree_def intro: rtranclp.rtrancl_into_rtrancl)

lemma subtree_le:
  assumes "pm_inv s" "x \<in> subtree s a"
  shows "a \<le> x"
proof -
  have "(child_rel s)\<^sup>*\<^sup>* a x" using assms(2) by (simp add: subtree_def)
  then show ?thesis
  proof (induction rule: rtranclp_induct)
    case (step y z)
    then show ?case using pm_invD(5) [OF assms(1) step.hyps(2)] by simp
  qed simp
qed

lemma subtree_children:
  assumes "heap s a = Some p"
  shows "subtree s a = insert a (\<Union>c \<in> set (children p). subtree s c)"
proof -
  have c: "child_rel s a c \<longleftrightarrow> c \<in> set (children p)" for c using assms by (simp add: child_rel_def)
  have "(child_rel s)\<^sup>*\<^sup>* a x \<longleftrightarrow> x = a \<or> (\<exists>c \<in> set (children p). (child_rel s)\<^sup>*\<^sup>* c x)" for x
    by (metis c converse_rtranclpE converse_rtranclp_into_rtranclp rtranclp.rtrancl_refl)
  then show ?thesis by (auto simp: subtree_def)
qed

lemma child_unique:
  assumes "pm_inv s" "child_rel s a x" "child_rel s b x"
  shows "a = b"
  using pm_invD(6) [OF assms(1,2)] pm_invD(6) [OF assms(1,3)] by auto

lemma ancestors_linear:
  assumes inv: "pm_inv s" and "(child_rel s)\<^sup>*\<^sup>* c x" "(child_rel s)\<^sup>*\<^sup>* d x"
  shows "(child_rel s)\<^sup>*\<^sup>* c d \<or> (child_rel s)\<^sup>*\<^sup>* d c"
  using assms(2,3)
proof (induction rule: rtranclp_induct)
  case (step y x)
  show ?case using step.prems
  proof (cases rule: rtranclp.cases)
    case rtrancl_refl
    then show ?thesis using step.hyps by (meson rtranclp.rtrancl_into_rtrancl)
  next
    case (rtrancl_into_rtrancl z)
    then have "z = y" using child_unique [OF inv _ step.hyps(2)] by blast
    then show ?thesis using step.IH rtrancl_into_rtrancl by blast
  qed
qed simp

lemma siblings_disjoint:
  assumes inv: "pm_inv s" and c: "child_rel s a c" "child_rel s a d" "c \<noteq> d"
  shows "subtree s c \<inter> subtree s d = {}"
proof -
  have no: False if "(child_rel s)\<^sup>*\<^sup>* d' c'" "child_rel s a c'" "child_rel s a d'" "c' \<noteq> d'" for c' d'
    using that(1)
  proof (cases rule: rtranclp.cases)
    case (rtrancl_into_rtrancl z)
    then have "z = a" using child_unique [OF inv _ that(2)] by blast
    then have "d' \<le> a" using subtree_le [OF inv, of a d'] rtrancl_into_rtrancl by (simp add: subtree_def)
    then show ?thesis using pm_invD(5) [OF inv that(3)] by simp
  qed (use that(4) in simp)
  show ?thesis
  proof (rule equals0I)
    fix x assume "x \<in> subtree s c \<inter> subtree s d"
    then have "(child_rel s)\<^sup>*\<^sup>* c d \<or> (child_rel s)\<^sup>*\<^sup>* d c" using ancestors_linear [OF inv, of c x d] by (simp add: subtree_def)
    then show False using no [of c d] no [of d c] c by metis
  qed
qed

lemma subtree_prune:
  assumes "subtree s c \<inter> D = {}"
  shows "subtree (prune D s) c = subtree s c"
proof -
  have "(child_rel s)\<^sup>*\<^sup>* c x" if "(child_rel (prune D s))\<^sup>*\<^sup>* c x" for x
    using that by (induction rule: rtranclp_induct) (auto simp: child_rel_prune intro: rtranclp.rtrancl_into_rtrancl)
  moreover have "(child_rel (prune D s))\<^sup>*\<^sup>* c x" if "(child_rel s)\<^sup>*\<^sup>* c x" for x
    using that
  proof (induction rule: rtranclp_induct)
    case (step y z)
    have "y \<in> subtree s c" "z \<in> subtree s c" using step.hyps by (auto simp: subtree_def intro: rtranclp.rtrancl_into_rtrancl)
    then have "child_rel (prune D s) y z" using step.hyps(2) assms by (auto simp: child_rel_prune)
    then show ?case using step.IH by (rule_tac rtranclp.rtrancl_into_rtrancl)
  qed simp
  ultimately show ?thesis by (auto simp: subtree_def)
qed

section \<open>Removing\<close>

lemma table_erase:
  assumes "pm_inv s" "heap s a = Some p"
  shows "um_erase (pid p) (process_table s) = filter (\<lambda>(i, b). b \<notin> {a}) (process_table s)"
  unfolding AList.delete_eq
proof (rule filter_cong [OF refl], clarify)
  fix i b assume "(i, b) \<in> set (process_table s)"
  then have "um_find (process_table s) i = Some b" using assms(1) by (simp add: pm_inv_def um_ok_def)
  then obtain r where r: "heap s b = Some r" "pid r = i" using pm_invD(1) [OF assms(1)] by blast
  have "um_find (process_table s) (pid p) = Some a" using pm_invD(1) [OF assms(1)] assms(2) by blast
  then show "pid p \<noteq> i \<longleftrightarrow> b \<notin> {a}"
    using r assms(2) \<open>um_find (process_table s) i = Some b\<close> by auto
qed

lemma unlink_leaf:
  assumes inv: "pm_inv s" and a: "heap s a = Some p" "children p = []" and p': "parent p' = parent p"
  shows "pm_unlink a (pid p) (pm_store a p' s) = Some (prune {a} s)"
proof -
  have out: "a \<notin> set (children r)" if "heap s x = Some r" "parent p \<noteq> Some x" for x r
    using pm_invD(6) [OF inv, of x a] that a(1) by (auto simp: child_rel_def)
  have id: "filter (\<lambda>c. c \<noteq> a) (children r) = children r" if "a \<notin> set (children r)" for r :: Process
    using that by (auto simp: filter_id_conv)
  show ?thesis
  proof (cases "parent p")
    case None
    have "((heap s)(a \<mapsto> p'))(a := None) = heap (prune {a} s)"
    proof
      fix x
      show "(((heap s)(a \<mapsto> p'))(a := None)) x = heap (prune {a} s) x"
        using out [of x] None id by (cases "heap s x") auto
    qed
    then show ?thesis using None p' table_erase [OF inv a(1)]
      by (simp add: pm_unlink_def pm_store_def pm_free_def prune_def)
  next
    case (Some q)
    have "child_rel s q a" by (rule pm_invD(4) [OF inv a(1) Some])
    then obtain r where r: "heap s q = Some r" "q \<noteq> a" using pm_invD(5) [OF inv, of q a] by (auto simp: child_rel_def)
    have "((heap s)(a \<mapsto> p', q \<mapsto> r\<lparr>children := filter (\<lambda>c. c \<noteq> a) (children r)\<rparr>))(a := None) = heap (prune {a} s)"
    proof
      fix x
      show "(((heap s)(a \<mapsto> p', q \<mapsto> r\<lparr>children := filter (\<lambda>c. c \<noteq> a) (children r)\<rparr>))(a := None)) x = heap (prune {a} s) x"
        using out [of x] Some id r by (cases "heap s x") auto
    qed
    then show ?thesis using Some p' r table_erase [OF inv a(1)]
      by (simp add: pm_unlink_def pm_store_def pm_free_def prune_def)
  qed
qed

text \<open>
  Killing removes exactly the subtree, with fuel for one level more than the objects that are younger.
\<close>

lemma kill_fuel_exact:
  assumes "pm_inv s" "um_find (process_table s) i = Some a" "fresh s - a < n"
  shows "kill_fuel n i s = Some (prune (subtree s a) s)"
  using assms
proof (induction n arbitrary: i a s)
  case (Suc n)
  note inv = Suc.prems(1)
  obtain p where p: "heap s a = Some p" "pid p = i" using pm_invD(1) [OF inv] Suc.prems(2) by blast
  have af: "a < fresh s" using pm_invD(2) [OF inv p(1)] .
  have ch: "child_rel s a c" if "c \<in> set (children p)" for c using that p(1) by (auto simp: child_rel_def)
  let ?step = "\<lambda>so c. do { s \<leftarrow> so; q \<leftarrow> heap s c; kill_fuel n (pid q) s }"
  let ?D = "\<lambda>ds. \<Union>c \<in> set ds. subtree s c"
  have closed: "y \<in> ?D ds" if "x \<in> ?D ds" "child_rel s x y" for ds x y
    using that subtree_closed by fastforce
  have loop: "foldl ?step (Some s) ds = Some (prune (?D ds) s)" if "set ds \<subseteq> set (children p)" "distinct ds" for ds
    using that
  proof (induction ds rule: rev_induct)
    case (snoc c ds)
    have c: "child_rel s a c" "c \<notin> set ds" using snoc.prems ch by auto
    have disj: "subtree s c \<inter> ?D ds = {}"
      using siblings_disjoint [OF inv c(1)] ch snoc.prems c(2) by fastforce
    obtain q where q: "heap s c = Some q" using pm_invD(6) [OF inv c(1)] by blast
    have cn: "c \<notin> ?D ds" using disj subtree_self [of c s] by blast
    let ?t = "prune (?D ds) s"
    have inv': "pm_inv ?t" using inv closed by (rule pm_inv_prune)
    have hq: "heap ?t c = Some (q\<lparr>children := filter (\<lambda>c. c \<notin> ?D ds) (children q)\<rparr>)" using q cn by simp
    have tq: "um_find (process_table ?t) (pid q) = Some c" using pm_invD(1) [OF inv'] hq by force
    have "fresh ?t - c < n" using Suc.prems(3) pm_invD(5) [OF inv c(1)] af pm_invD(2) [OF inv q] by simp
    from Suc.IH [OF inv' tq this] have k: "kill_fuel n (pid q) ?t = Some (prune (subtree ?t c) ?t)" .
    have "prune (subtree ?t c) ?t = prune (?D (ds @ [c])) s"
      unfolding subtree_prune [OF disj] prune_prune by (simp add: Un_commute)
    then show ?case using snoc hq k by simp
  qed (simp add: prune_empty)
  let ?t = "prune (?D (children p)) s"
  have lt: "foldl ?step (Some s) (children p) = Some ?t" using loop pm_invD(3) [OF inv p(1)] by blast
  have an: "a \<notin> ?D (children p)"
  proof
    assume "a \<in> ?D (children p)"
    then obtain c where "c \<in> set (children p)" "a \<in> subtree s c" by blast
    then show False using subtree_le [OF inv, of a c] pm_invD(5) [OF inv ch] by fastforce
  qed
  have "filter (\<lambda>c. c \<notin> ?D (children p)) (children p) = []"
    using subtree_self by (fastforce simp: filter_empty_conv)
  then have ha: "heap ?t a = Some (p\<lparr>children := []\<rparr>)" using p(1) an by simp
  have inv': "pm_inv ?t" using inv closed by (rule pm_inv_prune)
  have "pm_unlink a (pid (p\<lparr>children := []\<rparr>)) (pm_store a (p\<lparr>children := [], p_state := TERMINATED\<rparr>) ?t) = Some (prune {a} ?t)"
    by (rule unlink_leaf [OF inv' ha]) simp_all
  moreover have "prune {a} ?t = prune (subtree s a) s"
    unfolding prune_prune subtree_children [OF p(1)] by simp
  ultimately have "pm_unlink a i (pm_store a (p\<lparr>children := [], p_state := TERMINATED\<rparr>) ?t) = Some (prune (subtree s a) s)"
    using p(2) by simp
  moreover have "kill_fuel (Suc n) i s = do {
      s \<leftarrow> foldl ?step (Some s) (children p); p \<leftarrow> heap s a; pm_unlink a i (pm_store a (p\<lparr>p_state := TERMINATED\<rparr>) s) }"
    using p Suc.prems(2) by (simp add: getProcess_def)
  ultimately show ?case unfolding lt by (simp add: ha del: prune_simps)
qed simp

section \<open>Adding and updating\<close>

lemma pm_inv_update:
  assumes inv: "pm_inv s" and f: "\<And>p. pid (f p) = pid p \<and> parent (f p) = parent p \<and> children (f p) = children p"
  shows "\<exists>t. pm_update f i s = Some t \<and> pm_inv t"
proof (cases "um_find (process_table s) i")
  case (Some a)
  then obtain p where p: "heap s a = Some p" using pm_invD(1) [OF inv] by blast
  let ?t = "pm_store a (f p) s"
  have h: "heap ?t x = (if x = a then Some (f p) else heap s x)" "fresh ?t = fresh s" "process_table ?t = process_table s" for x
    by (simp_all add: pm_store_def)
  have cr: "child_rel ?t x c \<longleftrightarrow> child_rel s x c" for x c using p f by (auto simp: child_rel_def h)
  have "(\<exists>q. heap ?t x = Some q \<and> P (pid q) (parent q)) \<longleftrightarrow> (\<exists>q. heap s x = Some q \<and> P (pid q) (parent q))" for x P
    using p f by (auto simp: h)
  note ex = this [of _ "\<lambda>j q. j = i'" for i'] this [of _ "\<lambda>j q. q = Some b" for b]
  have "pm_inv ?t"
    unfolding pm_inv_def cr ex h(2,3)
  proof (intro conjI allI impI)
    show "um_ok (process_table s)" using inv by (simp add: pm_inv_def)
    show "(um_find (process_table s) j = Some b) = (\<exists>q. heap s b = Some q \<and> pid q = j)" for j b by (rule pm_invD(1) [OF inv])
    show "b < fresh s" if "heap ?t b = Some q" for b q using that pm_invD(2) [OF inv] p by (auto simp: h split: if_splits)
    show "distinct (children q)" if "heap ?t b = Some q" for b q
      using that pm_invD(3) [OF inv] p f by (auto simp: h split: if_splits)
    show "child_rel s r b" if "heap ?t b = Some q \<and> parent q = Some r" for b q r
      using that pm_invD(4) [OF inv] p f by (auto simp: h split: if_splits)
    show "b < c" "\<exists>q. heap s c = Some q \<and> parent q = Some b" if "child_rel s b c" for b c
      using pm_invD(5,6) [OF inv that] by blast+
  qed
  then show ?thesis using Some p by (simp add: pm_update_def)
qed (use inv in \<open>simp add: pm_update_def\<close>)

lemma pm_inv_add:
  assumes inv: "pm_inv s" and new: "um_find (process_table s) i = None"
  shows "\<exists>t. addProcess i pp s = Some t \<and> pm_inv t"
proof -
  let ?a = "fresh s"
  define par where "par = um_find (process_table s) pp"
  define np where "np = (process_new i pp)\<lparr>parent := par\<rparr>"
  have fr: "heap s ?a = None" using pm_invD(2) [OF inv, of ?a] by (cases "heap s ?a") auto
  obtain H where H: "H ?a = Some np"
    "\<And>x. x \<noteq> ?a \<Longrightarrow> H x = map_option (\<lambda>r. r\<lparr>children := children r @ (if par = Some x then [?a] else [])\<rparr>) (heap s x)"
    "addProcess i pp s = Some \<lparr>heap = H, fresh = ?a + 1, process_table = um_put i ?a (process_table s)\<rparr>"
  proof (cases par)
    case None
    have "addProcess i pp s = Some \<lparr>heap = (heap s)(?a \<mapsto> np), fresh = ?a + 1, process_table = um_put i ?a (process_table s)\<rparr>"
      using None by (simp add: addProcess_def par_def np_def pm_store_def process_new_def Let_def)
    then show thesis using None by (intro that [of "(heap s)(?a \<mapsto> np)"]) (simp_all add: option.map_ident)
  next
    case (Some q)
    then obtain r where r: "heap s q = Some r" using pm_invD(1) [OF inv] unfolding par_def by blast
    then have "q \<noteq> ?a" using fr by auto
    moreover have "addProcess i pp s = Some \<lparr>heap = (heap s)(q \<mapsto> r\<lparr>children := children r @ [?a]\<rparr>, ?a \<mapsto> np),
        fresh = ?a + 1, process_table = um_put i ?a (process_table s)\<rparr>"
      using Some r by (simp add: addProcess_def par_def np_def pm_store_def process_new_def Let_def)
    ultimately show thesis using Some r
      by (intro that [of "(heap s)(q \<mapsto> r\<lparr>children := children r @ [?a]\<rparr>, ?a \<mapsto> np)"]) (auto simp: option.map_ident)
  qed
  let ?t = "\<lparr>heap = H, fresh = ?a + 1, process_table = um_put i ?a (process_table s)\<rparr>"
  have par: "\<exists>r. heap s q = Some r" "q < ?a" if "par = Some q" for q
    using that pm_invD(1) [OF inv] pm_invD(2) [OF inv] unfolding par_def by blast+
  have old: "\<exists>r. heap s x = Some r \<and> pid p = pid r \<and> parent p = parent r \<and>
      children p = children r @ (if par = Some x then [?a] else [])" if "H x = Some p" "x \<noteq> ?a" for x p
    using that H(2) by auto
  have cr: "child_rel ?t x c \<longleftrightarrow> child_rel s x c \<or> par = Some x \<and> c = ?a" for x c
  proof (cases "x = ?a")
    case True
    then show ?thesis using H(1) fr par(2) [of ?a] by (auto simp: child_rel_def np_def process_new_def)
  next
    case False
    then show ?thesis using H(2) par(1) [of x] by (cases "heap s x") (auto simp: child_rel_def)
  qed
  have lt: "x < ?a" if "heap s x = Some r" for x r using pm_invD(2) [OF inv that] .
  have "pm_inv ?t" unfolding pm_inv_def cr
  proof (intro conjI allI impI)
    show "um_ok (process_table ?t)" using inv by (simp add: pm_inv_def cxx_inv)
    show "(um_find (process_table ?t) j = Some b) = (\<exists>q. heap ?t b = Some q \<and> pid q = j)" for j b
    proof (cases "b = ?a")
      case True
      have "um_find (process_table s) j \<noteq> Some ?a" using pm_invD(1) [OF inv, of j ?a] fr by simp
      then show ?thesis using True H(1) by (auto simp: cxx_map np_def process_new_def)
    next
      case False
      have "(\<exists>q. H b = Some q \<and> pid q = j) \<longleftrightarrow> (\<exists>q. heap s b = Some q \<and> pid q = j)" using H(2) [OF False] by auto
      then show ?thesis using False pm_invD(1) [OF inv, of j b] new by (auto simp: cxx_map)
    qed
    show "x < fresh ?t" if "heap ?t x = Some p" for x p
      using that old [of x p] lt by (cases "x = ?a") fastforce+
    show "distinct (children p)" if hx: "heap ?t x = Some p" for x p
    proof (cases "x = ?a")
      case True
      then show ?thesis using that H(1) by (auto simp: np_def process_new_def)
    next
      case False
      then obtain r where r: "heap s x = Some r" "children p = children r @ (if par = Some x then [?a] else [])"
        using old [of x p] hx by auto
      have "?a \<notin> set (children r)" using pm_invD(6) [OF inv, of x ?a] r(1) fr by (auto simp: child_rel_def)
      then show ?thesis using pm_invD(3) [OF inv r(1)] r(2) by simp
    qed
    show "child_rel s q x \<or> par = Some q \<and> x = ?a" if "heap ?t x = Some p \<and> parent p = Some q" for x p q
      using that old [of x p] H(1) pm_invD(4) [OF inv, of x] by (cases "x = ?a") (auto simp: np_def)
    show "x < c" if "child_rel s x c \<or> par = Some x \<and> c = ?a" for x c
      using that pm_invD(5) [OF inv, of x c] par(2) by blast
    show "\<exists>q. heap ?t c = Some q \<and> parent q = Some x" if xc: "child_rel s x c \<or> par = Some x \<and> c = ?a" for x c
    proof (cases "c = ?a")
      case True
      then have "par = Some x" using that pm_invD(6) [OF inv, of x ?a] fr by auto
      then show ?thesis using True H(1) by (simp add: np_def)
    next
      case False
      then obtain q where "heap s c = Some q" "parent q = Some x" using xc pm_invD(6) [OF inv, of x c] by auto
      then show ?thesis using H(2) [OF False] by simp
    qed
  qed
  then show ?thesis using H(3) by blast
qed

lemma pm_inv_new: "pm_inv pm_new"
  by (simp add: pm_inv_def pm_new_def um_ok_def child_rel_def)

section \<open>Runs\<close>

datatype pm_op = Add int int | SetState int ProcessState | CpuTime int "64 word" | Memory int "64 word" | Remove int | Kill int

primrec pm_exec :: "pm_op \<Rightarrow> ProcessManager \<Rightarrow> ProcessManager option" where
  "pm_exec (Add i pp) s = addProcess i pp s"
| "pm_exec (SetState i st) s = updateState i st s"
| "pm_exec (CpuTime i t) s = updateCpuTime i t s"
| "pm_exec (Memory i m) s = updateMemoryUsage i m s"
| "pm_exec (Remove i) s = removeProcess i s"
| "pm_exec (Kill i) s = killProcess i s"

text \<open>
  The calls after which the pointers stay in order: a number is not added twice, and \<^verbatim>\<open>removeProcess\<close> is
  called for processes without children only.
\<close>

primrec pm_legal :: "pm_op \<Rightarrow> ProcessManager \<Rightarrow> bool" where
  "pm_legal (Add i pp) s \<longleftrightarrow> getProcess i s = None"
| "pm_legal (SetState i st) s \<longleftrightarrow> True"
| "pm_legal (CpuTime i t) s \<longleftrightarrow> True"
| "pm_legal (Memory i m) s \<longleftrightarrow> True"
| "pm_legal (Remove i) s \<longleftrightarrow> getChildren i s = Some []"
| "pm_legal (Kill i) s \<longleftrightarrow> True"

fun pm_run :: "pm_op list \<Rightarrow> ProcessManager \<Rightarrow> ProcessManager option" where
  "pm_run [] s = Some s"
| "pm_run (x # xs) s = do { s \<leftarrow> pm_exec x s; pm_run xs s }"

fun pm_legal_run :: "pm_op list \<Rightarrow> ProcessManager \<Rightarrow> bool" where
  "pm_legal_run [] s = True"
| "pm_legal_run (x # xs) s = (pm_legal x s \<and> (case pm_exec x s of None \<Rightarrow> True | Some s' \<Rightarrow> pm_legal_run xs s'))"

lemma removeProcess_leaf:
  assumes inv: "pm_inv s" and "getChildren i s = Some []"
  shows "\<exists>t. removeProcess i s = Some t \<and> pm_inv t"
proof (cases "um_find (process_table s) i")
  case (Some a)
  then obtain p where p: "heap s a = Some p" "pid p = i" using pm_invD(1) [OF inv] by blast
  then have c: "children p = []" using assms(2) Some by (simp add: getChildren_def)
  have "pm_store a p s = s" using p(1) by (simp add: pm_store_def fun_upd_idem)
  then have "pm_unlink a i s = Some (prune {a} s)" using unlink_leaf [OF inv p(1) c refl] p(2) by simp
  moreover have "pm_inv (prune {a} s)" using p(1) c by (intro pm_inv_prune [OF inv]) (simp add: child_rel_def)
  ultimately show ?thesis using Some by (simp add: removeProcess_def)
qed (use inv in \<open>simp add: removeProcess_def\<close>)

lemma killProcess_exact:
  assumes inv: "pm_inv s"
  shows "killProcess i s = Some (case getProcess i s of None \<Rightarrow> s | Some a \<Rightarrow> prune (subtree s a) s)"
  using kill_fuel_exact [OF inv, of i _ "fresh s + 1"]
  by (cases "getProcess i s") (auto simp: killProcess_def getProcess_def less_Suc_eq_le)

lemma pm_inv_exec:
  assumes inv: "pm_inv s" and "pm_legal x s"
  shows "\<exists>t. pm_exec x s = Some t \<and> pm_inv t"
proof (cases x)
  case (Kill i)
  have "pm_inv (prune (subtree s a) s)" for a using inv subtree_closed by (intro pm_inv_prune) auto
  then show ?thesis using Kill killProcess_exact [OF inv, of i] inv by (simp split: option.split)
qed (use assms in \<open>auto simp: getProcess_def updateState_def updateCpuTime_def updateMemoryUsage_def
  intro!: pm_inv_add removeProcess_leaf pm_inv_update\<close>)

lemma pm_run_inv: "pm_inv s \<Longrightarrow> pm_legal_run xs s \<Longrightarrow> \<exists>t. pm_run xs s = Some t \<and> pm_inv t"
proof (induction xs arbitrary: s)
  case (Cons x xs)
  then obtain t where t: "pm_exec x s = Some t" "pm_inv t" using pm_inv_exec [of s x] by auto
  then show ?case using Cons by simp
qed simp

text \<open>
  C9. Process table: after any legal calls no operation has followed a freed pointer, and a call of
  \<^verbatim>\<open>killProcess\<close> then terminates and removes exactly the process and its descendants: every other object
  is left as it was but for the dead children in its list, and the table forgets the dead numbers only.
\<close>

theorem process_kill_exact:
  assumes "pm_legal_run xs pm_new"
  shows "\<exists>s. pm_run xs pm_new = Some s \<and> pm_inv s \<and>
    killProcess i s = Some (case getProcess i s of None \<Rightarrow> s | Some a \<Rightarrow> prune (subtree s a) s)"
  using pm_run_inv [OF pm_inv_new assms] killProcess_exact by blast

theorem process_kill_exact_witness:
  "\<exists>s. pm_run [Add 1 0, Add 2 1, CpuTime 2 500, Add 3 2] pm_new = Some s \<and> pm_inv s \<and>
    killProcess 2 s = Some (case getProcess 2 s of None \<Rightarrow> s | Some a \<Rightarrow> prune (subtree s a) s)"
  by (rule process_kill_exact)
    (simp add: Let_def pm_new_def getProcess_def addProcess_def pm_store_def process_new_def updateCpuTime_def pm_update_def)

text \<open>
  Removing a process that has a child leaves the child with a pointer to the freed parent, and
  removing the child then follows it.
\<close>

theorem process_remove_dangles:
  "pm_run [Add 1 0, Add 2 1, Remove 1] pm_new \<noteq> None \<and> pm_run [Add 1 0, Add 2 1, Remove 1, Remove 2] pm_new = None"
  by (simp add: Let_def pm_new_def addProcess_def pm_store_def process_new_def removeProcess_def pm_unlink_def pm_free_def)

end
