(* ===== verification/Spec2Isabelle.thy ===== *)
theory Spec2Isabelle
  imports WAL_Recovery LSM_Engine Lock_Manager Txn_Exclusive Txn_Strict2PL MVCC Snapshots
    Garbage_Collector Dedup Metadata_Service Buffer_Pool Tiered_Cache TTL_Cache Bounded_Queue Lock_Free Turn_Taking Sync_Primitives Raft Allocator Merge_Sort Max_XOR Query_Operators Cluster_Services Deadlock_Detector
    Rate_Limiters LFU_Cache Priority_Cache Bucket_Map Load_Balancer File_Systems
    External_Sort Worker_Pools Build_System Mutex_Programs Skip_List Process_Manager
begin

text \<open>
  A verification library for a collection of C++ programs on storage engines, caching, concurrency,
  distributed services and large-scale processing. Each program is a file under \<^verbatim>\<open>src/\<close> with its own
  classes and \<^verbatim>\<open>main\<close>; programs do not call each other, so a theory models one program or a group that
  shares a data structure or a contract. Where programs have the same contract it is a locale,
  interpreted on each of them.

  \<^bold>\<open>How the code is modelled.\<close> A class is a record, a method a function on it, an enumeration a datatype.
  \<^verbatim>\<open>unordered_map\<close> is an association list with distinct keys, \<^verbatim>\<open>map\<close> a sorted one (\<open>Prelude\<close>); the order in which an
  \<^verbatim>\<open>unordered_map\<close> is traversed is the order of the list. A method that holds a mutex for its whole body
  is one step; programs whose threads interleave are \<open>inductive\<close> step relations with one rule for each
  critical section or atomic access, and a wait on a condition variable is a step that is not enabled.
  Undefined behaviour (a null or freed pointer, an index out of range) is the value \<^const>\<open>None\<close>. Code outside
  the sources is a parameter: hash functions, \<^verbatim>\<open>rand\<close>, the clock, the order in which a \<^verbatim>\<open>priority_queue\<close> returns
  equal elements, where an entry added to an \<^verbatim>\<open>unordered_map\<close> comes in an iteration under way.

  \<^bold>\<open>Shared theories.\<close> \<open>Prelude\<close>: containers, the locales \<open>writer\<close> and \<open>dictionary\<close>, reachability and the locale
  \<open>inductive_invariant\<close>. \<open>Cxx_Streams\<close>: formatted input and output with their round trips. \<open>Indexed_List\<close>: the
  list with an index of iterators that the caches use. \<open>Worker_Pools\<close>: worker threads and the locale \<open>draining\<close> of
  systems whose threads come to rest. \<open>Txn_Interface\<close>: the contract of the transaction managers.

  \<^bold>\<open>Storage engines.\<close> \<open>WAL_Recovery\<close> (\<^verbatim>\<open>storage/WALrecovery.cpp\<close>): the log is parsed back to the operations, so a
  recovered store is the store before the crash, and what an empty value does to every record after it. \<open>LSM_Engine\<close>
  (\<^verbatim>\<open>multi-stage-pipeline/LSM_WritePath_StorageEngine.cpp\<close>, \<^verbatim>\<open>storage/KVstore.cpp\<close>,
  \<^verbatim>\<open>caching/MemTable_SSTable_Lookup.cpp\<close>): reads return the last write across memtable, tables and recovery.
  \<open>MVCC\<close>, \<open>Snapshots\<close>, \<open>Garbage_Collector\<close>, \<open>Dedup\<close>, \<open>Metadata_Service\<close>, \<open>Buffer_Pool\<close>, \<open>Skip_List\<close>, \<open>File_Systems\<close>,
  \<open>Process_Manager\<close>, \<open>Load_Balancer\<close> (\<^verbatim>\<open>storage/\<close>, the files are named in each theory): visible versions, reference counts,
  refinement to files, maps, sorted lists and trees of paths, and that killing a process removes exactly
  its subtree.

  \<^bold>\<open>Transactions and locks.\<close> \<open>Lock_Manager\<close>, \<open>Txn_Exclusive\<close>, \<open>Txn_Strict2PL\<close>, \<open>Deadlock_Detector\<close>: exclusion of
  conflicting holders, isolation of a write until its transaction ends, and that a deadlock is reported exactly for a
  cycle as long as the map that is searched and grown at once is not rehashed.

  \<^bold>\<open>Caches and limiters.\<close> \<open>LRU_Cache\<close>, \<open>LFU_Cache\<close>, \<open>Priority_Cache\<close>, \<open>Tiered_Cache\<close>, \<open>TTL_Cache\<close>, \<open>Bucket_Map\<close>
  (\<^verbatim>\<open>caching/\<close>) and \<open>Rate_Limiters\<close>: what is evicted, expires or is admitted, against a reference list or map.

  \<^bold>\<open>Concurrency.\<close> \<open>Bounded_Queue\<close>, \<open>Lock_Free\<close>, \<open>Turn_Taking\<close>, \<open>Sync_Primitives\<close>, \<open>Mutex_Programs\<close>, \<open>Worker_Pools\<close> and
  \<open>Build_System\<close> (\<^verbatim>\<open>concurrency/\<close>, \<^verbatim>\<open>CAS/\<close>, \<^verbatim>\<open>algorithms/multiThreadedBFS.cpp\<close>,
  \<^verbatim>\<open>multi-stage-pipeline/SearchEngineIndexing.cpp\<close> and \<^verbatim>\<open>BuildSystem_Make_Bazel.cpp\<close>): first-in first-out order,
  linearisation, mutual exclusion, freedom from deadlock, and that every task, node or target is handled
  exactly once before the workers return, within a bounded number of steps.

  \<^bold>\<open>Distributed services.\<close> \<open>Raft\<close>: at most one leader in a term, and two elections that block each other in a
  cluster of any size.
  \<open>Cluster_Services\<close>: consistent hashing, Bloom filter, heartbeats, two-phase commit, remote calls.

  \<^bold>\<open>Algorithms and queries.\<close> \<open>Allocator\<close>, \<open>Merge_Sort\<close>, \<open>Tries\<close>, \<open>Max_XOR\<close>, \<open>Query_Operators\<close>, and \<open>External_Sort\<close>
  (\<^verbatim>\<open>large-scale-processing/\<close>): functional correctness against a reference definition, such as sorted order, the
  most frequent elements or nested loops.

  \<^bold>\<open>Bounds and fuel.\<close> Loops are structural or terminate by a measure; the merge of \<open>External_Sort\<close> and
  the iterators of \<open>Query_Operators\<close> are partial functions that are proved to return. Fuel is used where recursion
  follows pointers: the search for a cycle has one more than there are transactions, for the depth of its recursion and
  for the turns of its loop, \<^verbatim>\<open>killProcess\<close> one more than the objects ever created, because a
  child is younger than its parent; both are proved to return a result. Integers are words where wrap-around
  matters (\<open>Max_XOR\<close>, \<open>Mutex_Programs\<close>, \<open>Process_Manager\<close>) and unbounded elsewhere, as the theories say.

  \<^bold>\<open>Not modelled.\<close> Progress messages, sleeping and thread creation; weak memory orders beyond sequential
  consistency; floating-point arithmetic (\<^verbatim>\<open>rate-limiter/RateLimiter_TokenBucket.cpp\<close>,
  \<^verbatim>\<open>oop-framework/MetricsFramework.cpp\<close>, \<^verbatim>\<open>algorithms/MatrixMultiplication_Parallel.cpp\<close>); real time (the task
  schedulers and \<^verbatim>\<open>simulations/\<close>); command-line tools. Also left out are programs not yet taken up: the
  copies of the queues with demonstration threads, the remaining pipelines with one queue and workers, the
  event bus, message broker and notification service, the blob store wrapper, the B+ tree, the backup
  scheduler, search completion, the query optimiser and the remaining class hierarchies of \<^verbatim>\<open>oop-framework/\<close>.
\<close>

end
